(* ===== verification/Prelude.thy ===== *)
theory Prelude
  imports Main "HOL-Library.Char_ord" "HOL-Library.List_Lexorder" "HOL-Library.Sublist"
begin

text \<open>
  What every component of the development shares: the result type of an operation of the
  servers, the collections of rewrite rules, and lemmas on byte strings in the order of
  \<open>std::string\<close> (bytes compared as unsigned numbers, a proper prefix before its extensions),
  which is the order of \<open>HOL-Library.List_Lexorder\<close> over \<open>HOL-Library.Char_ord\<close>.
\<close>

section \<open>Outcomes\<close>

text \<open>
  An operation returns, or the process dies in it: a failed \<open>assert(0)\<close>, an exception nobody
  catches, or an access the C++ standard leaves undefined. The state an aborted operation leaves
  is kept, since what was written to the database before the abort survives it.
\<close>

datatype crash =
    Assert_failed          \<comment> \<open>\<open>assert(0)\<close>\<close>
  | Json_exception         \<comment> \<open>\<open>Pb2Json::Json::parse\<close> throws\<close>
  | Out_of_range           \<comment> \<open>\<open>std::string::substr\<close> throws\<close>
  | Bad_array_new_length   \<comment> \<open>\<open>new char[n]\<close> with a negative \<open>n\<close> throws\<close>
  | Stack_empty            \<comment> \<open>\<open>std::stack::top\<close> on an empty stack: undefined\<close>
  | Buffer_overread        \<comment> \<open>a read past the end of a buffer: undefined\<close>
  | Buffer_overrun         \<comment> \<open>a write past the end of a buffer: undefined\<close>
  | Use_after_delete       \<comment> \<open>an access to a deleted array, or deleting it again: undefined\<close>
  | Null_pointer           \<comment> \<open>a null pointer is followed: undefined\<close>
  | Integer_undefined      \<comment> \<open>signed overflow, or division by zero: undefined\<close>

datatype ('a, 's) outcome =
    Ret 'a 's
  | Abort crash 's

fun bind_out :: "('a, 's) outcome \<Rightarrow> ('a \<Rightarrow> 's \<Rightarrow> ('b, 's) outcome) \<Rightarrow> ('b, 's) outcome" where
  "bind_out (Ret a s) k = k a s"
| "bind_out (Abort c s) k = Abort c s"

fun state_of :: "('a, 's) outcome \<Rightarrow> 's" where
  "state_of (Ret a s) = s"
| "state_of (Abort c s) = s"

lemma bind_out_Ret [simp]: "bind_out m Ret = m"
  by (cases m) simp_all

lemma bind_out_assoc: "bind_out (bind_out m f) g = bind_out m (\<lambda>a s. bind_out (f a s) g)"
  by (cases m) simp_all

lemma bind_out_eq_Ret:
  "bind_out m k = Ret b t \<longleftrightarrow> (\<exists>a s. m = Ret a s \<and> k a s = Ret b t)"
  by (cases m) simp_all

text \<open>
  The same for operations that may also never return, which is \<open>None\<close>. \<open>at_part\<close> runs an operation on
  a part of the state.
\<close>

fun bind_opt :: "('a, 's) outcome option \<Rightarrow> ('a \<Rightarrow> 's \<Rightarrow> ('b, 's) outcome option)
    \<Rightarrow> ('b, 's) outcome option" where
  "bind_opt None k = None"
| "bind_opt (Some (Abort c s)) k = Some (Abort c s)"
| "bind_opt (Some (Ret a s)) k = k a s"

lemma bind_opt_eq_Ret:
  "bind_opt m k = Some (Ret b t) \<longleftrightarrow> (\<exists>a s. m = Some (Ret a s) \<and> k a s = Some (Ret b t))"
  by (cases "(m, k)" rule: bind_opt.cases) simp_all

fun map_state :: "('s \<Rightarrow> 't) \<Rightarrow> ('a, 's) outcome \<Rightarrow> ('a, 't) outcome" where
  "map_state f (Ret a s) = Ret a (f s)"
| "map_state f (Abort c s) = Abort c (f s)"

lemma map_state_eq_Ret: "map_state f m = Ret a t \<longleftrightarrow> (\<exists>s. m = Ret a s \<and> t = f s)"
  by (cases m) auto

text \<open>The state an operation leaves, returned or aborted, satisfies \<open>I\<close>.\<close>

definition keeps :: "('s \<Rightarrow> bool) \<Rightarrow> ('a, 's) outcome \<Rightarrow> bool" where
  "keeps I m \<longleftrightarrow> I (state_of m)"

lemma keeps_Ret [simp]: "keeps I (Ret a s) \<longleftrightarrow> I s"
  by (simp add: keeps_def)

lemma keeps_Abort [simp]: "keeps I (Abort c s) \<longleftrightarrow> I s"
  by (simp add: keeps_def)

lemma keeps_bind:
  assumes "keeps I m" and "\<And>a s. m = Ret a s \<Longrightarrow> I s \<Longrightarrow> keeps I (k a s)"
  shows "keeps I (bind_out m k)"
  using assms by (cases m) simp_all

lemma keeps_state: "keeps I m \<Longrightarrow> m = Ret a s \<Longrightarrow> I s"
  by simp

named_theorems keys "the key builders of the store never collide"
named_theorems store "what a write leaves to be read"
named_theorems init "the initial values of the messages"

section \<open>Byte strings in the order of \<open>std::string\<close>\<close>

lemma prefix_le:
  fixes p :: "'a::linorder list"
  shows "prefix p k \<Longrightarrow> p \<le> k"
proof (induction p arbitrary: k)
  case (Cons a p)
  then show ?case by (cases k) auto
qed simp

text \<open>The keys that start with \<open>p\<close> follow \<open>p\<close> with no other key between them.\<close>

lemma prefix_interval:
  fixes p :: "'a::linorder list"
  shows "p \<le> k \<Longrightarrow> k \<le> k' \<Longrightarrow> prefix p k' \<Longrightarrow> prefix p k"
proof (induction p arbitrary: k k')
  case (Cons a p)
  from Cons.prems(3) obtain l' where k': "k' = a # l'" and p: "prefix p l'"
    by (auto simp: prefix_def)
  from Cons.prems(1) obtain b l where k: "k = b # l"
    by (cases k) auto
  from Cons.prems(1,2) have "b = a" and "p \<le> l" and "l \<le> l'"
    unfolding k k' by auto
  with Cons.IH [of l l'] p show ?case by (simp add: k)
qed simp

lemma takeWhile_prefix_sorted:
  fixes p :: "'a::linorder list"
  assumes "sorted (map fst xs)" and "\<forall>x\<in>set xs. p \<le> fst x"
  shows "takeWhile (\<lambda>x. prefix p (fst x)) xs = filter (\<lambda>x. prefix p (fst x)) xs"
  using assms
proof (induction xs)
  case (Cons x xs)
  show ?case
  proof (cases "prefix p (fst x)")
    case False
    have "\<not> prefix p (fst y)" if "y \<in> set xs" for y
      using prefix_interval [of p "fst x" "fst y"] Cons.prems that False by auto
    with False show ?thesis by (auto simp: filter_empty_conv)
  qed (use Cons in auto)
qed simp

text \<open>
  A scan that seeks \<open>p\<close> and stops at the first key without that prefix sees exactly the
  entries whose keys have it.
\<close>

lemma scan_prefix_sorted:
  fixes p :: "'a::linorder list"
  assumes "sorted (map fst xs)"
  shows "takeWhile (\<lambda>x. prefix p (fst x)) (dropWhile (\<lambda>x. fst x < p) xs)
    = filter (\<lambda>x. prefix p (fst x)) xs"
  using assms
proof (induction xs)
  case (Cons x xs)
  show ?case
  proof (cases "fst x < p")
    case True
    then have "\<not> prefix p (fst x)" using prefix_le leD by blast
    with True Cons show ?thesis by simp
  next
    case False
    with Cons.prems have "\<forall>y\<in>set (x # xs). p \<le> fst y"
      by (auto intro: order_trans [OF leI])
    with takeWhile_prefix_sorted [OF Cons.prems] False show ?thesis by simp
  qed
qed simp

lemma distinct_fst_dropWhile:
  "distinct (map fst xs) \<Longrightarrow> distinct (map fst (dropWhile P xs))"
  by (induction xs) auto

lemma less_snoc_same_length:
  fixes xs ys :: "'a::linorder list"
  assumes "length xs = length ys"
  shows "xs @ [x] < ys @ [y] \<longleftrightarrow> xs < ys \<or> xs = ys \<and> x < y"
  using assms by (induction xs ys rule: list_induct2) auto

lemma append_less_append [simp]:
  fixes p xs ys :: "'a::linorder list"
  shows "p @ xs < p @ ys \<longleftrightarrow> xs < ys"
  by (induction p) auto

lemma takeWhile_neq_append: "a \<notin> set u \<Longrightarrow> takeWhile (\<lambda>c. c \<noteq> a) (u @ a # v) = u"
  by (induction u) auto

text \<open>A string is split in only one way at its last occurrence of a character.\<close>

lemma append_right_unique:
  assumes "xs @ a # s = ys @ a # t" and "a \<notin> set s" and "a \<notin> set t"
  shows "xs = ys \<and> s = t"
proof -
  from assms(1) have eq: "rev s @ a # rev xs = rev t @ a # rev ys"
    by (metis append.assoc append_Cons append_Nil rev.simps(2) rev_append rev_rev_ident)
  have "rev s = rev t"
    using takeWhile_neq_append [of a "rev s" "rev xs"]
      takeWhile_neq_append [of a "rev t" "rev ys"] eq assms(2,3) by simp
  with assms(1) show ?thesis by simp
qed

end
