(* ===== verification/Proto.thy ===== *)
theory Proto
  imports Prelude "HOL-Library.Word"
begin

text \<open>
  The messages of \<open>rpc.proto\<close>, \<open>storage.proto\<close> and \<open>config.proto\<close>. A field holds what its
  accessor returns: an optional field that is not set reads as its default (the empty string, 0,
  the first value of the enumeration), and no code of the program asks a \<open>has_\<close> method, so an
  unset field and one set to the default are the same value here. \<open>X_init\<close> is a freshly
  constructed (or cleared) message of type \<open>X\<close>.
\<close>

section \<open>config.proto\<close>

type_synonym uint32 = "32 word"

record Host =
  hash_id :: uint32
  host_name :: string
  host_port :: uint32

definition Host_init :: Host where
  [init]: "Host_init = \<lparr>hash_id = 0, host_name = [], host_port = 0\<rparr>"

record Config =
  config_host :: "Host list"
  config_self_hash_id :: uint32

definition Config_init :: Config where
  [init]: "Config_init = \<lparr>config_host = [], config_self_hash_id = 0\<rparr>"

section \<open>rpc.proto\<close>

datatype RequestType =
    Req_Type_Begin | Req_Type_Prepare | Req_Type_Commit | Req_Type_Rollback
  | Req_Type_Delete | Req_Type_Insert | Req_Type_Update | Req_Type_Get

fun RequestType_number :: "RequestType \<Rightarrow> nat" where
  "RequestType_number Req_Type_Begin = 1"
| "RequestType_number Req_Type_Prepare = 2"
| "RequestType_number Req_Type_Commit = 3"
| "RequestType_number Req_Type_Rollback = 5"
| "RequestType_number Req_Type_Delete = 6"
| "RequestType_number Req_Type_Insert = 7"
| "RequestType_number Req_Type_Update = 8"
| "RequestType_number Req_Type_Get = 9"

record RpcReq =
  rq_request_type :: RequestType
  rq_begin_ts :: string
  rq_key :: string
  rq_value :: string
  rq_start_ts :: string
  rq_commit_ts :: string
  rq_trans_list :: "Host list"
  rq_get_for_update :: uint32

definition RpcReq_init :: RpcReq where
  [init]: "RpcReq_init = \<lparr>rq_request_type = Req_Type_Begin, rq_begin_ts = [], rq_key = [],
    rq_value = [], rq_start_ts = [], rq_commit_ts = [], rq_trans_list = [],
    rq_get_for_update = 0\<rparr>"

record RpcRes =
  rs_result :: uint32
  rs_err_msg :: string
  rs_begin_ts :: string
  rs_key :: string
  rs_value :: string
  rs_start_ts :: string
  rs_commit_ts :: string

definition RpcRes_init :: RpcRes where
  [init]: "RpcRes_init = \<lparr>rs_result = 0, rs_err_msg = [], rs_begin_ts = [], rs_key = [],
    rs_value = [], rs_start_ts = [], rs_commit_ts = []\<rparr>"

record CliReq =
  cq_request_type :: RequestType
  cq_begin_ts :: string
  cq_key :: string
  cq_value :: string
  cq_get_for_update :: uint32

definition CliReq_init :: CliReq where
  [init]: "CliReq_init = \<lparr>cq_request_type = Req_Type_Begin, cq_begin_ts = [], cq_key = [],
    cq_value = [], cq_get_for_update = 0\<rparr>"

record CliRes =
  cs_result :: uint32
  cs_err_msg :: string
  cs_begin_ts :: string
  cs_key :: string
  cs_value :: string
  cs_start_ts :: string
  cs_commit_ts :: string

definition CliRes_init :: CliRes where
  [init]: "CliRes_init = \<lparr>cs_result = 0, cs_err_msg = [], cs_begin_ts = [], cs_key = [],
    cs_value = [], cs_start_ts = [], cs_commit_ts = []\<rparr>"

datatype TransState =
    TransStateBegin | TransStatePrepared | TransStateCommited | TransStateRollback

fun TransState_number :: "TransState \<Rightarrow> nat" where
  "TransState_number TransStateBegin = 1"
| "TransState_number TransStatePrepared = 2"
| "TransState_number TransStateCommited = 3"
| "TransState_number TransStateRollback = 4"

lemma TransState_number_inject [simp]: "TransState_number a = TransState_number b \<longleftrightarrow> a = b"
  by (cases a; cases b) simp_all

text \<open>
  The states in the order of their numbers: every transition of the protocol goes up in it.
\<close>

instantiation TransState :: linorder
begin

definition less_eq_TransState :: "TransState \<Rightarrow> TransState \<Rightarrow> bool" where
  "less_eq_TransState a b \<longleftrightarrow> TransState_number a \<le> TransState_number b"

definition less_TransState :: "TransState \<Rightarrow> TransState \<Rightarrow> bool" where
  "less_TransState a b \<longleftrightarrow> TransState_number a < TransState_number b"

instance
  by standard (auto simp: less_eq_TransState_def less_TransState_def)

end

record TransStateReq =
  tq_host :: Host
  tq_trans_stat :: TransState
  tq_begin_ts :: string
  tq_commit_ts :: string

definition TransStateReq_init :: TransStateReq where
  [init]: "TransStateReq_init = \<lparr>tq_host = Host_init, tq_trans_stat = TransStateBegin,
    tq_begin_ts = [], tq_commit_ts = []\<rparr>"

record TransStateRes =
  ts_host :: Host
  ts_trans_stat :: TransState
  ts_begin_ts :: string
  ts_commit_ts :: string
  ts_result :: uint32
  ts_err_msg :: string

definition TransStateRes_init :: TransStateRes where
  [init]: "TransStateRes_init = \<lparr>ts_host = Host_init, ts_trans_stat = TransStateBegin,
    ts_begin_ts = [], ts_commit_ts = [], ts_result = 0, ts_err_msg = []\<rparr>"

datatype MsgType =
    MSG_Type_Rpc_Request | MSG_Type_Rpc_Response | MSG_Type_Cli_Request
  | MSG_Type_Cli_Response | MSG_Type_TransState_Request | MSG_Type_TransState_Response

fun MsgType_number :: "MsgType \<Rightarrow> int" where
  "MsgType_number MSG_Type_Rpc_Request = 1"
| "MsgType_number MSG_Type_Rpc_Response = 2"
| "MsgType_number MSG_Type_Cli_Request = 3"
| "MsgType_number MSG_Type_Cli_Response = 4"
| "MsgType_number MSG_Type_TransState_Request = 5"
| "MsgType_number MSG_Type_TransState_Response = 6"

lemma MsgType_number_pos [simp]: "0 < MsgType_number t"
  by (cases t) simp_all

lemma MsgType_number_inject [simp]: "MsgType_number a = MsgType_number b \<longleftrightarrow> a = b"
  by (cases a; cases b) simp_all

datatype MsgContent =
    MsgContent_not_set
  | Rpc_request RpcReq
  | Rpc_response RpcRes
  | Cli_request CliReq
  | Cli_response CliRes
  | Trans_state_request TransStateReq
  | Trans_state_response TransStateRes

record Msg =
  msg_group_id :: string
  msg_msg_type :: MsgType
  msg_content :: MsgContent

definition Msg_init :: Msg where
  [init]: "Msg_init = \<lparr>msg_group_id = [], msg_msg_type = MSG_Type_Rpc_Request,
    msg_content = MsgContent_not_set\<rparr>"

text \<open>
  \<open>mutable_x()\<close> on the \<open>oneof\<close>: the case's message when that case is set; otherwise the
  case is switched to a freshly constructed message, so what is read is the defaults.
\<close>

fun mutable_rpc_request :: "Msg \<Rightarrow> RpcReq" where
  "mutable_rpc_request m = (case msg_content m of Rpc_request r \<Rightarrow> r | _ \<Rightarrow> RpcReq_init)"

fun mutable_rpc_response :: "Msg \<Rightarrow> RpcRes" where
  "mutable_rpc_response m = (case msg_content m of Rpc_response r \<Rightarrow> r | _ \<Rightarrow> RpcRes_init)"

fun mutable_cli_request :: "Msg \<Rightarrow> CliReq" where
  "mutable_cli_request m = (case msg_content m of Cli_request r \<Rightarrow> r | _ \<Rightarrow> CliReq_init)"

fun mutable_trans_state_request :: "Msg \<Rightarrow> TransStateReq" where
  "mutable_trans_state_request m =
     (case msg_content m of Trans_state_request r \<Rightarrow> r | _ \<Rightarrow> TransStateReq_init)"

fun mutable_trans_state_response :: "Msg \<Rightarrow> TransStateRes" where
  "mutable_trans_state_response m =
     (case msg_content m of Trans_state_response r \<Rightarrow> r | _ \<Rightarrow> TransStateRes_init)"

section \<open>storage.proto\<close>

record Data =
  data_state :: RequestType
  data_value :: string
  data_next :: string
  data_cur_version :: string

definition Data_init :: Data where
  [init]: "Data_init = \<lparr>data_state = Req_Type_Begin, data_value = [], data_next = [],
    data_cur_version = []\<rparr>"

record Lock =
  lock_trans :: string

definition Lock_init :: Lock where
  [init]: "Lock_init = \<lparr>lock_trans = []\<rparr>"

record TransList =
  tl_host :: Host
  tl_commit_ts :: string
  tl_state :: TransState

definition TransList_init :: TransList where
  [init]: "TransList_init = \<lparr>tl_host = Host_init, tl_commit_ts = [], tl_state = TransStateBegin\<rparr>"

record Trans =
  trans_state :: TransState
  trans_commit_trans :: string
  trans_start_trans :: string
  trans_trans_list :: "TransList list"
  trans_self_commit_ts :: string

definition Trans_init :: Trans where
  [init]: "Trans_init = \<lparr>trans_state = TransStateBegin, trans_commit_trans = [],
    trans_start_trans = [], trans_trans_list = [], trans_self_commit_ts = []\<rparr>"

end
