(* ===== verification/Env.thy ===== *)
theory Env
  imports Proto
begin

text \<open>
  The two third-party libraries the servers rest on, as parameters: an \<open>env\<close> holds the
  operations of RocksDB and of pb2json that the program calls, and the locales \<open>pb2json\<close> and
  \<open>rocksdb\<close> state what the program relies on them for. Every definition that uses a library
  takes the \<open>env\<close> as its first argument.
\<close>

section \<open>The operations the program calls\<close>

text \<open>
  \<open>rocksdb::Status::code()\<close>: \<open>kOk\<close> is 0 and \<open>kNotFound\<close> is 1; the codes from 2 on are errors
  whose number the program only passes on.
\<close>

datatype Code = kOk | kNotFound | kOther nat

fun code_number :: "Code \<Rightarrow> int" where
  "code_number kOk = 0"
| "code_number kNotFound = 1"
| "code_number (kOther n) = 2 + int n"

lemma code_number_0 [simp]: "code_number s = 0 \<longleftrightarrow> s = kOk"
  by (cases s) simp_all

definition ok :: "Code \<Rightarrow> bool" where
  [simp]: "ok s \<longleftrightarrow> s = kOk"

text \<open>
  The conversions of pb2json between a message of type \<open>'m\<close> and a JSON value of type \<open>'j\<close>.
  \<open>Json2Message\<close> fills the message it is given and says whether it succeeded.
\<close>

record ('j, 'm) pbcodec =
  Message2Json :: "'m \<Rightarrow> 'j"
  Json2Message :: "'j \<Rightarrow> 'm \<Rightarrow> bool \<times> 'm"

text \<open>
  An environment: \<open>'d\<close> is the state of an open database. \<open>db_Get\<close> returns the status and the
  value it writes to its out parameter, \<open>db_Put\<close> the status and the database after it.
  \<open>db_Iterator\<close> is the key-value list an iterator walks, in key order; an iterator reads a
  snapshot of the database at its creation. \<open>Json_parse\<close> is \<open>None\<close> where it throws.
\<close>

record ('d, 'j) env =
  db_Get :: "'d \<Rightarrow> string \<Rightarrow> Code \<times> string"
  db_Put :: "'d \<Rightarrow> string \<Rightarrow> string \<Rightarrow> Code \<times> 'd"
  db_Iterator :: "'d \<Rightarrow> (string \<times> string) list"
  Json_parse :: "string \<Rightarrow> 'j option"
  Json_dump :: "'j \<Rightarrow> string"
  pb_Trans :: "('j, Trans) pbcodec"
  pb_Lock :: "('j, Lock) pbcodec"
  pb_Data :: "('j, Data) pbcodec"
  pb_Msg :: "('j, Msg) pbcodec"
  pb_Config :: "('j, Config) pbcodec"

section \<open>What the program relies on\<close>

text \<open>A message converted to JSON and read back into a fresh message of its type is itself.\<close>

definition lawful_codec :: "('j, 'm) pbcodec \<Rightarrow> 'm \<Rightarrow> bool" where
  "lawful_codec c m0 \<longleftrightarrow> (\<forall>m. Json2Message c (Message2Json c m) m0 = (True, m))"

locale pb2json =
  fixes E :: "('d, 'j) env"
  assumes parse_dump: "Json_parse E (Json_dump E j) = Some j"
    and codec_Trans: "lawful_codec (pb_Trans E) Trans_init"
    and codec_Lock: "lawful_codec (pb_Lock E) Lock_init"
    and codec_Data: "lawful_codec (pb_Data E) Data_init"
    and codec_Msg: "lawful_codec (pb_Msg E) Msg_init"
    and codec_Config: "lawful_codec (pb_Config E) Config_init"

text \<open>
  A write that succeeds is read back and touches no other key; a write that reports an error is
  not applied. An iterator lists each key that can be read once, in the order of the bytes.
\<close>

locale rocksdb =
  fixes E :: "('d, 'j) env"
  assumes put_get: "db_Put E d k v = (kOk, d') \<Longrightarrow> db_Get E d' k = (kOk, v)"
    and put_get_other: "db_Put E d k v = (kOk, d') \<Longrightarrow> k' \<noteq> k \<Longrightarrow> db_Get E d' k' = db_Get E d k'"
    and put_failed: "db_Put E d k v = (s, d') \<Longrightarrow> s \<noteq> kOk \<Longrightarrow> db_Get E d' k' = db_Get E d k'"
    and iterator_sorted: "sorted (map fst (db_Iterator E d))"
    and iterator_distinct: "distinct (map fst (db_Iterator E d))"
    and iterator_get: "(k, v) \<in> set (db_Iterator E d) \<longleftrightarrow> db_Get E d k = (kOk, v)"

locale store_env = pb2json E + rocksdb E
  for E :: "('d, 'j) env"

text \<open>A database on which no read and no write fails.\<close>

locale reliable_env = store_env E
  for E :: "('d, 'j) env" +
  assumes put_ok: "fst (db_Put E d k v) = kOk"
    and get_ok: "fst (db_Get E d k) = kOk \<or> fst (db_Get E d k) = kNotFound"

end
