(* ===== verification/Utils.thy ===== *)
theory Utils
  imports Env
begin

text \<open>
  \<open>Core/Utils.cpp\<close>: reading the configuration file, JSON conversion, the timestamps that name
  transactions, and the hash that places a key on a storage server.
\<close>

section \<open>\<open>ReadWholeFile\<close>\<close>

text \<open>
  The file is the bytes it holds, \<open>None\<close> if it cannot be opened. One turn of the loop reads up to
  1000 bytes into a cleared buffer of 1000 and appends the buffer as a C string: up to its first
  zero byte. A turn that fills the buffer with no zero byte leaves no terminator, and the append
  reads past the buffer. \<open>eof()\<close> holds after a turn that found fewer than 1000 bytes.
\<close>

definition append_cstr :: "string \<Rightarrow> string \<Rightarrow> crash + string" where
  "append_cstr retStr buff =
     (if CHR 0x00 \<in> set buff then Inr (retStr @ takeWhile (\<lambda>c. c \<noteq> CHR 0x00) buff)
      else Inl Buffer_overread)"

function ReadWholeFile_loop :: "string \<Rightarrow> string \<Rightarrow> crash + string" where
  "ReadWholeFile_loop infile retStr =
     (let n = min 1000 (length infile);
          buff = take n infile @ replicate (1000 - n) (CHR 0x00)
      in case append_cstr retStr buff of
           Inl e \<Rightarrow> Inl e
         | Inr retStr' \<Rightarrow>
             if length infile < 1000 then Inr retStr'
             else ReadWholeFile_loop (drop 1000 infile) retStr')"
  by pat_completeness auto
termination
  by (relation "measure (\<lambda>(infile, _). length infile)") auto

declare ReadWholeFile_loop.simps [simp del]

definition ReadWholeFile :: "string option \<Rightarrow> crash + string" where
  "ReadWholeFile file =
     (case file of None \<Rightarrow> Inr [] | Some infile \<Rightarrow> ReadWholeFile_loop infile [])"

section \<open>\<open>Msg2JsonStr\<close> and \<open>JsonStr2Msg\<close>\<close>

definition Msg2JsonStr :: "('d, 'j) env \<Rightarrow> ('j, 'm) pbcodec \<Rightarrow> 'm \<Rightarrow> string" where
  "Msg2JsonStr E c message = Json_dump E (Message2Json c message)"

text \<open>
  The int returned and the message filled; \<open>None\<close> where \<open>Json::parse\<close> throws. The branch for a
  failed conversion returns the \<open>bool\<close> itself, which is \<open>false\<close>.
\<close>

definition JsonStr2Msg ::
  "('d, 'j) env \<Rightarrow> ('j, 'm) pbcodec \<Rightarrow> string \<Rightarrow> 'm \<Rightarrow> (int \<times> 'm) option" where
  "JsonStr2Msg E c jsonStr message =
     (case Json_parse E jsonStr of
        None \<Rightarrow> None
      | Some json \<Rightarrow>
          (let (ret, message') = Json2Message c json message
           in if ret \<noteq> True then Some (of_bool ret, message') else Some (0, message')))"

section \<open>\<open>GetTS\<close>\<close>

text \<open>Decimal digits, as \<open>operator<<\<close> prints an integer.\<close>

definition digit_char :: "nat \<Rightarrow> char" where
  "digit_char d = char_of (48 + d)"

fun decimal :: "nat \<Rightarrow> string" where
  "decimal n = (if n < 10 then [digit_char n] else decimal (n div 10) @ [digit_char (n mod 10)])"

declare decimal.simps [simp del]

text \<open>
  The seconds and microseconds \<open>gettimeofday\<close> returns. The sum is a 64-bit \<open>long\<close> in the code,
  which holds it for any date before the year 29000.
\<close>

definition GetTS :: "nat \<Rightarrow> nat \<Rightarrow> string" where
  "GetTS tv_sec tv_usec = ''ts'' @ decimal (tv_sec * 1000000 * 10 + tv_usec)"

section \<open>\<open>GetHash\<close>\<close>

text \<open>A \<open>char\<close> as an int: it is signed on the platforms the program builds for.\<close>

definition char_int :: "char \<Rightarrow> int" where
  "char_int c = (let b = of_char c :: int in if b < 128 then b else b - 256)"

definition GetHash_sum :: "string \<Rightarrow> uint32" where
  "GetHash_sum key = foldl (\<lambda>n c. n + word_of_int (char_int c)) 0 key"

text \<open>
  \<open>n % size\<close> converts the table size to unsigned and is undefined for 0; the result is converted back
  to \<open>int\<close>.
\<close>

definition GetHash :: "string \<Rightarrow> int \<Rightarrow> crash + int" where
  "GetHash key hsize =
     (let n = GetHash_sum key; m = (word_of_int hsize :: uint32)
      in if m = 0 then Inl Integer_undefined else Inr (sint (n mod m)))"


section \<open>Lemmas\<close>

subsection \<open>JSON\<close>

lemma JsonStr2Msg_result: "JsonStr2Msg E c s m = Some (r, m') \<Longrightarrow> r = 0"
  by (auto simp: JsonStr2Msg_def split: option.splits prod.splits if_splits)

context pb2json
begin

lemma json_roundtrip:
  "lawful_codec c m0 \<Longrightarrow> JsonStr2Msg E c (Msg2JsonStr E c m) m0 = Some (0, m)"
  by (simp add: JsonStr2Msg_def Msg2JsonStr_def parse_dump lawful_codec_def)

end

subsection \<open>\<open>ReadWholeFile\<close>\<close>

lemma append_cstr_short:
  assumes "CHR 0x00 \<notin> set s" and "0 < n"
  shows "append_cstr r (s @ replicate n (CHR 0x00)) = Inr (r @ s)"
proof -
  obtain k where n: "n = Suc k" using assms(2) by (cases n) auto
  show ?thesis unfolding append_cstr_def n replicate_Suc takeWhile_neq_append [OF assms(1)] by simp
qed

lemma ReadWholeFile_short:
  assumes "length s < 1000" and "CHR 0x00 \<notin> set s"
  shows "ReadWholeFile (Some s) = Inr s"
proof -
  have "min 1000 (length s) = length s" using assms(1) by simp
  with assms show ?thesis
    by (simp add: ReadWholeFile_def ReadWholeFile_loop.simps [of s] append_cstr_short)
qed

lemma ReadWholeFile_long:
  assumes "1000 \<le> length s" and "CHR 0x00 \<notin> set (take 1000 s)"
  shows "ReadWholeFile (Some s) = Inl Buffer_overread"
  using assms by (simp add: ReadWholeFile_def ReadWholeFile_loop.simps [of s] append_cstr_def)

subsection \<open>\<open>GetHash\<close>\<close>

lemma GetHash_sum_eq: "GetHash_sum key = word_of_int (\<Sum>c\<leftarrow>key. char_int c)"
proof -
  have "foldl (\<lambda>n c. n + word_of_int (char_int c)) a key
      = a + (word_of_int (\<Sum>c\<leftarrow>key. char_int c) :: uint32)" for a
    by (induction key arbitrary: a) (simp_all add: add.assoc)
  then show ?thesis by (simp add: GetHash_sum_def)
qed

lemma word_of_int_small:
  assumes "0 < n" and "n < 2 ^ 31"
  shows "uint (word_of_int n :: uint32) = n"
  using assms by (simp add: uint_word_of_int)

lemma sint_small:
  fixes w :: uint32
  assumes "uint w < 2 ^ 31"
  shows "sint w = uint w"
  using assms by (simp add: sint_uint signed_take_bit_int_eq_self_iff order_trans [OF _ unsigned_greater_eq])

lemma GetHash_eq:
  assumes "0 < n" and "n < 2 ^ 31"
  shows "GetHash key n = Inr ((\<Sum>c\<leftarrow>key. char_int c) mod 2 ^ 32 mod n)"
proof -
  let ?s = "GetHash_sum key" and ?m = "word_of_int n :: uint32"
  note m = word_of_int_small [OF assms]
  have "?m \<noteq> 0" using m assms(1) by (metis less_irrefl unsigned_0)
  moreover have u: "uint (?s mod ?m) = (\<Sum>c\<leftarrow>key. char_int c) mod 2 ^ 32 mod n"
    by (simp add: uint_mod m) (simp add: GetHash_sum_eq uint_word_of_int)
  moreover have "uint (?s mod ?m) < 2 ^ 31"
    using pos_mod_bound [OF assms(1)] assms(2) unfolding u by (rule less_trans)
  ultimately show ?thesis by (simp add: GetHash_def sint_small)
qed

subsection \<open>\<open>GetTS\<close>\<close>

lemma decimal_small [simp]: "n < 10 \<Longrightarrow> decimal n = [digit_char n]"
  by (simp add: decimal.simps)

lemma decimal_big: "\<not> n < 10 \<Longrightarrow> decimal n = decimal (n div 10) @ [digit_char (n mod 10)]"
  by (simp add: decimal.simps)

lemma decimal_nonempty [simp]: "decimal n \<noteq> []"
  by (subst decimal.simps) simp

lemma digit_char_less [simp]:
  "a < 10 \<Longrightarrow> b < 10 \<Longrightarrow> digit_char a < digit_char b \<longleftrightarrow> a < b"
  by (simp add: digit_char_def less_char_def)

lemma digit_char_inject [simp]:
  "a < 10 \<Longrightarrow> b < 10 \<Longrightarrow> digit_char a = digit_char b \<longleftrightarrow> a = b"
  by (metis digit_char_less less_irrefl linorder_neqE_nat)

lemma decimal_chars: "c \<in> set (decimal n) \<Longrightarrow> \<exists>d < 10. c = digit_char d"
proof (induction n rule: decimal.induct)
  case (1 n)
  have "\<exists>d<10. digit_char (n mod 10) = digit_char d"
    by (rule exI [of _ "n mod 10"]) simp
  with 1 show ?case by (cases "n < 10") (auto simp: decimal_big)
qed

lemma length_decimal: "length (decimal n) = Suc k \<longleftrightarrow> (10 ^ k \<le> n \<or> k = 0) \<and> n < 10 ^ Suc k"
proof (induction n arbitrary: k rule: decimal.induct)
  case (1 n)
  show ?case
  proof (cases "n < 10")
    case True
    have "(10::nat) \<le> 10 * 10 ^ j" for j by simp
    with True show ?thesis by (cases k) (auto simp: not_le intro: less_le_trans)
  next
    case False
    show ?thesis
    proof (cases k)
      case 0
      with False show ?thesis by (simp add: decimal_big)
    next
      case (Suc j)
      have "10 ^ j \<le> n div 10 \<longleftrightarrow> 10 ^ Suc j \<le> n"
        by (simp add: less_eq_div_iff_mult_less_eq mult.commute)
      moreover have "n div 10 < 10 ^ Suc j \<longleftrightarrow> n < 10 ^ Suc (Suc j)"
        by (simp add: div_less_iff_less_mult mult.commute)
      moreover have "j = 0 \<Longrightarrow> 10 ^ j \<le> n div 10" using False by simp
      ultimately show ?thesis using 1 [OF False, of j] False
        by (auto simp: decimal_big Suc)
    qed
  qed
qed

lemma decimal_order:
  assumes "length (decimal m) = length (decimal n)"
  shows "decimal m < decimal n \<longleftrightarrow> m < n" and "decimal m = decimal n \<longleftrightarrow> m = n"
proof -
  have "(decimal m < decimal n \<longleftrightarrow> m < n) \<and> (decimal m = decimal n \<longleftrightarrow> m = n)"
    using assms
  proof (induction m arbitrary: n rule: decimal.induct)
    case (1 m)
    show ?case
    proof (cases "m < 10 \<or> n < 10")
      case True
      with "1.prems" have "m < 10" and "n < 10"
        using length_decimal [of m 0] length_decimal [of n 0] by auto
      then show ?thesis by simp
    next
      case False
      then have m: "\<not> m < 10" and n: "\<not> n < 10" by auto
      from "1.prems" have len: "length (decimal (m div 10)) = length (decimal (n div 10))"
        by (simp add: decimal_big m n)
      have "m < n \<longleftrightarrow> m div 10 < n div 10 \<or> m div 10 = n div 10 \<and> m mod 10 < n mod 10"
        and "m = n \<longleftrightarrow> m div 10 = n div 10 \<and> m mod 10 = n mod 10"
        using div_mult_mod_eq [of m 10] div_mult_mod_eq [of n 10]
          mod_less_divisor [of 10 m] mod_less_divisor [of 10 n] by (linarith, metis)
      with "1.IH" [OF m len] show ?thesis
        by (simp add: decimal_big m n less_snoc_same_length [OF len])
    qed
  qed
  then show "decimal m < decimal n \<longleftrightarrow> m < n" and "decimal m = decimal n \<longleftrightarrow> m = n" by auto
qed

lemma GetTS_not_empty [simp]: "GetTS s u \<noteq> []"
  by (simp add: GetTS_def)

text \<open>
  A timestamp has no underscore, so it can be told apart from the rest of a key of the store.
\<close>

lemma GetTS_no_underscore: "CHR ''_'' \<notin> set (GetTS s u)"
proof
  assume "CHR ''_'' \<in> set (GetTS s u)"
  then have "CHR ''_'' \<in> set (decimal (s * 1000000 * 10 + u))" by (simp add: GetTS_def)
  then obtain d where "d < 10" and "CHR ''_'' = digit_char d" using decimal_chars by blast
  then have "(of_char (CHR ''_'') :: nat) = of_char (digit_char d)" by metis
  with \<open>d < 10\<close> show False by (simp add: digit_char_def)
qed

end
