(* ===== verification/Store.thy ===== *)
theory Store
  imports Utils
begin

text \<open>
  \<open>Core/Storage.h\<close> and \<open>Core/Storage.cpp\<close>: the transaction records, the key locks and the chains
  of versions a storage server keeps in RocksDB. A method is a function of the environment, its
  arguments and the \<open>Storage\<close> object; the object is an extensible record, so that the same methods
  run on the whole state of a server, which extends it.
\<close>

section \<open>The object and its access to the database\<close>

text \<open>
  \<open>db\<close> is the state of the database the pointer refers to; \<open>prepareTaskStack\<close> holds the
  identities of the suspended resolver coroutines, its head the top of the stack.
\<close>

record 'd Storage =
  db :: 'd
  prepareTaskStack :: "nat list"
  self_hash_id :: uint32

definition Get_db :: "('d, 'j) env \<Rightarrow> ('d, 'z) Storage_scheme \<Rightarrow> string \<Rightarrow> Code \<times> string" where
  "Get_db E st key = db_Get E (db st) key"

definition Put_db :: "('d, 'j) env \<Rightarrow> ('d, 'z) Storage_scheme \<Rightarrow> string \<Rightarrow> string
    \<Rightarrow> Code \<times> ('d, 'z) Storage_scheme" where
  "Put_db E st key val = (let (s, d) = db_Put E (db st) key val in (s, st\<lparr>db := d\<rparr>))"

text \<open>
  Parsing a stored value into a fresh message, as every method does after a read: the int
  \<open>JsonStr2Msg\<close> returns is ignored, and an exception ends the process.
\<close>

definition parsed :: "('d, 'j) env \<Rightarrow> ('j, 'm) pbcodec \<Rightarrow> 'm \<Rightarrow> string \<Rightarrow> 's
    \<Rightarrow> ('m \<Rightarrow> ('a, 's) outcome) \<Rightarrow> ('a, 's) outcome" where
  "parsed E c m0 valueJson st k =
     (case JsonStr2Msg E c valueJson m0 of
        None \<Rightarrow> Abort Json_exception st
      | Some (_, m) \<Rightarrow> k m)"

section \<open>The keys\<close>

definition makeTrans :: "string \<Rightarrow> string" where
  "makeTrans ts = ''trans_'' @ ts"

text \<open>\<open>substr\<close> throws on a key shorter than the prefix.\<close>

definition parseTrans :: "string \<Rightarrow> crash + string" where
  "parseTrans key =
     (if length ''trans_'' \<le> length key then Inr (drop (length ''trans_'') key)
      else Inl Out_of_range)"

definition makeLock :: "string \<Rightarrow> string" where
  "makeLock key = ''lock_'' @ key"

definition makeDataEntry :: "string \<Rightarrow> string" where
  "makeDataEntry key = ''data_'' @ key @ ''_entry''"

definition makeData :: "string \<Rightarrow> string \<Rightarrow> string" where
  "makeData key begin_ts = ''data_'' @ key @ ''_'' @ begin_ts"

section \<open>Transactions and locks\<close>

definition addTrans :: "('d, 'j) env \<Rightarrow> string \<Rightarrow> ('d, 'z) Storage_scheme
    \<Rightarrow> (int, ('d, 'z) Storage_scheme) outcome" where
  "addTrans E begin_ts st =
     (let key = makeTrans begin_ts;
          (status, valueJson) = Get_db E st key
      in if status \<noteq> kNotFound then Ret (-1) st
         else let trans = Trans_init\<lparr>trans_state := TransStateBegin\<rparr>;
                  (status, st) = Put_db E st key (Msg2JsonStr E (pb_Trans E) trans)
              in if \<not> ok status then Ret (-2) st else Ret 0 st)"

definition addLock :: "('d, 'j) env \<Rightarrow> string \<Rightarrow> string \<Rightarrow> ('d, 'z) Storage_scheme
    \<Rightarrow> (int, ('d, 'z) Storage_scheme) outcome" where
  "addLock E key begin_ts st =
     (let key0 = makeLock key;
          (status, valueJson) = Get_db E st key0;
          set_lock = (let lock = Lock_init\<lparr>lock_trans := begin_ts\<rparr>;
                          (status, st) = Put_db E st key0 (Msg2JsonStr E (pb_Lock E) lock)
                      in if \<not> ok status then Ret (-2) st else Ret 0 st)
      in if ok status then
           parsed E (pb_Lock E) Lock_init valueJson st (\<lambda>lock.
             if lock_trans lock \<noteq> begin_ts then
               (let (status, valueJson) = Get_db E st (makeTrans (lock_trans lock))
                in if \<not> ok status then Ret (-11) st
                   else parsed E (pb_Trans E) Trans_init valueJson st (\<lambda>trans.
                     if trans_state trans = TransStateRollback
                        \<or> trans_state trans = TransStateCommited
                     then set_lock
                     else Ret (-1) st))
             else Ret 0 st)
         else if status = kNotFound then set_lock
         else Ret 0 st)"

section \<open>Versions\<close>

definition addData :: "('d, 'j) env \<Rightarrow> string \<Rightarrow> string \<Rightarrow> string \<Rightarrow> RequestType
    \<Rightarrow> ('d, 'z) Storage_scheme \<Rightarrow> (int, ('d, 'z) Storage_scheme) outcome" where
  "addData E key val begin_ts type st =
     (let keyEntry = makeDataEntry key;
          (status, valueJson) = Get_db E st keyEntry
      in if ok status then
           parsed E (pb_Data E) Data_init valueJson st (\<lambda>data.
             if data_cur_version data = begin_ts then
               (let data = data\<lparr>data_state := type, data_value := val\<rparr>;
                    (status, st) = Put_db E st keyEntry (Msg2JsonStr E (pb_Data E) data)
                in if \<not> ok status then Ret (-1) st else Ret 0 st)
             else
               (let key1 = makeData key (data_cur_version data);
                    (status, st) = Put_db E st key1 (Msg2JsonStr E (pb_Data E) data)
                in if \<not> ok status then Ret (-2) st
                   else let dataEntry = Data_init\<lparr>data_state := type, data_value := val,
                              data_next := data_cur_version data,
                              data_cur_version := begin_ts\<rparr>;
                            (status, st) = Put_db E st keyEntry
                              (Msg2JsonStr E (pb_Data E) dataEntry)
                        in if \<not> ok status then Ret (-2) st else Ret 0 st))
         else
           (let data = Data_init\<lparr>data_state := type, data_value := val, data_next := [],
                  data_cur_version := begin_ts\<rparr>;
                (status, st) = Put_db E st keyEntry (Msg2JsonStr E (pb_Data E) data)
            in if \<not> ok status then Ret (-3) st else Ret 0 st))"

text \<open>The out parameters of \<open>ReadData\<close>, which keep what the caller put there until set.\<close>

record read_out =
  out_value :: string
  out_retBeginTs :: string
  out_retStartTs :: string
  out_retCommitTs :: string

definition read_out_init :: read_out where
  [init]: "read_out_init = \<lparr>out_value = [], out_retBeginTs = [], out_retStartTs = [],
    out_retCommitTs = []\<rparr>"

text \<open>
  One turn of the loop: \<open>Inl\<close> of the value returned and the out parameters, or \<open>Inr\<close> of the next
  \<open>loopBeginTs\<close>. The turn changes no state.
\<close>

definition ReadData_turn :: "('d, 'j) env \<Rightarrow> string \<Rightarrow> string \<Rightarrow> read_out \<Rightarrow> string
    \<Rightarrow> ('d, 'z) Storage_scheme
    \<Rightarrow> ((int \<times> read_out) + string, ('d, 'z) Storage_scheme) outcome" where
  "ReadData_turn E begin_ts key out loopBeginTs st =
     (let datakey = (if length loopBeginTs = 0 then makeDataEntry key
                     else makeData key loopBeginTs);
          (status, valueJson) = Get_db E st datakey
      in if ok status then
           parsed E (pb_Data E) Data_init valueJson st (\<lambda>data.
             if data_cur_version data = begin_ts then
               (let out = out\<lparr>out_value := data_value data,
                              out_retBeginTs := data_cur_version data\<rparr>
                in if data_state data = Req_Type_Delete then Ret (Inl (33, out)) st
                   else Ret (Inl (0, out)) st)
             else
               (let transKey = makeTrans (data_cur_version data);
                    (status, transJson) = Get_db E st transKey
                in if \<not> ok status then Ret (Inl (-1, out)) st
                   else parsed E (pb_Trans E) Trans_init transJson st (\<lambda>trans.
                     let again = (if length (data_next data) = 0 then Ret (Inl (99, out)) st
                                  else Ret (Inr (data_next data)) st);
                         seen = out\<lparr>out_retBeginTs := data_cur_version data,
                                    out_retStartTs := trans_start_trans trans,
                                    out_retCommitTs := trans_commit_trans trans\<rparr>
                     in case trans_state trans of
                          TransStateBegin \<Rightarrow> again
                        | TransStatePrepared \<Rightarrow>
                            if begin_ts > trans_start_trans trans then Ret (Inl (66, seen)) st
                            else again
                        | TransStateCommited \<Rightarrow>
                            if begin_ts > trans_commit_trans trans then
                              (let out = seen\<lparr>out_value := data_value data\<rparr>
                               in if data_state data = Req_Type_Delete
                                  then Ret (Inl (33, out)) st
                                  else Ret (Inl (0, out)) st)
                            else again
                        | TransStateRollback \<Rightarrow> again)))
         else if status = kNotFound then Ret (Inl (99, out)) st
         else Abort Assert_failed st)"

text \<open>The loop, \<open>None\<close> if it never ends.\<close>

partial_function (option) ReadData_loop :: "('d, 'j) env \<Rightarrow> string \<Rightarrow> string \<Rightarrow> read_out
    \<Rightarrow> string \<Rightarrow> ('d, 'z) Storage_scheme
    \<Rightarrow> (int \<times> read_out, ('d, 'z) Storage_scheme) outcome option" where
  "ReadData_loop E begin_ts key out loopBeginTs st =
     (case ReadData_turn E begin_ts key out loopBeginTs st of
        Abort c st \<Rightarrow> Some (Abort c st)
      | Ret r st \<Rightarrow>
          (case r of
             Inl ret \<Rightarrow> Some (Ret ret st)
           | Inr loopBeginTs' \<Rightarrow> ReadData_loop E begin_ts key out loopBeginTs' st))"

declare ReadData_loop.simps [code]

definition ReadData :: "('d, 'j) env \<Rightarrow> string \<Rightarrow> string \<Rightarrow> read_out \<Rightarrow> ('d, 'z) Storage_scheme
    \<Rightarrow> (int \<times> read_out, ('d, 'z) Storage_scheme) outcome option" where
  "ReadData E begin_ts key out st = ReadData_loop E begin_ts key out [] st"

section \<open>Preparing a transaction\<close>

text \<open>One turn of the loop over \<open>rpcReq->trans_list()\<close>.\<close>

definition add_trans_list :: "uint32 \<Rightarrow> Trans \<Rightarrow> Host \<Rightarrow> Trans" where
  "add_trans_list self tr h =
     (let transList = TransList_init\<lparr>tl_host := h\<rparr>;
          transList = (if hash_id h = self
                       then transList\<lparr>tl_state := TransStatePrepared\<rparr> else transList)
      in tr\<lparr>trans_trans_list := trans_trans_list tr @ [transList]\<rparr>)"

definition updateTransPrepared :: "('d, 'j) env \<Rightarrow> string \<Rightarrow> RpcReq \<Rightarrow> ('d, 'z) Storage_scheme
    \<Rightarrow> (int, ('d, 'z) Storage_scheme) outcome" where
  "updateTransPrepared E begin_ts rpcReq st =
     (let key = makeTrans begin_ts;
          (status, valueJson) = Get_db E st key
      in if \<not> ok status then Ret (-1) st
         else parsed E (pb_Trans E) Trans_init valueJson st (\<lambda>trans.
           if trans_state trans \<noteq> TransStateBegin then Ret (-2) st
           else
             (let trans = trans\<lparr>trans_state := TransStatePrepared,
                                trans_start_trans := rq_start_ts rpcReq\<rparr>;
                  trans = foldl (add_trans_list (self_hash_id st)) trans (rq_trans_list rpcReq);
                  (status, st) = Put_db E st key (Msg2JsonStr E (pb_Trans E) trans)
              in if \<not> ok status then Ret (-3) st else Ret 0 st)))"

definition updateTransSelfCommitTs :: "('d, 'j) env \<Rightarrow> string \<Rightarrow> string
    \<Rightarrow> ('d, 'z) Storage_scheme \<Rightarrow> (int, ('d, 'z) Storage_scheme) outcome" where
  "updateTransSelfCommitTs E begin_ts self_commit_ts st =
     (let key = makeTrans begin_ts;
          (status, valueJson) = Get_db E st key
      in if \<not> ok status then Ret (code_number status) st
         else parsed E (pb_Trans E) Trans_init valueJson st (\<lambda>trans.
           if trans_state trans \<noteq> TransStatePrepared then Ret (-2) st
           else
             (let trans = trans\<lparr>trans_self_commit_ts := self_commit_ts\<rparr>;
                  (status, st) = Put_db E st key (Msg2JsonStr E (pb_Trans E) trans)
              in if \<not> ok status then Ret (code_number status) st else Ret 0 st)))"

section \<open>Cleaning up\<close>

text \<open>
  \<open>resume co begin_ts st\<close> stands for \<open>co->begin_ts = begin_ts; co_resume(co->co)\<close>: the coroutine
  runs until it yields.
\<close>

definition startCleanTrans :: "('d, 'j) env
    \<Rightarrow> (nat \<Rightarrow> string \<Rightarrow> ('d, 'z) Storage_scheme \<Rightarrow> (unit, ('d, 'z) Storage_scheme) outcome)
    \<Rightarrow> string \<Rightarrow> ('d, 'z) Storage_scheme \<Rightarrow> (unit, ('d, 'z) Storage_scheme) outcome" where
  "startCleanTrans E resume begin_ts st =
     (let key = makeTrans begin_ts;
          (status, valueJson) = Get_db E st key
      in if \<not> ok status then Ret () st
         else parsed E (pb_Trans E) Trans_init valueJson st (\<lambda>trans.
           if trans_state trans = TransStateBegin then
             (let trans = trans\<lparr>trans_state := TransStateRollback\<rparr>;
                  (status, st) = Put_db E st key (Msg2JsonStr E (pb_Trans E) trans)
              in if \<not> ok status then Abort Assert_failed st else Ret () st)
           else if trans_state trans = TransStatePrepared then
             (case prepareTaskStack st of
                [] \<Rightarrow> Abort Stack_empty st
              | co # rest \<Rightarrow> resume co begin_ts (st\<lparr>prepareTaskStack := rest\<rparr>))
           else Ret () st))"

text \<open>The body of the start-up loop, for the key and the value the iterator stands at.\<close>

definition startUpClean_turn :: "('d, 'j) env
    \<Rightarrow> (nat \<Rightarrow> string \<Rightarrow> ('d, 'z) Storage_scheme \<Rightarrow> (unit, ('d, 'z) Storage_scheme) outcome)
    \<Rightarrow> string \<Rightarrow> string \<Rightarrow> ('d, 'z) Storage_scheme
    \<Rightarrow> (unit, ('d, 'z) Storage_scheme) outcome" where
  "startUpClean_turn E resume key val st =
     parsed E (pb_Trans E) Trans_init val st (\<lambda>trans.
       if trans_state trans = TransStateBegin then
         (let trans = trans\<lparr>trans_state := TransStateRollback\<rparr>;
              (status, st) = Put_db E st key (Msg2JsonStr E (pb_Trans E) trans)
          in if \<not> ok status then Abort Assert_failed st else Ret () st)
       else if trans_state trans = TransStatePrepared then
         (case parseTrans key of
            Inl e \<Rightarrow> Abort e st
          | Inr begin_ts \<Rightarrow> startCleanTrans E resume begin_ts st)
       else Ret () st)"

fun startUpClean_loop :: "('d, 'j) env
    \<Rightarrow> (nat \<Rightarrow> string \<Rightarrow> ('d, 'z) Storage_scheme \<Rightarrow> (unit, ('d, 'z) Storage_scheme) outcome)
    \<Rightarrow> (string \<times> string) list \<Rightarrow> ('d, 'z) Storage_scheme
    \<Rightarrow> (unit, ('d, 'z) Storage_scheme) outcome" where
  "startUpClean_loop E resume [] st = Ret () st"
| "startUpClean_loop E resume ((key, val) # iter) st =
     (if \<not> prefix (makeTrans []) key then Ret () st
      else bind_out (startUpClean_turn E resume key val st)
        (\<lambda>_ st. startUpClean_loop E resume iter st))"

definition startUpClean :: "('d, 'j) env
    \<Rightarrow> (nat \<Rightarrow> string \<Rightarrow> ('d, 'z) Storage_scheme \<Rightarrow> (unit, ('d, 'z) Storage_scheme) outcome)
    \<Rightarrow> ('d, 'z) Storage_scheme \<Rightarrow> (unit, ('d, 'z) Storage_scheme) outcome" where
  "startUpClean E resume st =
     startUpClean_loop E resume
       (dropWhile (\<lambda>kv. fst kv < makeTrans []) (db_Iterator E (db st))) st"

end
