(* ===== verification/Store_Laws.thy ===== *)
theory Store_Laws
  imports Store
begin

text \<open>
  The typed view of a store: what is found under the key of a transaction, a lock, the head of a
  version chain or an older version. Every storage method is characterised over this view, and a
  method's write is described by what it leaves to be found.
\<close>

section \<open>Typed reads and writes\<close>

datatype 'm fetched = Found 'm | Unreadable | Missing | Failed nat

definition decode :: "('d, 'j) env \<Rightarrow> ('j, 'm) pbcodec \<Rightarrow> 'm \<Rightarrow> string \<Rightarrow> 'm fetched" where
  "decode E c m0 val = (case JsonStr2Msg E c val m0 of None \<Rightarrow> Unreadable | Some (_, m) \<Rightarrow> Found m)"

definition fetch :: "('d, 'j) env \<Rightarrow> ('j, 'm) pbcodec \<Rightarrow> 'm \<Rightarrow> ('d, 'z) Storage_scheme \<Rightarrow> string
    \<Rightarrow> 'm fetched" where
  "fetch E c m0 st key =
     (case Get_db E st key of (status, val) \<Rightarrow>
        (case status of kOk \<Rightarrow> decode E c m0 val | kNotFound \<Rightarrow> Missing | kOther n \<Rightarrow> Failed n))"

definition fetch_Trans where
  "fetch_Trans E st ts = fetch E (pb_Trans E) Trans_init st (makeTrans ts)"

definition fetch_Lock where
  "fetch_Lock E st key = fetch E (pb_Lock E) Lock_init st (makeLock key)"

definition fetch_Entry where
  "fetch_Entry E st key = fetch E (pb_Data E) Data_init st (makeDataEntry key)"

definition fetch_Version where
  "fetch_Version E st key ts = fetch E (pb_Data E) Data_init st (makeData key ts)"

definition put_Trans where
  "put_Trans E st ts t = Put_db E st (makeTrans ts) (Msg2JsonStr E (pb_Trans E) t)"

definition put_Lock where
  "put_Lock E st key l = Put_db E st (makeLock key) (Msg2JsonStr E (pb_Lock E) l)"

definition put_Entry where
  "put_Entry E st key v = Put_db E st (makeDataEntry key) (Msg2JsonStr E (pb_Data E) v)"

definition put_Version where
  "put_Version E st key ts v = Put_db E st (makeData key ts) (Msg2JsonStr E (pb_Data E) v)"

lemmas fetch_defs = fetch_Trans_def fetch_Lock_def fetch_Entry_def fetch_Version_def
lemmas put_defs = put_Trans_def put_Lock_def put_Entry_def put_Version_def

text \<open>A write changes only the database of the object.\<close>

lemma Put_db_frame:
  assumes "Put_db E st k v = (s, st')"
  shows "prepareTaskStack st' = prepareTaskStack st" and "self_hash_id st' = self_hash_id st"
    and "Storage.more st' = Storage.more st"
  using assms by (auto simp: Put_db_def split: prod.splits)

section \<open>The keys never collide\<close>

lemma makeTrans_inject [simp, keys]: "makeTrans a = makeTrans b \<longleftrightarrow> a = b"
  by (simp add: makeTrans_def)

lemma parseTrans_makeTrans [simp]: "parseTrans (makeTrans ts) = Inr ts"
  by (simp add: parseTrans_def makeTrans_def)

lemma makeTrans_cases: "prefix (makeTrans []) key \<Longrightarrow> \<exists>ts. key = makeTrans ts"
  by (auto simp: makeTrans_def prefix_def)

lemma prefix_makeTrans [simp]: "prefix (makeTrans []) (makeTrans ts)"
  by (simp add: makeTrans_def)

lemma makeLock_inject [simp, keys]: "makeLock a = makeLock b \<longleftrightarrow> a = b"
  by (simp add: makeLock_def)

lemma makeDataEntry_inject [simp, keys]: "makeDataEntry a = makeDataEntry b \<longleftrightarrow> a = b"
  by (simp add: makeDataEntry_def)

lemma key_kinds_differ [simp, keys]:
  "makeTrans a \<noteq> makeLock b" "makeLock b \<noteq> makeTrans a"
  "makeTrans a \<noteq> makeDataEntry b" "makeDataEntry b \<noteq> makeTrans a"
  "makeTrans a \<noteq> makeData b c" "makeData b c \<noteq> makeTrans a"
  "makeLock a \<noteq> makeDataEntry b" "makeDataEntry b \<noteq> makeLock a"
  "makeLock a \<noteq> makeData b c" "makeData b c \<noteq> makeLock a"
  by (simp_all add: makeTrans_def makeLock_def makeDataEntry_def makeData_def)

text \<open>
  The timestamps the program makes have no underscore and are not the word \<open>entry\<close>; for those the
  key of an older version determines its user key and its timestamp, and is not the key of a head.
\<close>

definition plain_ts :: "string \<Rightarrow> bool" where
  "plain_ts ts \<longleftrightarrow> CHR ''_'' \<notin> set ts \<and> ts \<noteq> ''entry''"

lemma plain_ts_GetTS: "plain_ts (GetTS s u)"
proof -
  have "GetTS s u \<noteq> ''entry''" by (simp add: GetTS_def)
  then show ?thesis by (simp add: plain_ts_def GetTS_no_underscore)
qed

lemma makeData_inject:
  assumes "plain_ts s" and "plain_ts t"
  shows "makeData a s = makeData b t \<longleftrightarrow> a = b \<and> s = t"
  using append_right_unique [of a "CHR ''_''" s b t] assms
  by (auto simp: makeData_def plain_ts_def)

lemma makeData_not_Entry:
  assumes "plain_ts t"
  shows "makeData a t \<noteq> makeDataEntry b" and "makeDataEntry b \<noteq> makeData a t"
proof -
  show "makeData a t \<noteq> makeDataEntry b"
  proof
    assume "makeData a t = makeDataEntry b"
    then have "a @ CHR ''_'' # t = b @ CHR ''_'' # ''entry''"
      by (simp add: makeData_def makeDataEntry_def)
    from append_right_unique [OF this] assms show False by (auto simp: plain_ts_def)
  qed
  then show "makeDataEntry b \<noteq> makeData a t" by metis
qed

section \<open>What a write leaves to be found\<close>

context store_env
begin

lemma decode_own: "lawful_codec c m0 \<Longrightarrow> decode E c m0 (Msg2JsonStr E c m) = Found m"
  by (simp add: decode_def json_roundtrip)

lemma Get_db_Put:
  assumes "Put_db E st k v = (s, st')"
  shows "Get_db E st' k' = (if s = kOk \<and> k' = k then (kOk, v) else Get_db E st k')"
proof -
  obtain d where d: "db_Put E (db st) k v = (s, d)" and st': "st' = st\<lparr>db := d\<rparr>"
    using assms by (auto simp: Put_db_def split: prod.splits)
  show ?thesis
    using put_get [of "db st" k v d] put_get_other [of "db st" k v d k']
      put_failed [of "db st" k v s d k'] d
    by (cases "s = kOk") (auto simp: Get_db_def st')
qed

lemma fetch_Put:
  assumes "Put_db E st k v = (s, st')"
  shows "fetch E c m0 st' k' = (if s = kOk \<and> k' = k then decode E c m0 v else fetch E c m0 st k')"
  by (simp add: fetch_def Get_db_Put [OF assms])

lemma fetch_put_Trans [store]:
  assumes "put_Trans E st ts t = (s, st')"
  shows "fetch_Trans E st' ts' = (if s = kOk \<and> ts' = ts then Found t else fetch_Trans E st ts')"
    and "fetch_Lock E st' key = fetch_Lock E st key"
    and "fetch_Entry E st' key = fetch_Entry E st key"
    and "fetch_Version E st' key vts = fetch_Version E st key vts"
  using assms by (simp_all add: fetch_defs put_defs fetch_Put decode_own codec_Trans)

lemma fetch_put_Lock [store]:
  assumes "put_Lock E st key l = (s, st')"
  shows "fetch_Trans E st' ts' = fetch_Trans E st ts'"
    and "fetch_Lock E st' key' = (if s = kOk \<and> key' = key then Found l else fetch_Lock E st key')"
    and "fetch_Entry E st' key' = fetch_Entry E st key'"
    and "fetch_Version E st' key' vts = fetch_Version E st key' vts"
  using assms by (simp_all add: fetch_defs put_defs fetch_Put decode_own codec_Lock)

lemma fetch_put_Entry [store]:
  assumes "put_Entry E st key v = (s, st')"
  shows "fetch_Trans E st' ts' = fetch_Trans E st ts'"
    and "fetch_Lock E st' key' = fetch_Lock E st key'"
    and "fetch_Entry E st' key' = (if s = kOk \<and> key' = key then Found v else fetch_Entry E st key')"
    and "plain_ts vts \<Longrightarrow> fetch_Version E st' key' vts = fetch_Version E st key' vts"
  using assms
  by (simp_all add: fetch_defs put_defs fetch_Put decode_own codec_Data makeData_not_Entry)

lemma fetch_put_Version [store]:
  assumes "put_Version E st key ts v = (s, st')" and "plain_ts ts"
  shows "fetch_Trans E st' ts' = fetch_Trans E st ts'"
    and "fetch_Lock E st' key' = fetch_Lock E st key'"
    and "fetch_Entry E st' key' = fetch_Entry E st key'"
    and "plain_ts vts \<Longrightarrow> fetch_Version E st' key' vts =
      (if s = kOk \<and> key' = key \<and> vts = ts then Found v else fetch_Version E st key' vts)"
  using assms
  by (simp_all add: fetch_defs put_defs fetch_Put decode_own codec_Data makeData_not_Entry
      makeData_inject)

end

section \<open>The methods over the typed view\<close>

lemma decode_not_absent [simp]: "decode E c m0 val \<noteq> Missing" "decode E c m0 val \<noteq> Failed n"
  by (auto simp: decode_def split: option.splits)

lemma parsed_eq:
  "parsed E c m0 val st k =
     (case decode E c m0 val of Found m \<Rightarrow> k m | _ \<Rightarrow> Abort Json_exception st)"
  by (auto simp: parsed_def decode_def split: option.splits)

text \<open>A read, its status and what is found determine each other.\<close>

lemma fetch_cases [case_names found unreadable missing failed]:
  obtains
    v m where "Get_db E st key = (kOk, v)" "decode E c m0 v = Found m" "fetch E c m0 st key = Found m"
  | v where "Get_db E st key = (kOk, v)" "decode E c m0 v = Unreadable"
      "fetch E c m0 st key = Unreadable"
  | v where "Get_db E st key = (kNotFound, v)" "fetch E c m0 st key = Missing"
  | v n where "Get_db E st key = (kOther n, v)" "fetch E c m0 st key = Failed n"
proof -
  obtain s v where G: "Get_db E st key = (s, v)" by force
  show thesis
  proof (cases s)
    case kOk
    with G that(1,2) [of v] show thesis
      by (cases "decode E c m0 v") (auto simp: fetch_def)
  next
    case kNotFound
    with G that(3) show thesis by (simp add: fetch_def)
  next
    case (kOther n)
    with G that(4) show thesis by (simp add: fetch_def)
  qed
qed

lemma addTrans_eq:
  "addTrans E ts st =
     (if fetch_Trans E st ts \<noteq> Missing then Ret (-1) st
      else case put_Trans E st ts Trans_init of (s, st') \<Rightarrow>
        if s = kOk then Ret 0 st' else Ret (-2) st')"
  unfolding addTrans_def fetch_Trans_def put_Trans_def
  by (cases rule: fetch_cases [where E = E and st = st and key = "makeTrans ts" and c = "pb_Trans E" and ?m0.0 = Trans_init])
    (auto simp: Let_def init split: prod.splits)

lemma addLock_eq:
  "addLock E key ts st =
     (let set_lock = (case put_Lock E st key \<lparr>lock_trans = ts\<rparr> of (s, st') \<Rightarrow>
            if s = kOk then Ret 0 st' else Ret (-2) st')
      in case fetch_Lock E st key of
           Found l \<Rightarrow>
             if lock_trans l = ts then Ret 0 st
             else (case fetch_Trans E st (lock_trans l) of
                     Found t \<Rightarrow>
                       if trans_state t \<in> {TransStateRollback, TransStateCommited} then set_lock
                       else Ret (-1) st
                   | Unreadable \<Rightarrow> Abort Json_exception st
                   | _ \<Rightarrow> Ret (-11) st)
         | Unreadable \<Rightarrow> Abort Json_exception st
         | Missing \<Rightarrow> set_lock
         | Failed n \<Rightarrow> Ret 0 st)"
proof (cases rule: fetch_cases [where E = E and st = st and key = "makeLock key" and c = "pb_Lock E" and ?m0.0 = Lock_init])
  case (found v l)
  then show ?thesis
    unfolding addLock_def fetch_Lock_def fetch_Trans_def put_Lock_def
    by (cases rule: fetch_cases [where E = E and st = st and key = "makeTrans (lock_trans l)" and c = "pb_Trans E" and ?m0.0 = Trans_init])
      (auto simp: Let_def parsed_eq Lock_init_def split: prod.splits)
qed (simp_all add: addLock_def fetch_Lock_def put_Lock_def Let_def parsed_eq Lock_init_def
    split: prod.splits)

lemma addData_eq:
  "addData E key val ts type st =
     (case fetch_Entry E st key of
        Found v \<Rightarrow>
          if data_cur_version v = ts then
            (case put_Entry E st key (v\<lparr>data_state := type, data_value := val\<rparr>) of (s, st') \<Rightarrow>
               if s = kOk then Ret 0 st' else Ret (-1) st')
          else
            (case put_Version E st key (data_cur_version v) v of (s, st') \<Rightarrow>
               if s \<noteq> kOk then Ret (-2) st'
               else case put_Entry E st' key \<lparr>data_state = type, data_value = val,
                        data_next = data_cur_version v, data_cur_version = ts\<rparr> of (s, st') \<Rightarrow>
                 if s = kOk then Ret 0 st' else Ret (-2) st')
      | Unreadable \<Rightarrow> Abort Json_exception st
      | _ \<Rightarrow>
          (case put_Entry E st key \<lparr>data_state = type, data_value = val, data_next = [],
                  data_cur_version = ts\<rparr> of (s, st') \<Rightarrow>
             if s = kOk then Ret 0 st' else Ret (-3) st'))"
  unfolding addData_def fetch_Entry_def put_Entry_def put_Version_def
  by (cases rule: fetch_cases [where E = E and st = st and key = "makeDataEntry key" and c = "pb_Data E" and ?m0.0 = Data_init])
    (auto simp: Let_def parsed_eq Data_init_def split: prod.splits)

lemma updateTransPrepared_eq:
  "updateTransPrepared E ts req st =
     (case fetch_Trans E st ts of
        Found t \<Rightarrow>
          if trans_state t \<noteq> TransStateBegin then Ret (-2) st
          else (case put_Trans E st ts (foldl (add_trans_list (self_hash_id st))
                    (t\<lparr>trans_state := TransStatePrepared, trans_start_trans := rq_start_ts req\<rparr>)
                    (rq_trans_list req)) of (s, st') \<Rightarrow>
                  if s = kOk then Ret 0 st' else Ret (-3) st')
      | Unreadable \<Rightarrow> Abort Json_exception st
      | _ \<Rightarrow> Ret (-1) st)"
  unfolding updateTransPrepared_def fetch_Trans_def put_Trans_def
  by (cases rule: fetch_cases [where E = E and st = st and key = "makeTrans ts" and c = "pb_Trans E" and ?m0.0 = Trans_init])
    (auto simp: Let_def parsed_eq split: prod.splits)

lemma updateTransSelfCommitTs_eq:
  "updateTransSelfCommitTs E ts cts st =
     (case fetch_Trans E st ts of
        Found t \<Rightarrow>
          if trans_state t \<noteq> TransStatePrepared then Ret (-2) st
          else (case put_Trans E st ts (t\<lparr>trans_self_commit_ts := cts\<rparr>) of (s, st') \<Rightarrow>
                  Ret (code_number s) st')
      | Unreadable \<Rightarrow> Abort Json_exception st
      | Missing \<Rightarrow> Ret 1 st
      | Failed n \<Rightarrow> Ret (2 + int n) st)"
  unfolding updateTransSelfCommitTs_def fetch_Trans_def put_Trans_def
  by (cases rule: fetch_cases [where E = E and st = st and key = "makeTrans ts" and c = "pb_Trans E" and ?m0.0 = Trans_init])
    (auto simp: Let_def parsed_eq split: prod.splits)

lemma startCleanTrans_eq:
  "startCleanTrans E resume ts st =
     (case fetch_Trans E st ts of
        Found t \<Rightarrow>
          (case trans_state t of
             TransStateBegin \<Rightarrow>
               (case put_Trans E st ts (t\<lparr>trans_state := TransStateRollback\<rparr>) of (s, st') \<Rightarrow>
                  if s = kOk then Ret () st' else Abort Assert_failed st')
           | TransStatePrepared \<Rightarrow>
               (case prepareTaskStack st of
                  [] \<Rightarrow> Abort Stack_empty st
                | co # rest \<Rightarrow> resume co ts (st\<lparr>prepareTaskStack := rest\<rparr>))
           | _ \<Rightarrow> Ret () st)
      | Unreadable \<Rightarrow> Abort Json_exception st
      | _ \<Rightarrow> Ret () st)"
  unfolding startCleanTrans_def fetch_Trans_def put_Trans_def
  by (cases rule: fetch_cases [where E = E and st = st and key = "makeTrans ts" and c = "pb_Trans E" and ?m0.0 = Trans_init])
    (auto simp: Let_def parsed_eq split: prod.splits TransState.splits)

text \<open>A turn of \<open>ReadData\<close> over the version it reads and that version's transaction.\<close>

definition visit :: "string \<Rightarrow> read_out \<Rightarrow> Data \<Rightarrow> Trans fetched
    \<Rightarrow> (crash + (int \<times> read_out) + string)" where
  "visit begin_ts out v ft =
     (let again = (if data_next v = [] then Inr (Inl (99, out)) else Inr (Inr (data_next v)));
          ret = (if data_state v = Req_Type_Delete then 33 else 0)
      in if data_cur_version v = begin_ts
         then Inr (Inl (ret, out\<lparr>out_value := data_value v, out_retBeginTs := data_cur_version v\<rparr>))
         else case ft of
             Found t \<Rightarrow>
               (let seen = out\<lparr>out_retBeginTs := data_cur_version v,
                      out_retStartTs := trans_start_trans t,
                      out_retCommitTs := trans_commit_trans t\<rparr>
                in if trans_state t = TransStatePrepared \<and> trans_start_trans t < begin_ts
                   then Inr (Inl (66, seen))
                   else if trans_state t = TransStateCommited \<and> trans_commit_trans t < begin_ts
                   then Inr (Inl (ret, seen\<lparr>out_value := data_value v\<rparr>))
                   else again)
           | Unreadable \<Rightarrow> Inl Json_exception
           | _ \<Rightarrow> Inr (Inl (-1, out)))"

lemma ReadData_turn_at:
  assumes "(if length loopTs = 0 then makeDataEntry key else makeData key loopTs) = datakey"
  shows "ReadData_turn E begin_ts key out loopTs st =
     (case fetch E (pb_Data E) Data_init st datakey of
        Found v \<Rightarrow>
          (case visit begin_ts out v (fetch_Trans E st (data_cur_version v)) of
             Inl c \<Rightarrow> Abort c st | Inr r \<Rightarrow> Ret r st)
      | Unreadable \<Rightarrow> Abort Json_exception st
      | Missing \<Rightarrow> Ret (Inl (99, out)) st
      | Failed n \<Rightarrow> Abort Assert_failed st)"
proof (cases rule: fetch_cases [where E = E and st = st and key = datakey and c = "pb_Data E"
      and ?m0.0 = Data_init])
  case (found val v)
  note turn = ReadData_turn_def Let_def parsed_eq assms [unfolded length_0_conv]
  show ?thesis
  proof (cases rule: fetch_cases [where E = E and st = st
        and key = "makeTrans (data_cur_version v)" and c = "pb_Trans E" and ?m0.0 = Trans_init])
    case f2: (found tval t)
    show ?thesis using found f2
      by (cases "trans_state t") (simp_all add: turn visit_def fetch_Trans_def)
  qed (use found in \<open>simp_all add: turn visit_def fetch_Trans_def\<close>)
qed (simp_all add: ReadData_turn_def Let_def parsed_eq assms [unfolded length_0_conv])

lemma ReadData_turn_eq:
  "ReadData_turn E begin_ts key out loopTs st =
     (case (if loopTs = [] then fetch_Entry E st key else fetch_Version E st key loopTs) of
        Found v \<Rightarrow>
          (case visit begin_ts out v (fetch_Trans E st (data_cur_version v)) of
             Inl c \<Rightarrow> Abort c st | Inr r \<Rightarrow> Ret r st)
      | Unreadable \<Rightarrow> Abort Json_exception st
      | Missing \<Rightarrow> Ret (Inl (99, out)) st
      | Failed n \<Rightarrow> Abort Assert_failed st)"
  by (cases "loopTs = []") (simp_all add: ReadData_turn_at [OF refl] fetch_defs)

lemmas method_eqs = addTrans_eq addLock_eq addData_eq updateTransPrepared_eq
  updateTransSelfCommitTs_eq startCleanTrans_eq

section \<open>Effects on a transaction's record\<close>

text \<open>Everything but the record of \<open>ts\<close> is as it was.\<close>

definition trans_frame :: "('d, 'j) env \<Rightarrow> ('d, 'z) Storage_scheme \<Rightarrow> ('d, 'z) Storage_scheme
    \<Rightarrow> string \<Rightarrow> bool" where
  "trans_frame E st st' ts \<longleftrightarrow>
     (\<forall>ts'. ts' \<noteq> ts \<longrightarrow> fetch_Trans E st' ts' = fetch_Trans E st ts')
     \<and> (\<forall>key. fetch_Lock E st' key = fetch_Lock E st key)
     \<and> (\<forall>key. fetch_Entry E st' key = fetch_Entry E st key)
     \<and> (\<forall>key vts. fetch_Version E st' key vts = fetch_Version E st key vts)
     \<and> prepareTaskStack st' = prepareTaskStack st \<and> self_hash_id st' = self_hash_id st
     \<and> Storage.more st' = Storage.more st"

lemma trans_frame_refl [simp]: "trans_frame E st st ts"
  by (simp add: trans_frame_def)

lemma trans_frame_trans:
  "trans_frame E st st1 ts \<Longrightarrow> trans_frame E st1 st2 ts \<Longrightarrow> trans_frame E st st2 ts"
  by (simp add: trans_frame_def)

text \<open>The list a prepared record carries.\<close>

definition participants :: "uint32 \<Rightarrow> Host list \<Rightarrow> TransList list" where
  "participants self hs = map (\<lambda>h. \<lparr>tl_host = h, tl_commit_ts = [],
     tl_state = (if hash_id h = self then TransStatePrepared else TransStateBegin)\<rparr>) hs"

lemma foldl_add_trans_list:
  "foldl (add_trans_list self) t hs
     = t\<lparr>trans_trans_list := trans_trans_list t @ participants self hs\<rparr>"
  by (induction hs arbitrary: t)
    (auto simp: add_trans_list_def participants_def TransList_init_def Let_def)

definition prepared_record :: "uint32 \<Rightarrow> RpcReq \<Rightarrow> Trans \<Rightarrow> Trans" where
  "prepared_record self req t = t\<lparr>trans_state := TransStatePrepared,
     trans_start_trans := rq_start_ts req,
     trans_trans_list := trans_trans_list t @ participants self (rq_trans_list req)\<rparr>"

context store_env
begin

lemma put_Trans_frame:
  assumes "put_Trans E st ts t = (s, st')"
  shows "trans_frame E st st' ts"
  using Put_db_frame [OF assms [unfolded put_Trans_def]]
  by (simp add: trans_frame_def fetch_put_Trans [OF assms])

lemma addTrans_effect:
  assumes "addTrans E ts st = Ret r st'"
  shows "trans_frame E st st' ts"
    and "r = 0 \<Longrightarrow> fetch_Trans E st ts = Missing \<and> fetch_Trans E st' ts = Found Trans_init"
    and "r \<noteq> 0 \<Longrightarrow> fetch_Trans E st' ts = fetch_Trans E st ts"
  using assms
  by (auto simp: addTrans_eq fetch_put_Trans put_Trans_frame split: if_splits prod.splits)

lemma updateTransPrepared_effect:
  assumes "updateTransPrepared E ts req st = Ret r st'"
  shows "trans_frame E st st' ts"
    and "r = 0 \<Longrightarrow> \<exists>t. fetch_Trans E st ts = Found t \<and> trans_state t = TransStateBegin
      \<and> fetch_Trans E st' ts = Found (prepared_record (self_hash_id st) req t)"
    and "r \<noteq> 0 \<Longrightarrow> fetch_Trans E st' ts = fetch_Trans E st ts"
  using assms
  by (auto simp: updateTransPrepared_eq fetch_put_Trans put_Trans_frame foldl_add_trans_list
      prepared_record_def split: if_splits prod.splits fetched.splits)

lemma updateTransSelfCommitTs_effect:
  assumes "updateTransSelfCommitTs E ts cts st = Ret r st'"
  shows "trans_frame E st st' ts"
    and "r = 0 \<Longrightarrow> \<exists>t. fetch_Trans E st ts = Found t \<and> trans_state t = TransStatePrepared
      \<and> fetch_Trans E st' ts = Found (t\<lparr>trans_self_commit_ts := cts\<rparr>)"
    and "r \<noteq> 0 \<Longrightarrow> fetch_Trans E st' ts = fetch_Trans E st ts"
  using assms
  by (auto simp: updateTransSelfCommitTs_eq fetch_put_Trans put_Trans_frame
      split: if_splits prod.splits fetched.splits)

end

section \<open>A database on which nothing fails\<close>

context reliable_env
begin

lemma Put_db_ok: "\<exists>st'. Put_db E st k v = (kOk, st')"
  using put_ok [of "db st" k v] by (auto simp: Put_db_def split: prod.splits)

lemma fetch_not_Failed [simp]: "fetch E c m0 st key \<noteq> Failed n"
  using get_ok [of "db st" key] by (auto simp: fetch_def Get_db_def split: prod.splits Code.splits)

lemma fetch_kinds_not_Failed [simp]:
  "fetch_Trans E st ts \<noteq> Failed n" "fetch_Lock E st key \<noteq> Failed n"
  "fetch_Entry E st key \<noteq> Failed n" "fetch_Version E st key ts \<noteq> Failed n"
  by (simp_all add: fetch_defs)

text \<open>Every typed write succeeds.\<close>

lemma put_Trans_ok: "\<exists>st'. put_Trans E st ts t = (kOk, st')"
  and put_Lock_ok: "\<exists>st'. put_Lock E st key l = (kOk, st')"
  and put_Entry_ok: "\<exists>st'. put_Entry E st key v = (kOk, st')"
  and put_Version_ok: "\<exists>st'. put_Version E st key ts v = (kOk, st')"
  by (simp_all add: put_defs Put_db_ok)

end

end
