(* ===== verification/Mem_Env.thy ===== *)
theory Mem_Env
  imports Store_Laws "HOL-Library.RBT"
begin

text \<open>
  A concrete environment: a database kept as a red-black tree in memory and a plain text form of
  the messages. It shows that what the development assumes of RocksDB and pb2json can hold, and it
  is what the witnesses of the properties run on.
\<close>

section \<open>A text form of the messages\<close>

text \<open>
  A printer and a parser that returns the rest of its input; \<open>reads\<close> says that the parser
  undoes the printer in front of any text.
\<close>

definition reads :: "('a \<Rightarrow> string) \<Rightarrow> (string \<Rightarrow> ('a \<times> string) option) \<Rightarrow> bool" where
  "reads pr pa \<longleftrightarrow> (\<forall>a s. pa (pr a @ s) = Some (a, s))"

lemma reads_append: "reads pr pa \<Longrightarrow> pa (pr a @ s) = Some (a, s)"
  by (simp add: reads_def)

lemma reads_whole: "reads pr pa \<Longrightarrow> pa (pr a) = Some (a, [])"
  using reads_append [of pr pa a "[]"] by simp

fun pr_nat :: "nat \<Rightarrow> string" where
  "pr_nat n = (if n = 0 then ''.'' else (if even n then CHR ''0'' else CHR ''1'') # pr_nat (n div 2))"

declare pr_nat.simps [simp del]

fun pa_nat :: "string \<Rightarrow> (nat \<times> string) option" where
  "pa_nat [] = None"
| "pa_nat (c # s) =
     (if c = CHR ''.'' then Some (0, s)
      else map_option (\<lambda>(n, r). (2 * n + (if c = CHR ''1'' then 1 else 0), r)) (pa_nat s))"

lemma reads_nat: "reads pr_nat pa_nat"
proof -
  have "pa_nat (pr_nat n @ s) = Some (n, s)" for n s
  proof (induction n rule: pr_nat.induct)
    case (1 n)
    then show ?case by (auto simp: pr_nat.simps [of n])
  qed
  then show ?thesis by (simp add: reads_def)
qed

definition pr_string :: "string \<Rightarrow> string" where
  "pr_string s = pr_nat (length s) @ s"

definition pa_string :: "string \<Rightarrow> (string \<times> string) option" where
  "pa_string s = map_option (\<lambda>(n, r). (take n r, drop n r)) (pa_nat s)"

lemma reads_string: "reads pr_string pa_string"
  by (simp add: reads_def pr_string_def pa_string_def reads_append [OF reads_nat])

definition pr_word :: "uint32 \<Rightarrow> string" where
  "pr_word w = pr_nat (unat w)"

definition pa_word :: "string \<Rightarrow> (uint32 \<times> string) option" where
  "pa_word s = map_option (\<lambda>(n, r). (of_nat n, r)) (pa_nat s)"

lemma reads_word: "reads pr_word pa_word"
  by (simp add: reads_def pr_word_def pa_word_def reads_append [OF reads_nat])

fun pa_times :: "(string \<Rightarrow> ('a \<times> string) option) \<Rightarrow> nat \<Rightarrow> string \<Rightarrow> ('a list \<times> string) option" where
  "pa_times pa 0 s = Some ([], s)"
| "pa_times pa (Suc n) s =
     (case pa s of None \<Rightarrow> None
      | Some (a, r) \<Rightarrow> map_option (\<lambda>(as, t). (a # as, t)) (pa_times pa n r))"

definition pr_list :: "('a \<Rightarrow> string) \<Rightarrow> 'a list \<Rightarrow> string" where
  "pr_list pr as = pr_nat (length as) @ concat (map pr as)"

definition pa_list :: "(string \<Rightarrow> ('a \<times> string) option) \<Rightarrow> string \<Rightarrow> ('a list \<times> string) option" where
  "pa_list pa s = (case pa_nat s of None \<Rightarrow> None | Some (n, r) \<Rightarrow> pa_times pa n r)"

lemma reads_list:
  assumes "reads pr pa"
  shows "reads (pr_list pr) (pa_list pa)"
proof -
  have "pa_times pa (length as) (concat (map pr as) @ s) = Some (as, s)" for as s
    by (induction as) (simp_all add: reads_append [OF assms])
  then show ?thesis
    by (simp add: reads_def pr_list_def pa_list_def reads_append [OF reads_nat])
qed

definition pr_pair :: "('a \<Rightarrow> string) \<Rightarrow> ('b \<Rightarrow> string) \<Rightarrow> 'a \<times> 'b \<Rightarrow> string" where
  "pr_pair pr1 pr2 p = pr1 (fst p) @ pr2 (snd p)"

definition pa_pair :: "(string \<Rightarrow> ('a \<times> string) option) \<Rightarrow> (string \<Rightarrow> ('b \<times> string) option)
    \<Rightarrow> string \<Rightarrow> (('a \<times> 'b) \<times> string) option" where
  "pa_pair pa1 pa2 s = (case pa1 s of None \<Rightarrow> None
     | Some (a, r) \<Rightarrow> map_option (\<lambda>(b, t). ((a, b), t)) (pa2 r))"

lemma reads_pair: "reads pr1 pa1 \<Longrightarrow> reads pr2 pa2 \<Longrightarrow> reads (pr_pair pr1 pr2) (pa_pair pa1 pa2)"
  by (simp add: reads_def pr_pair_def pa_pair_def)

text \<open>A type printed through another one that it embeds into.\<close>

definition pr_via :: "('a \<Rightarrow> 'b) \<Rightarrow> ('b \<Rightarrow> string) \<Rightarrow> 'a \<Rightarrow> string" where
  "pr_via f pr a = pr (f a)"

definition pa_via :: "('b \<Rightarrow> 'a) \<Rightarrow> (string \<Rightarrow> ('b \<times> string) option)
    \<Rightarrow> string \<Rightarrow> ('a \<times> string) option" where
  "pa_via g pa s = map_option (\<lambda>(b, r). (g b, r)) (pa s)"

lemma reads_via: "reads pr pa \<Longrightarrow> (\<And>a. g (f a) = a) \<Longrightarrow> reads (pr_via f pr) (pa_via g pa)"
  by (simp add: reads_def pr_via_def pa_via_def)

lemmas reads_intros = reads_string reads_word reads_nat reads_list reads_pair

section \<open>The messages\<close>

definition RequestType_of_number :: "nat \<Rightarrow> RequestType" where
  "RequestType_of_number n =
     (if n = 1 then Req_Type_Begin else if n = 2 then Req_Type_Prepare
      else if n = 3 then Req_Type_Commit else if n = 5 then Req_Type_Rollback
      else if n = 6 then Req_Type_Delete else if n = 7 then Req_Type_Insert
      else if n = 8 then Req_Type_Update else Req_Type_Get)"

definition TransState_of_number :: "nat \<Rightarrow> TransState" where
  "TransState_of_number n =
     (if n = 1 then TransStateBegin else if n = 2 then TransStatePrepared
      else if n = 3 then TransStateCommited else TransStateRollback)"

definition MsgType_of_number :: "nat \<Rightarrow> MsgType" where
  "MsgType_of_number n =
     (if n = 1 then MSG_Type_Rpc_Request else if n = 2 then MSG_Type_Rpc_Response
      else if n = 3 then MSG_Type_Cli_Request else if n = 4 then MSG_Type_Cli_Response
      else if n = 5 then MSG_Type_TransState_Request else MSG_Type_TransState_Response)"

lemma RequestType_number_inverse: "RequestType_of_number (RequestType_number r) = r"
  by (cases r) (simp_all add: RequestType_of_number_def)

lemma TransState_number_inverse: "TransState_of_number (TransState_number r) = r"
  by (cases r) (simp_all add: TransState_of_number_def)

lemma MsgType_number_inverse: "MsgType_of_number (nat (MsgType_number r)) = r"
  by (cases r) (simp_all add: MsgType_of_number_def)

definition "pr_rt = pr_via RequestType_number pr_nat"
definition "pa_rt = pa_via RequestType_of_number pa_nat"
definition "pr_state = pr_via TransState_number pr_nat"
definition "pa_state = pa_via TransState_of_number pa_nat"
definition "pr_mt = pr_via (\<lambda>t. nat (MsgType_number t)) pr_nat"
definition "pa_mt = pa_via MsgType_of_number pa_nat"

lemma reads_enums: "reads pr_rt pa_rt" "reads pr_state pa_state" "reads pr_mt pa_mt"
  unfolding pr_rt_def pa_rt_def pr_state_def pa_state_def pr_mt_def pa_mt_def
  by (auto intro!: reads_via reads_nat RequestType_number_inverse TransState_number_inverse
      MsgType_number_inverse)

definition "pr_Host = pr_via (\<lambda>h. (hash_id h, host_name h, host_port h))
  (pr_pair pr_word (pr_pair pr_string pr_word))"
definition "pa_Host = pa_via (\<lambda>(a, b, c). \<lparr>hash_id = a, host_name = b, host_port = c\<rparr>)
  (pa_pair pa_word (pa_pair pa_string pa_word))"

lemma reads_Host: "reads (pr_Host :: Host \<Rightarrow> string) pa_Host"
  unfolding pr_Host_def pa_Host_def by (rule reads_via) (auto intro: reads_intros)

definition "pr_Config = pr_via (\<lambda>c. (config_host c, config_self_hash_id c))
  (pr_pair (pr_list pr_Host) pr_word)"
definition "pa_Config = pa_via (\<lambda>(a, b). \<lparr>config_host = a, config_self_hash_id = b\<rparr>)
  (pa_pair (pa_list pa_Host) pa_word)"

lemma reads_Config: "reads (pr_Config :: Config \<Rightarrow> string) pa_Config"
  unfolding pr_Config_def pa_Config_def by (rule reads_via) (auto intro: reads_intros reads_Host)

definition "pr_Lock = pr_via lock_trans pr_string"
definition "pa_Lock = pa_via (\<lambda>s. \<lparr>lock_trans = s\<rparr>) pa_string"

lemma reads_Lock: "reads (pr_Lock :: Lock \<Rightarrow> string) pa_Lock"
  unfolding pr_Lock_def pa_Lock_def by (rule reads_via) (auto intro: reads_intros)

definition "pr_Data = pr_via (\<lambda>d. (data_state d, data_value d, data_next d, data_cur_version d))
  (pr_pair pr_rt (pr_pair pr_string (pr_pair pr_string pr_string)))"
definition "pa_Data = pa_via (\<lambda>(a, b, c, d).
    \<lparr>data_state = a, data_value = b, data_next = c, data_cur_version = d\<rparr>)
  (pa_pair pa_rt (pa_pair pa_string (pa_pair pa_string pa_string)))"

lemma reads_Data: "reads (pr_Data :: Data \<Rightarrow> string) pa_Data"
  unfolding pr_Data_def pa_Data_def by (rule reads_via) (auto intro: reads_intros reads_enums)

definition "pr_TransList = pr_via (\<lambda>t. (tl_host t, tl_commit_ts t, tl_state t))
  (pr_pair pr_Host (pr_pair pr_string pr_state))"
definition "pa_TransList = pa_via (\<lambda>(a, b, c). \<lparr>tl_host = a, tl_commit_ts = b, tl_state = c\<rparr>)
  (pa_pair pa_Host (pa_pair pa_string pa_state))"

lemma reads_TransList: "reads (pr_TransList :: TransList \<Rightarrow> string) pa_TransList"
  unfolding pr_TransList_def pa_TransList_def
  by (rule reads_via) (auto intro: reads_intros reads_Host reads_enums)

definition "pr_Trans = pr_via (\<lambda>t. (trans_state t, trans_commit_trans t, trans_start_trans t,
    trans_trans_list t, trans_self_commit_ts t))
  (pr_pair pr_state (pr_pair pr_string (pr_pair pr_string
    (pr_pair (pr_list pr_TransList) pr_string))))"
definition "pa_Trans = pa_via (\<lambda>(a, b, c, d, e). \<lparr>trans_state = a, trans_commit_trans = b,
    trans_start_trans = c, trans_trans_list = d, trans_self_commit_ts = e\<rparr>)
  (pa_pair pa_state (pa_pair pa_string (pa_pair pa_string
    (pa_pair (pa_list pa_TransList) pa_string))))"

lemma reads_Trans: "reads (pr_Trans :: Trans \<Rightarrow> string) pa_Trans"
  unfolding pr_Trans_def pa_Trans_def
  by (rule reads_via, intro reads_intros reads_TransList reads_enums, auto)

definition "pr_RpcReq = pr_via (\<lambda>r. (rq_request_type r, rq_begin_ts r, rq_key r, rq_value r,
    rq_start_ts r, rq_commit_ts r, rq_trans_list r, rq_get_for_update r))
  (pr_pair pr_rt (pr_pair pr_string (pr_pair pr_string (pr_pair pr_string (pr_pair pr_string
    (pr_pair pr_string (pr_pair (pr_list pr_Host) pr_word)))))))"
definition "pa_RpcReq = pa_via (\<lambda>(a, b, c, d, e, f, g, h). \<lparr>rq_request_type = a,
    rq_begin_ts = b, rq_key = c, rq_value = d, rq_start_ts = e, rq_commit_ts = f,
    rq_trans_list = g, rq_get_for_update = h\<rparr>)
  (pa_pair pa_rt (pa_pair pa_string (pa_pair pa_string (pa_pair pa_string (pa_pair pa_string
    (pa_pair pa_string (pa_pair (pa_list pa_Host) pa_word)))))))"

lemma reads_RpcReq: "reads (pr_RpcReq :: RpcReq \<Rightarrow> string) pa_RpcReq"
  unfolding pr_RpcReq_def pa_RpcReq_def
  by (rule reads_via, intro reads_intros reads_Host reads_enums, auto)

definition "pr_RpcRes = pr_via (\<lambda>r. (rs_result r, rs_err_msg r, rs_begin_ts r, rs_key r,
    rs_value r, rs_start_ts r, rs_commit_ts r))
  (pr_pair pr_word (pr_pair pr_string (pr_pair pr_string (pr_pair pr_string (pr_pair pr_string
    (pr_pair pr_string pr_string))))))"
definition "pa_RpcRes = pa_via (\<lambda>(a, b, c, d, e, f, g). \<lparr>rs_result = a, rs_err_msg = b,
    rs_begin_ts = c, rs_key = d, rs_value = e, rs_start_ts = f, rs_commit_ts = g\<rparr>)
  (pa_pair pa_word (pa_pair pa_string (pa_pair pa_string (pa_pair pa_string (pa_pair pa_string
    (pa_pair pa_string pa_string))))))"

lemma reads_RpcRes: "reads (pr_RpcRes :: RpcRes \<Rightarrow> string) pa_RpcRes"
  unfolding pr_RpcRes_def pa_RpcRes_def by (rule reads_via, intro reads_intros, auto)

definition "pr_CliReq = pr_via (\<lambda>r. (cq_request_type r, cq_begin_ts r, cq_key r, cq_value r,
    cq_get_for_update r))
  (pr_pair pr_rt (pr_pair pr_string (pr_pair pr_string (pr_pair pr_string pr_word))))"
definition "pa_CliReq = pa_via (\<lambda>(a, b, c, d, e). \<lparr>cq_request_type = a, cq_begin_ts = b,
    cq_key = c, cq_value = d, cq_get_for_update = e\<rparr>)
  (pa_pair pa_rt (pa_pair pa_string (pa_pair pa_string (pa_pair pa_string pa_word))))"

lemma reads_CliReq: "reads (pr_CliReq :: CliReq \<Rightarrow> string) pa_CliReq"
  unfolding pr_CliReq_def pa_CliReq_def by (rule reads_via, intro reads_intros reads_enums, auto)

definition "pr_CliRes = pr_via (\<lambda>r. (cs_result r, cs_err_msg r, cs_begin_ts r, cs_key r,
    cs_value r, cs_start_ts r, cs_commit_ts r))
  (pr_pair pr_word (pr_pair pr_string (pr_pair pr_string (pr_pair pr_string (pr_pair pr_string
    (pr_pair pr_string pr_string))))))"
definition "pa_CliRes = pa_via (\<lambda>(a, b, c, d, e, f, g). \<lparr>cs_result = a, cs_err_msg = b,
    cs_begin_ts = c, cs_key = d, cs_value = e, cs_start_ts = f, cs_commit_ts = g\<rparr>)
  (pa_pair pa_word (pa_pair pa_string (pa_pair pa_string (pa_pair pa_string (pa_pair pa_string
    (pa_pair pa_string pa_string))))))"

lemma reads_CliRes: "reads (pr_CliRes :: CliRes \<Rightarrow> string) pa_CliRes"
  unfolding pr_CliRes_def pa_CliRes_def by (rule reads_via, intro reads_intros, auto)

definition "pr_TransStateReq = pr_via (\<lambda>r. (tq_host r, tq_trans_stat r, tq_begin_ts r,
    tq_commit_ts r))
  (pr_pair pr_Host (pr_pair pr_state (pr_pair pr_string pr_string)))"
definition "pa_TransStateReq = pa_via (\<lambda>(a, b, c, d). \<lparr>tq_host = a, tq_trans_stat = b,
    tq_begin_ts = c, tq_commit_ts = d\<rparr>)
  (pa_pair pa_Host (pa_pair pa_state (pa_pair pa_string pa_string)))"

lemma reads_TransStateReq: "reads (pr_TransStateReq :: TransStateReq \<Rightarrow> string) pa_TransStateReq"
  unfolding pr_TransStateReq_def pa_TransStateReq_def
  by (rule reads_via, intro reads_intros reads_Host reads_enums, auto)

definition "pr_TransStateRes = pr_via (\<lambda>r. (ts_host r, ts_trans_stat r, ts_begin_ts r,
    ts_commit_ts r, ts_result r, ts_err_msg r))
  (pr_pair pr_Host (pr_pair pr_state (pr_pair pr_string (pr_pair pr_string
    (pr_pair pr_word pr_string)))))"
definition "pa_TransStateRes = pa_via (\<lambda>(a, b, c, d, e, f). \<lparr>ts_host = a, ts_trans_stat = b,
    ts_begin_ts = c, ts_commit_ts = d, ts_result = e, ts_err_msg = f\<rparr>)
  (pa_pair pa_Host (pa_pair pa_state (pa_pair pa_string (pa_pair pa_string
    (pa_pair pa_word pa_string)))))"

lemma reads_TransStateRes: "reads (pr_TransStateRes :: TransStateRes \<Rightarrow> string) pa_TransStateRes"
  unfolding pr_TransStateRes_def pa_TransStateRes_def
  by (rule reads_via, intro reads_intros reads_Host reads_enums, auto)

fun pr_Content :: "MsgContent \<Rightarrow> string" where
  "pr_Content MsgContent_not_set = ''n''"
| "pr_Content (Rpc_request r) = CHR ''q'' # pr_RpcReq r"
| "pr_Content (Rpc_response r) = CHR ''s'' # pr_RpcRes r"
| "pr_Content (Cli_request r) = CHR ''Q'' # pr_CliReq r"
| "pr_Content (Cli_response r) = CHR ''S'' # pr_CliRes r"
| "pr_Content (Trans_state_request r) = CHR ''t'' # pr_TransStateReq r"
| "pr_Content (Trans_state_response r) = CHR ''T'' # pr_TransStateRes r"

fun pa_Content :: "string \<Rightarrow> (MsgContent \<times> string) option" where
  "pa_Content [] = None"
| "pa_Content (c # s) =
     (if c = CHR ''n'' then Some (MsgContent_not_set, s)
      else if c = CHR ''q'' then pa_via Rpc_request pa_RpcReq s
      else if c = CHR ''s'' then pa_via Rpc_response pa_RpcRes s
      else if c = CHR ''Q'' then pa_via Cli_request pa_CliReq s
      else if c = CHR ''S'' then pa_via Cli_response pa_CliRes s
      else if c = CHR ''t'' then pa_via Trans_state_request pa_TransStateReq s
      else pa_via Trans_state_response pa_TransStateRes s)"

lemmas reads_contents = reads_RpcReq reads_RpcRes reads_CliReq reads_CliRes reads_TransStateReq
  reads_TransStateRes

lemma reads_Content: "reads pr_Content pa_Content"
proof -
  have "pa_Content (pr_Content m @ s) = Some (m, s)" for m s
    by (cases m) (simp_all add: pa_via_def reads_contents [THEN reads_append])
  then show ?thesis by (simp add: reads_def)
qed

definition "pr_Msg = pr_via (\<lambda>m. (msg_group_id m, msg_msg_type m, msg_content m))
  (pr_pair pr_string (pr_pair pr_mt pr_Content))"
definition "pa_Msg = pa_via (\<lambda>(a, b, c). \<lparr>msg_group_id = a, msg_msg_type = b, msg_content = c\<rparr>)
  (pa_pair pa_string (pa_pair pa_mt pa_Content))"

lemma reads_Msg: "reads (pr_Msg :: Msg \<Rightarrow> string) pa_Msg"
  unfolding pr_Msg_def pa_Msg_def
  by (rule reads_via, intro reads_intros reads_enums reads_Content, auto)

section \<open>The environment\<close>

definition text_codec :: "('m \<Rightarrow> string) \<Rightarrow> (string \<Rightarrow> ('m \<times> string) option) \<Rightarrow> (string, 'm) pbcodec"
  where
  "text_codec pr pa = \<lparr>Message2Json = pr,
     Json2Message = (\<lambda>j m. case pa j of Some (m', []) \<Rightarrow> (True, m') | _ \<Rightarrow> (False, m))\<rparr>"

lemma lawful_text_codec: "reads pr pa \<Longrightarrow> lawful_codec (text_codec pr pa) m0"
  by (simp add: lawful_codec_def text_codec_def reads_whole)

type_synonym mem = "(string, string) rbt"

definition mem_env :: "(mem, string) env" where
  "mem_env = \<lparr>
     db_Get = (\<lambda>d k. case RBT.lookup d k of None \<Rightarrow> (kNotFound, []) | Some v \<Rightarrow> (kOk, v)),
     db_Put = (\<lambda>d k v. (kOk, RBT.insert k v d)),
     db_Iterator = RBT.entries,
     Json_parse = Some,
     Json_dump = id,
     pb_Trans = text_codec pr_Trans pa_Trans,
     pb_Lock = text_codec pr_Lock pa_Lock,
     pb_Data = text_codec pr_Data pa_Data,
     pb_Msg = text_codec pr_Msg pa_Msg,
     pb_Config = text_codec pr_Config pa_Config\<rparr>"

lemma mem_Put: "db_Put mem_env d k v = (kOk, RBT.insert k v d)"
  by (simp add: mem_env_def)

lemma mem_Get: "db_Get mem_env d k = (kOk, v) \<longleftrightarrow> RBT.lookup d k = Some v"
  by (auto simp: mem_env_def split: option.splits)

interpretation mem: reliable_env mem_env
proof
  show "Json_parse mem_env (Json_dump mem_env j) = Some j" for j
    by (simp add: mem_env_def)
  show "lawful_codec (pb_Trans mem_env) Trans_init" "lawful_codec (pb_Lock mem_env) Lock_init"
    "lawful_codec (pb_Data mem_env) Data_init" "lawful_codec (pb_Msg mem_env) Msg_init"
    "lawful_codec (pb_Config mem_env) Config_init"
    by (simp_all add: mem_env_def lawful_text_codec reads_Trans reads_Lock reads_Data reads_Msg
        reads_Config)
  fix d k v d' s k'
  show "db_Put mem_env d k v = (kOk, d') \<Longrightarrow> db_Get mem_env d' k = (kOk, v)"
    and "db_Put mem_env d k v = (kOk, d') \<Longrightarrow> k' \<noteq> k \<Longrightarrow>
      db_Get mem_env d' k' = db_Get mem_env d k'"
    and "db_Put mem_env d k v = (s, d') \<Longrightarrow> s \<noteq> kOk \<Longrightarrow>
      db_Get mem_env d' k' = db_Get mem_env d k'"
    and "fst (db_Put mem_env d k v) = kOk"
    and "fst (db_Get mem_env d k) = kOk \<or> fst (db_Get mem_env d k) = kNotFound"
    by (auto simp: mem_env_def split: option.splits)
  show "sorted (map fst (db_Iterator mem_env d))" "distinct (map fst (db_Iterator mem_env d))"
    by (simp_all add: mem_env_def RBT.sorted_entries RBT.distinct_entries)
  show "(k, v) \<in> set (db_Iterator mem_env d) \<longleftrightarrow> db_Get mem_env d k = (kOk, v)"
    unfolding mem_Get by (simp add: mem_env_def RBT.lookup_in_tree)
qed

section \<open>Concrete stores\<close>

text \<open>An object over the in-memory database that holds the listed cells.\<close>

definition mem_with :: "(string \<times> string) list \<Rightarrow> mem Storage" where
  "mem_with cells = \<lparr>db = RBT.bulkload cells, prepareTaskStack = [0, 1], self_hash_id = 1\<rparr>"

definition trans_cell :: "string \<Rightarrow> Trans \<Rightarrow> string \<times> string" where
  "trans_cell ts t = (makeTrans ts, Msg2JsonStr mem_env (pb_Trans mem_env) t)"

definition lock_cell :: "string \<Rightarrow> string \<Rightarrow> string \<times> string" where
  "lock_cell key ts = (makeLock key, Msg2JsonStr mem_env (pb_Lock mem_env) \<lparr>lock_trans = ts\<rparr>)"

definition entry_cell :: "string \<Rightarrow> Data \<Rightarrow> string \<times> string" where
  "entry_cell key v = (makeDataEntry key, Msg2JsonStr mem_env (pb_Data mem_env) v)"

definition version_cell :: "string \<Rightarrow> Data \<Rightarrow> string \<times> string" where
  "version_cell key v =
     (makeData key (data_cur_version v), Msg2JsonStr mem_env (pb_Data mem_env) v)"

lemma fetch_mem_with:
  "fetch mem_env c m0 (mem_with cells) key =
     (case map_of cells key of None \<Rightarrow> Missing | Some v \<Rightarrow> decode mem_env c m0 v)"
  by (simp add: fetch_def Get_db_def mem_with_def mem_env_def split: option.splits)

lemmas mem_fetch = fetch_defs fetch_mem_with trans_cell_def lock_cell_def entry_cell_def
  version_cell_def mem.decode_own mem.codec_Trans mem.codec_Lock mem.codec_Data
  makeTrans_def makeLock_def makeDataEntry_def makeData_def

text \<open>
  A store with one key \<open>k\<close>: transaction \<open>ts1\<close> inserted \<open>a\<close> and committed at \<open>ts3\<close>, transaction
  \<open>ts4\<close> is open, holds the lock and has written \<open>b\<close>.
\<close>

definition demo_old :: Data where
  "demo_old = \<lparr>data_state = Req_Type_Insert, data_value = ''a'', data_next = [],
     data_cur_version = ''ts1''\<rparr>"

definition demo_new :: Data where
  "demo_new = \<lparr>data_state = Req_Type_Update, data_value = ''b'', data_next = ''ts1'',
     data_cur_version = ''ts4''\<rparr>"

definition demo_committed :: Trans where
  "demo_committed = \<lparr>trans_state = TransStateCommited, trans_commit_trans = ''ts3'',
     trans_start_trans = ''ts2'', trans_trans_list = [], trans_self_commit_ts = ''ts3''\<rparr>"

definition demo :: "mem Storage" where
  "demo = mem_with [entry_cell ''k'' demo_new, version_cell ''k'' demo_old, lock_cell ''k'' ''ts4'',
     trans_cell ''ts1'' demo_committed, trans_cell ''ts4'' Trans_init]"

lemma demo_fetch:
  "fetch_Entry mem_env demo ''k'' = Found demo_new"
  "fetch_Version mem_env demo ''k'' ''ts1'' = Found demo_old"
  "fetch_Lock mem_env demo ''k'' = Found \<lparr>lock_trans = ''ts4''\<rparr>"
  "fetch_Trans mem_env demo ''ts1'' = Found demo_committed"
  "fetch_Trans mem_env demo ''ts4'' = Found Trans_init"
  "fetch_Trans mem_env demo ''ts5'' = Missing"
  by (simp_all add: demo_def mem_fetch demo_old_def)

text \<open>
  The same environment with a database that reports an I/O error on every write to the cell
  \<open>bad\<close> and does not apply it.
\<close>

definition flaky_env :: "string \<Rightarrow> (mem, string) env" where
  "flaky_env bad = mem_env\<lparr>db_Put := (\<lambda>d k v.
     if k = bad then (kOther 3, d) else db_Put mem_env d k v)\<rparr>"

lemma flaky_simps [simp]:
  "db_Get (flaky_env bad) = db_Get mem_env" "db_Iterator (flaky_env bad) = db_Iterator mem_env"
  "Json_parse (flaky_env bad) = Json_parse mem_env" "Json_dump (flaky_env bad) = Json_dump mem_env"
  "pb_Trans (flaky_env bad) = pb_Trans mem_env" "pb_Lock (flaky_env bad) = pb_Lock mem_env"
  "pb_Data (flaky_env bad) = pb_Data mem_env" "pb_Msg (flaky_env bad) = pb_Msg mem_env"
  "pb_Config (flaky_env bad) = pb_Config mem_env"
  "db_Put (flaky_env bad) d k v = (if k = bad then (kOther 3, d) else db_Put mem_env d k v)"
  by (simp_all add: flaky_env_def)

interpretation flaky: store_env "flaky_env bad" for bad
proof
  fix d k v d' s k'
  show "db_Put (flaky_env bad) d k v = (kOk, d') \<Longrightarrow> db_Get (flaky_env bad) d' k = (kOk, v)"
    and "db_Put (flaky_env bad) d k v = (kOk, d') \<Longrightarrow> k' \<noteq> k \<Longrightarrow>
      db_Get (flaky_env bad) d' k' = db_Get (flaky_env bad) d k'"
    and "db_Put (flaky_env bad) d k v = (s, d') \<Longrightarrow> s \<noteq> kOk \<Longrightarrow>
      db_Get (flaky_env bad) d' k' = db_Get (flaky_env bad) d k'"
    by (auto simp: flaky_env_def mem_env_def split: option.splits if_splits)
qed (simp_all add: mem.parse_dump mem.codec_Trans mem.codec_Lock mem.codec_Data mem.codec_Msg
      mem.codec_Config mem.iterator_sorted mem.iterator_distinct mem.iterator_get)

lemma fetch_flaky: "fetch (flaky_env bad) c m0 st key = fetch mem_env c m0 st key"
  by (simp add: fetch_def Get_db_def decode_def JsonStr2Msg_def split: prod.splits Code.splits)

lemma fetch_flaky_kinds [simp]:
  "fetch_Trans (flaky_env bad) st ts = fetch_Trans mem_env st ts"
  "fetch_Lock (flaky_env bad) st key = fetch_Lock mem_env st key"
  "fetch_Entry (flaky_env bad) st key = fetch_Entry mem_env st key"
  "fetch_Version (flaky_env bad) st key ts = fetch_Version mem_env st key ts"
  by (simp_all add: fetch_defs fetch_flaky)

end
