(* ===== verification/Versions.thy ===== *)
theory Versions
  imports Mem_Env
begin

text \<open>
  The versions of a key as a list, newest first. In the database the versions form a linked list:
  the head under \<open>data_KEY_entry\<close>, each older one under \<open>data_KEY_TS\<close> where \<open>TS\<close> is the
  \<open>next\<close> field of the one before. \<open>chain E st key vs\<close> relates the two; \<open>addData\<close> is shown to
  push onto the list and \<open>ReadData\<close> to search it.
\<close>

section \<open>The abstraction\<close>

fun chain_tail :: "('d, 'j) env \<Rightarrow> ('d, 'z) Storage_scheme \<Rightarrow> string \<Rightarrow> string \<Rightarrow> Data list \<Rightarrow> bool"
  where
  "chain_tail E st key nx [] \<longleftrightarrow> nx = []"
| "chain_tail E st key nx (v # vs) \<longleftrightarrow>
     nx \<noteq> [] \<and> data_cur_version v = nx \<and> fetch_Version E st key nx = Found v
     \<and> chain_tail E st key (data_next v) vs"

fun chain :: "('d, 'j) env \<Rightarrow> ('d, 'z) Storage_scheme \<Rightarrow> string \<Rightarrow> Data list \<Rightarrow> bool" where
  "chain E st key [] \<longleftrightarrow> fetch_Entry E st key = Missing"
| "chain E st key (v # vs) \<longleftrightarrow>
     fetch_Entry E st key = Found v \<and> chain_tail E st key (data_next v) vs"

text \<open>The timestamps of the versions of a key: plain, not empty and each used once.\<close>

definition stamps_ok :: "Data list \<Rightarrow> bool" where
  "stamps_ok vs \<longleftrightarrow> distinct (map data_cur_version vs)
     \<and> (\<forall>v\<in>set vs. data_cur_version v \<noteq> [] \<and> plain_ts (data_cur_version v))"

text \<open>What \<open>addData\<close> does to the list.\<close>

fun push_version :: "RequestType \<Rightarrow> string \<Rightarrow> string \<Rightarrow> Data list \<Rightarrow> Data list" where
  "push_version type val ts [] =
     [\<lparr>data_state = type, data_value = val, data_next = [], data_cur_version = ts\<rparr>]"
| "push_version type val ts (v # vs) =
     (if data_cur_version v = ts then v\<lparr>data_state := type, data_value := val\<rparr> # vs
      else \<lparr>data_state = type, data_value = val, data_next = data_cur_version v,
             data_cur_version = ts\<rparr> # v # vs)"

text \<open>
  What a reader at \<open>begin_ts\<close> passes over: a version of another transaction that is still open or
  rolled back, that prepares with a \<open>start_ts\<close> not before the reader, or that committed with a
  \<open>commit_ts\<close> not before the reader. The answer is the first version not passed over.
\<close>

definition skipped :: "string \<Rightarrow> string \<Rightarrow> Trans \<Rightarrow> bool" where
  "skipped begin_ts ts t \<longleftrightarrow> ts \<noteq> begin_ts \<and>
     (case trans_state t of
        TransStateBegin \<Rightarrow> True
      | TransStatePrepared \<Rightarrow> \<not> trans_start_trans t < begin_ts
      | TransStateCommited \<Rightarrow> \<not> trans_commit_trans t < begin_ts
      | TransStateRollback \<Rightarrow> True)"

definition version_code :: "Data \<Rightarrow> int" where
  "version_code v = (if data_state v = Req_Type_Delete then 33 else 0)"

definition answer :: "string \<Rightarrow> read_out \<Rightarrow> (string \<Rightarrow> Trans) \<Rightarrow> Data \<Rightarrow> int \<times> read_out" where
  "answer begin_ts out rec v =
     (let ts = data_cur_version v; t = rec ts;
          seen = out\<lparr>out_retBeginTs := ts, out_retStartTs := trans_start_trans t,
                     out_retCommitTs := trans_commit_trans t\<rparr>
      in if ts = begin_ts
         then (version_code v, out\<lparr>out_value := data_value v, out_retBeginTs := ts\<rparr>)
         else if trans_state t = TransStatePrepared then (66, seen)
         else (version_code v, seen\<lparr>out_value := data_value v\<rparr>))"

definition read_versions :: "string \<Rightarrow> read_out \<Rightarrow> (string \<Rightarrow> Trans) \<Rightarrow> Data list \<Rightarrow> int \<times> read_out"
  where
  "read_versions begin_ts out rec vs =
     (case dropWhile (\<lambda>v. skipped begin_ts (data_cur_version v) (rec (data_cur_version v))) vs of
        [] \<Rightarrow> (99, out)
      | v # _ \<Rightarrow> answer begin_ts out rec v)"

text \<open>The record of a transaction, as the readers find it.\<close>

definition record_of :: "('d, 'j) env \<Rightarrow> ('d, 'z) Storage_scheme \<Rightarrow> string \<Rightarrow> Trans" where
  "record_of E st ts = (case fetch_Trans E st ts of Found t \<Rightarrow> t | _ \<Rightarrow> Trans_init)"

definition recorded :: "('d, 'j) env \<Rightarrow> ('d, 'z) Storage_scheme \<Rightarrow> Data list \<Rightarrow> bool" where
  "recorded E st vs \<longleftrightarrow> (\<forall>v\<in>set vs. \<exists>t. fetch_Trans E st (data_cur_version v) = Found t)"

section \<open>\<open>ReadData\<close> searches the list\<close>

lemma visit_record:
  assumes "ft = Found (rec (data_cur_version v))"
  shows "visit begin_ts out v ft =
    (if skipped begin_ts (data_cur_version v) (rec (data_cur_version v))
     then (if data_next v = [] then Inr (Inl (99, out)) else Inr (Inr (data_next v)))
     else Inr (Inl (answer begin_ts out rec v)))"
  using assms
  by (cases "trans_state (rec (data_cur_version v))")
    (auto simp: visit_def skipped_def answer_def version_code_def Let_def)

lemma read_versions_Cons:
  "read_versions begin_ts out rec (v # vs) =
     (if skipped begin_ts (data_cur_version v) (rec (data_cur_version v))
      then read_versions begin_ts out rec vs else answer begin_ts out rec v)"
  by (simp add: read_versions_def)

lemma ReadData_loop_versions:
  assumes "fetch_Trans E st (data_cur_version v) = Found (rec (data_cur_version v))"
    and "(if loopTs = [] then fetch_Entry E st key else fetch_Version E st key loopTs) = Found v"
    and "chain_tail E st key (data_next v) vs"
    and "\<forall>w\<in>set vs. fetch_Trans E st (data_cur_version w) = Found (rec (data_cur_version w))"
  shows "ReadData_loop E begin_ts key out loopTs st =
    Some (Ret (read_versions begin_ts out rec (v # vs)) st)"
  using assms
proof (induction vs arbitrary: v loopTs)
  case Nil
  then show ?case
    by (subst ReadData_loop.simps)
      (simp add: ReadData_turn_eq visit_record [where rec = rec] read_versions_Cons
        read_versions_def [of _ _ _ "[]"])
next
  case (Cons w vs)
  then have w: "ReadData_loop E begin_ts key out (data_next v) st =
      Some (Ret (read_versions begin_ts out rec (w # vs)) st)"
    by (intro Cons.IH) auto
  show ?case using Cons.prems
    by (subst ReadData_loop.simps)
      (simp add: ReadData_turn_eq visit_record [where rec = rec]
        read_versions_Cons [of _ _ _ v] w)
qed

lemma ReadData_versions:
  assumes "chain E st key vs" and "recorded E st vs"
  shows "ReadData E begin_ts key out st =
    Some (Ret (read_versions begin_ts out (record_of E st) vs) st)"
proof (cases vs)
  case Nil
  with assms(1) show ?thesis
    by (simp add: ReadData_def ReadData_loop.simps [of E begin_ts] ReadData_turn_eq
        read_versions_def)
next
  case (Cons v ws)
  with assms show ?thesis unfolding ReadData_def Cons
    by (intro ReadData_loop_versions) (auto simp: recorded_def record_of_def)
qed

section \<open>\<open>addData\<close> pushes onto the list\<close>

lemma chain_tail_cong:
  assumes "\<And>v. v \<in> set vs \<Longrightarrow>
      fetch_Version E st' key (data_cur_version v) = fetch_Version E st key (data_cur_version v)"
  shows "chain_tail E st' key nx vs = chain_tail E st key nx vs"
  using assms by (induction vs arbitrary: nx) auto

lemma stamps_ok_Cons:
  "stamps_ok (v # vs) \<longleftrightarrow> data_cur_version v \<noteq> [] \<and> plain_ts (data_cur_version v)
     \<and> data_cur_version v \<notin> data_cur_version ` set vs \<and> stamps_ok vs"
  by (auto simp: stamps_ok_def)

lemma stamps_ok_push:
  assumes "stamps_ok vs" and "ts \<noteq> []" and "plain_ts ts"
    and "ts \<notin> data_cur_version ` set (tl vs)"
  shows "stamps_ok (push_version type val ts vs)"
  using assms by (cases vs) (auto simp: stamps_ok_def)

definition data_frame :: "('d, 'j) env \<Rightarrow> ('d, 'z) Storage_scheme \<Rightarrow> ('d, 'z) Storage_scheme
    \<Rightarrow> string \<Rightarrow> bool" where
  "data_frame E st st' key \<longleftrightarrow>
     (\<forall>key' vs. key' \<noteq> key \<longrightarrow> stamps_ok vs \<longrightarrow> chain E st' key' vs = chain E st key' vs)
     \<and> (\<forall>ts. fetch_Trans E st' ts = fetch_Trans E st ts)
     \<and> (\<forall>lkey. fetch_Lock E st' lkey = fetch_Lock E st lkey)"

lemma data_frame_trans:
  "data_frame E st st1 key \<Longrightarrow> data_frame E st1 st2 key \<Longrightarrow> data_frame E st st2 key"
  by (simp add: data_frame_def)

context store_env
begin

text \<open>
  A write of a plain version of one key leaves every chain it is not part of; a write of the head
  of one key leaves every other chain.
\<close>

lemma chain_put_Version:
  assumes "put_Version E st key ts w = (s, st')" and "plain_ts ts" and "stamps_ok vs"
    and "key' = key \<Longrightarrow> ts \<notin> data_cur_version ` set (tl vs)"
  shows "chain E st' key' vs = chain E st key' vs"
proof (cases vs)
  case Nil
  then show ?thesis by (simp add: fetch_put_Version [OF assms(1,2)])
next
  case (Cons v us)
  have "chain_tail E st' key' (data_next v) us = chain_tail E st key' (data_next v) us"
    using assms(3,4)
    by (intro chain_tail_cong)
      (auto simp: Cons stamps_ok_def fetch_put_Version [OF assms(1,2)])
  then show ?thesis by (simp add: Cons fetch_put_Version [OF assms(1,2)])
qed

lemma chain_tail_put_Entry:
  assumes "put_Entry E st key w = (s, st')" and "stamps_ok vs"
  shows "chain_tail E st' key' nx vs = chain_tail E st key' nx vs"
  using assms(2) by (intro chain_tail_cong) (simp add: stamps_ok_def fetch_put_Entry [OF assms(1)])

lemma chain_put_Entry_other:
  assumes "put_Entry E st key w = (s, st')" and "stamps_ok vs" and "key' \<noteq> key \<or> s \<noteq> kOk"
  shows "chain E st' key' vs = chain E st key' vs"
  using assms(2,3)
  by (cases vs) (auto simp: fetch_put_Entry [OF assms(1)] stamps_ok_Cons
      chain_tail_put_Entry [OF assms(1)])

text \<open>What a write to one key's versions leaves alone.\<close>

lemma data_frame_Version:
  assumes "put_Version E st key ts w = (s, st')" and "plain_ts ts"
  shows "data_frame E st st' key"
  using assms(2) by (auto simp: data_frame_def chain_put_Version [OF assms] fetch_put_Version [OF assms])

lemma data_frame_Entry:
  assumes "put_Entry E st key w = (s, st')"
  shows "data_frame E st st' key"
  by (auto simp: data_frame_def chain_put_Entry_other [OF assms] fetch_put_Entry [OF assms])

text \<open>
  The effect of \<open>addData\<close>: on success the list is pushed, on an error it is unchanged, and the
  other keys, the locks and the transactions are untouched either way.
\<close>

lemma addData_own:
  assumes call: "addData E key val ts type st = Ret r st'" and c: "chain E st key (v # vs)"
    and "stamps_ok (v # vs)" and "data_cur_version v = ts"
  shows "chain E st' key (if r = 0 then push_version type val ts (v # vs) else v # vs)
    \<and> data_frame E st st' key"
proof -
  from assms obtain s where
    p: "put_Entry E st key (v\<lparr>data_state := type, data_value := val\<rparr>) = (s, st')"
    and r: "r = (if s = kOk then 0 else -1)"
    by (auto simp: addData_eq split: prod.splits if_splits)
  show ?thesis using assms(3,4) c
    by (auto simp: r fetch_put_Entry [OF p] stamps_ok_Cons chain_tail_put_Entry [OF p]
        data_frame_Entry [OF p])
qed

lemma addData_next:
  assumes call: "addData E key val ts type st = Ret r st'" and c: "chain E st key (v # vs)"
    and stamps: "stamps_ok (v # vs)" and ts: "data_cur_version v \<noteq> ts"
  shows "chain E st' key (if r = 0 then push_version type val ts (v # vs) else v # vs)
    \<and> data_frame E st st' key"
proof -
  from stamps have v: "plain_ts (data_cur_version v)" and vs: "stamps_ok vs"
    and fresh: "data_cur_version v \<notin> data_cur_version ` set vs" by (auto simp: stamps_ok_Cons)
  obtain s1 st1 where p1: "put_Version E st key (data_cur_version v) v = (s1, st1)" by fastforce
  note f1 = fetch_put_Version [OF p1 v]
  have c1: "chain E st1 key (v # vs)" and d1: "data_frame E st st1 key"
    using chain_put_Version [OF p1 v stamps, of key] c fresh data_frame_Version [OF p1 v] by simp_all
  show ?thesis
  proof (cases "s1 = kOk")
    case True
    with call c ts p1 obtain s2 where p2: "put_Entry E st1 key
        \<lparr>data_state = type, data_value = val, data_next = data_cur_version v,
         data_cur_version = ts\<rparr> = (s2, st')" and r: "r = (if s2 = kOk then 0 else -2)"
      by (auto simp: addData_eq split: prod.splits if_splits)
    show ?thesis using c1 ts stamps True
      by (auto simp: r f1 fetch_put_Entry [OF p2] v vs stamps_ok_Cons
          chain_tail_put_Entry [OF p2] intro: data_frame_trans [OF d1 data_frame_Entry [OF p2]])
  next
    case False
    with call c p1 ts have "st' = st1" and "r = -2" by (auto simp: addData_eq split: if_splits)
    with c1 d1 show ?thesis by simp
  qed
qed

lemma addData_effect:
  assumes call: "addData E key val ts type st = Ret r st'"
    and c: "chain E st key vs" and stamps: "stamps_ok vs"
  shows "chain E st' key (if r = 0 then push_version type val ts vs else vs)
    \<and> data_frame E st st' key"
proof (cases vs)
  case Nil
  with c call obtain s where
    p: "put_Entry E st key \<lparr>data_state = type, data_value = val, data_next = [],
          data_cur_version = ts\<rparr> = (s, st')"
    and r: "r = (if s = kOk then 0 else -3)"
    by (auto simp: addData_eq split: prod.splits if_splits)
  show ?thesis using c
    by (auto simp: Nil r fetch_put_Entry [OF p] data_frame_Entry [OF p])
next
  case (Cons v ws)
  show ?thesis
  proof (cases "data_cur_version v = ts")
    case True
    from addData_own [OF call c [unfolded Cons] stamps [unfolded Cons] True]
    show ?thesis by (simp only: Cons)
  next
    case False
    from addData_next [OF call c [unfolded Cons] stamps [unfolded Cons] False]
    show ?thesis by (simp only: Cons)
  qed
qed

end

lemma chain_trans_frame:
  assumes "trans_frame E st st' ts"
  shows "chain E st' key vs = chain E st key vs"
proof -
  have "chain_tail E st' key nx ws = chain_tail E st key nx ws" for nx ws
    using assms by (intro chain_tail_cong) (simp add: trans_frame_def)
  then show ?thesis using assms by (cases vs) (simp_all add: trans_frame_def)
qed

section \<open>Reading what was written\<close>

lemma ReadData_own:
  assumes "fetch_Entry E st key = Found v" and "data_cur_version v = begin_ts"
  shows "ReadData E begin_ts key out st =
    Some (Ret (version_code v, out\<lparr>out_value := data_value v, out_retBeginTs := begin_ts\<rparr>) st)"
  using assms unfolding ReadData_def
  by (subst ReadData_loop.simps) (simp add: ReadData_turn_eq visit_def version_code_def Let_def)

lemma read_versions_cong:
  assumes "\<forall>v\<in>set vs. rec' (data_cur_version v) = rec (data_cur_version v)
      \<or> skipped begin_ts (data_cur_version v) (rec (data_cur_version v))
        \<and> skipped begin_ts (data_cur_version v) (rec' (data_cur_version v))"
  shows "read_versions begin_ts out rec' vs = read_versions begin_ts out rec vs"
  using assms
proof (induction vs)
  case Nil
  then show ?case by (simp add: read_versions_def)
next
  case (Cons v vs)
  moreover have "answer begin_ts out rec' v = answer begin_ts out rec v"
    if "rec' (data_cur_version v) = rec (data_cur_version v)"
    using that by (simp add: answer_def)
  ultimately show ?case by (auto simp: read_versions_Cons)
qed

text \<open>A version pushed by a transaction the reader passes over does not change the answer.\<close>

lemma read_versions_push:
  assumes "skipped begin_ts ts (rec ts)"
  shows "read_versions begin_ts out rec (push_version type val ts vs)
    = read_versions begin_ts out rec vs"
  using assms by (cases vs) (auto simp: read_versions_Cons)

lemma recorded_push:
  assumes "recorded E st vs" and "fetch_Trans E st ts = Found t"
  shows "recorded E st (push_version type val ts vs)"
  using assms by (cases vs) (auto simp: recorded_def)

context reliable_env
begin

lemma addData_no_error:
  assumes "fetch_Entry E st key \<noteq> Unreadable"
  shows "\<exists>st' v. addData E key val ts type st = Ret 0 st' \<and> fetch_Entry E st' key = Found v
    \<and> data_cur_version v = ts \<and> data_value v = val \<and> data_state v = type"
proof (cases "fetch_Entry E st key")
  case (Found v)
  show ?thesis
  proof (cases "data_cur_version v = ts")
    case True
    obtain st' where p: "put_Entry E st key (v\<lparr>data_state := type, data_value := val\<rparr>) = (kOk, st')"
      using put_Entry_ok by blast
    then show ?thesis using Found True by (simp add: addData_eq fetch_put_Entry [OF p])
  next
    case False
    obtain st1 where p1: "put_Version E st key (data_cur_version v) v = (kOk, st1)"
      using put_Version_ok by blast
    obtain st' where p: "put_Entry E st1 key \<lparr>data_state = type, data_value = val,
        data_next = data_cur_version v, data_cur_version = ts\<rparr> = (kOk, st')"
      using put_Entry_ok by blast
    then show ?thesis using Found False p1 by (simp add: addData_eq fetch_put_Entry [OF p])
  qed
next
  case Missing
  obtain st' where p: "put_Entry E st key \<lparr>data_state = type, data_value = val, data_next = [],
      data_cur_version = ts\<rparr> = (kOk, st')"
    using put_Entry_ok by blast
  then show ?thesis using Missing by (simp add: addData_eq fetch_put_Entry [OF p])
qed (use assms in \<open>simp_all add: fetch_Entry_def\<close>)

end

section \<open>Properties\<close>

text \<open>
  C4: the reader's search. When a key's versions are the list \<open>vs\<close> and every version's
  transaction has its record, \<open>ReadData\<close> returns: its answer is the first version, newest first,
  that is not passed over, with code 0, 33 for a deleted value or 66 for a version about to commit;
  99 if every version is passed over.
\<close>

theorem ReadData_correct:
  assumes "chain E st key vs" and "recorded E st vs"
  shows "ReadData E begin_ts key out st =
    Some (Ret (read_versions begin_ts out (record_of E st) vs) st)"
  by (rule ReadData_versions [OF assms])

lemma demo_chain:
  "chain mem_env demo ''k'' [demo_new, demo_old]" "recorded mem_env demo [demo_new, demo_old]"
  "stamps_ok [demo_new, demo_old]"
  by (auto simp: demo_fetch demo_new_def demo_old_def recorded_def stamps_ok_def plain_ts_def)

theorem ReadData_correct_witness:
  "ReadData mem_env ''ts5'' ''k'' read_out_init demo =
     Some (Ret (0, \<lparr>out_value = ''a'', out_retBeginTs = ''ts1'', out_retStartTs = ''ts2'',
                    out_retCommitTs = ''ts3''\<rparr>) demo)"
  unfolding ReadData_correct [OF demo_chain(1,2)]
  by (simp add: read_versions_Cons skipped_def record_of_def demo_new_def demo_old_def demo_fetch
      Trans_init_def demo_committed_def answer_def version_code_def read_out_init_def
      less_char_def)

text \<open>
  C6: a write. On a database that does not fail, \<open>addData\<close> returns 0 and pushes onto the key's
  version list (it replaces the newest version when that is the transaction's own), keeps the
  timestamps of the list apart, and leaves every other key, lock and transaction alone.
\<close>

theorem addData_pushes:
  assumes "reliable_env E" and "chain E st key vs" and "stamps_ok vs"
    and "ts \<noteq> []" and "plain_ts ts" and "ts \<notin> data_cur_version ` set (tl vs)"
  shows "\<exists>st'. addData E key val ts type st = Ret 0 st'
    \<and> chain E st' key (push_version type val ts vs)
    \<and> stamps_ok (push_version type val ts vs) \<and> data_frame E st st' key"
proof -
  from assms(2) have "fetch_Entry E st key \<noteq> Unreadable" by (cases vs) auto
  from reliable_env.addData_no_error [OF assms(1) this] obtain st' where
    call: "addData E key val ts type st = Ret 0 st'" by blast
  from store_env.addData_effect [OF reliable_env.axioms(1) [OF assms(1)] call assms(2,3)] call
  show ?thesis using stamps_ok_push [OF assms(3-6)] by simp
qed

theorem addData_pushes_witness:
  "\<exists>st'. addData mem_env ''k'' ''c'' ''ts6'' Req_Type_Update demo = Ret 0 st'
    \<and> chain mem_env st' ''k'' (push_version Req_Type_Update ''c'' ''ts6'' [demo_new, demo_old])"
proof -
  have "''ts6'' \<noteq> []" "plain_ts ''ts6''"
    "''ts6'' \<notin> data_cur_version ` set (tl [demo_new, demo_old])"
    by (simp_all add: plain_ts_def demo_old_def)
  from addData_pushes [OF mem.reliable_env_axioms demo_chain(1,3) this] show ?thesis by blast
qed

text \<open>
  A failed write. When \<open>addData\<close> returns an error, whichever of its writes failed, the key
  still has exactly the versions it had, and nothing else has changed.
\<close>

theorem addData_error_keeps:
  assumes "store_env E" and "addData E key val ts type st = Ret r st'" and "r \<noteq> 0"
    and "chain E st key vs" and "stamps_ok vs"
  shows "chain E st' key vs \<and> data_frame E st st' key"
  using store_env.addData_effect [OF assms(1,2,4,5)] assms(3) by simp

text \<open>The second write of a push fails, after the first one has copied the head.\<close>

lemma demo_flaky_write:
  "\<exists>st'. addData (flaky_env (makeDataEntry ''k'')) ''k'' ''c'' ''ts6'' Req_Type_Update demo
     = Ret (-2) st'"
  by (auto simp: addData_eq demo_fetch demo_new_def put_defs Put_db_def mem_Put)

lemma chain_flaky [simp]:
  "chain_tail (flaky_env bad) st key nx vs = chain_tail mem_env st key nx vs"
  "chain (flaky_env bad) st key vs = chain mem_env st key vs"
proof -
  show "chain_tail (flaky_env bad) st key nx vs = chain_tail mem_env st key nx vs" for nx vs
    by (induction vs arbitrary: nx) simp_all
  then show "chain (flaky_env bad) st key vs = chain mem_env st key vs" by (cases vs) simp_all
qed

theorem addData_error_keeps_witness:
  "\<exists>st'. addData (flaky_env (makeDataEntry ''k'')) ''k'' ''c'' ''ts6'' Req_Type_Update demo
      = Ret (-2) st'
    \<and> chain (flaky_env (makeDataEntry ''k'')) st' ''k'' [demo_new, demo_old]"
proof -
  obtain st' where call: "addData (flaky_env (makeDataEntry ''k'')) ''k'' ''c'' ''ts6''
      Req_Type_Update demo = Ret (-2) st'"
    using demo_flaky_write by blast
  have "(-2 :: int) \<noteq> 0" by simp
  from addData_error_keeps [OF flaky.store_env_axioms call this _ demo_chain(3)] demo_chain(1) call
  show ?thesis by auto
qed

text \<open>
  C15: a transaction reads its own write: \<open>ReadData\<close> right after \<open>addData\<close> of the same transaction
  and key returns the value written, with code 33 if the write was a delete, whatever versions
  the key had.
\<close>

theorem read_own_write:
  assumes "reliable_env E" and "fetch_Entry E st key \<noteq> Unreadable"
  shows "\<exists>st'. addData E key val ts type st = Ret 0 st'
    \<and> ReadData E ts key out st' =
        Some (Ret (if type = Req_Type_Delete then 33 else 0,
                   out\<lparr>out_value := val, out_retBeginTs := ts\<rparr>) st')"
  using reliable_env.addData_no_error [OF assms, of val ts type]
  by (auto simp: ReadData_own version_code_def)

theorem read_own_write_witness:
  "\<exists>st'. addData mem_env ''k'' ''c'' ''ts6'' Req_Type_Update demo = Ret 0 st'
    \<and> ReadData mem_env ''ts6'' ''k'' read_out_init st' =
        Some (Ret (0, read_out_init\<lparr>out_value := ''c'', out_retBeginTs := ''ts6''\<rparr>) st')"
  using read_own_write [OF mem.reliable_env_axioms, of demo "''k''" "''c''" "''ts6''"
      Req_Type_Update read_out_init]
  by (simp add: demo_fetch)

text \<open>
  C16: no dirty reads. While a transaction is open (its record is in state begin), what it writes,
  whether the write succeeds or fails, changes no other transaction's read of the key.
\<close>

theorem no_dirty_read:
  assumes "store_env E" and "chain E st key vs" and "stamps_ok vs" and "recorded E st vs"
    and "fetch_Trans E st writer = Found t" and "trans_state t = TransStateBegin"
    and "reader \<noteq> writer" and "addData E key val writer type st = Ret r st'"
  shows "\<exists>res. ReadData E reader key out st = Some (Ret res st)
    \<and> ReadData E reader key out st' = Some (Ret res st')"
proof -
  from store_env.addData_effect [OF assms(1,8,2,3)]
  have c: "chain E st' key (if r = 0 then push_version type val writer vs else vs)"
    and same: "\<And>ts. fetch_Trans E st' ts = fetch_Trans E st ts"
    by (auto simp: data_frame_def)
  have rec: "record_of E st' = record_of E st" and "recorded E st' vs = recorded E st vs"
    by (simp_all add: record_of_def recorded_def fun_eq_iff same)
  moreover have "recorded E st' (push_version type val writer vs)"
    using assms(4,5) by (intro recorded_push) (simp_all add: recorded_def same)
  moreover have "skipped reader writer (record_of E st writer)"
    using assms(5-7) by (simp add: skipped_def record_of_def)
  ultimately show ?thesis
    using ReadData_versions [OF c, of reader out] ReadData_versions [OF assms(2,4), of reader out]
      assms(4) by (auto simp: read_versions_push split: if_splits)
qed

theorem no_dirty_read_witness:
  "\<exists>st' res. ReadData mem_env ''ts5'' ''k'' read_out_init demo = Some (Ret res demo)
    \<and> addData mem_env ''k'' ''c'' ''ts4'' Req_Type_Update demo = Ret 0 st'
    \<and> ReadData mem_env ''ts5'' ''k'' read_out_init st' = Some (Ret res st')"
proof -
  obtain st' where call: "addData mem_env ''k'' ''c'' ''ts4'' Req_Type_Update demo = Ret 0 st'"
    using mem.addData_no_error [of demo "''k''" "''c''" "''ts4''" Req_Type_Update] demo_fetch(1)
    by fastforce
  have "trans_state Trans_init = TransStateBegin" and "''ts5'' \<noteq> ''ts4''"
    by (simp_all add: Trans_init_def)
  from no_dirty_read [OF mem.store_env_axioms demo_chain(1,3,2) demo_fetch(5) this call] call
  show ?thesis by blast
qed

text \<open>
  A stable snapshot: a reader's answer for a key does not change when another transaction with
  a version there is prepared with a \<open>start_ts\<close> that is not before the reader's timestamp.
\<close>

theorem snapshot_stable_prepare:
  assumes "store_env E" and "chain E st key vs" and "stamps_ok vs" and "recorded E st vs"
    and "updateTransPrepared E writer req st = Ret r st'"
    and "reader \<noteq> writer" and "\<not> rq_start_ts req < reader"
  shows "\<exists>res. ReadData E reader key out st = Some (Ret res st)
    \<and> ReadData E reader key out st' = Some (Ret res st')"
proof -
  note eff = store_env.updateTransPrepared_effect [OF assms(1,5)]
  have c: "chain E st' key vs"
    using assms(2) chain_trans_frame [OF eff(1)] by simp
  have same: "fetch_Trans E st' ts = fetch_Trans E st ts" if "ts \<noteq> writer \<or> r \<noteq> 0" for ts
    using eff(1,3) that by (auto simp: trans_frame_def)
  have new: "skipped reader writer (record_of E st writer)
      \<and> skipped reader writer (record_of E st' writer)" if "r = 0"
    using eff(2) [OF that] assms(6,7) by (auto simp: skipped_def record_of_def prepared_record_def)
  have "recorded E st' vs"
    using assms(4) same eff(2) unfolding recorded_def by metis
  moreover have "read_versions reader out (record_of E st') vs
      = read_versions reader out (record_of E st) vs"
    using same new by (intro read_versions_cong) (metis record_of_def)
  ultimately show ?thesis
    using ReadData_versions [OF c, of reader out] ReadData_versions [OF assms(2,4), of reader out]
    by simp
qed

theorem snapshot_stable_prepare_witness:
  "\<exists>st' res. ReadData mem_env ''ts5'' ''k'' read_out_init demo = Some (Ret res demo)
    \<and> updateTransPrepared mem_env ''ts4'' (RpcReq_init\<lparr>rq_start_ts := ''ts6''\<rparr>) demo = Ret 0 st'
    \<and> ReadData mem_env ''ts5'' ''k'' read_out_init st' = Some (Ret res st')"
proof -
  let ?req = "RpcReq_init\<lparr>rq_start_ts := ''ts6''\<rparr>"
  obtain st' where call: "updateTransPrepared mem_env ''ts4'' ?req demo = Ret 0 st'"
    using mem.put_Trans_ok [of demo "''ts4''" "prepared_record (self_hash_id demo) ?req Trans_init"]
    by (auto simp: updateTransPrepared_eq demo_fetch foldl_add_trans_list prepared_record_def
        Trans_init_def)
  have "''ts5'' \<noteq> ''ts4''" and "\<not> rq_start_ts ?req < ''ts5''"
    by (simp_all add: less_char_def)
  from snapshot_stable_prepare [OF mem.store_env_axioms demo_chain(1,3,2) call this] call
  show ?thesis by blast
qed

end
