(* ===== verification/Resolver.thy ===== *)
theory Resolver
  imports Versions
begin

text \<open>
  \<open>prepare_routine\<close> of \<open>storageServ.cpp\<close>: the coroutine that settles a prepared transaction by
  asking the other participants for its state, round after round, until one of them has decided
  or all of them are prepared. A coroutine runs without interruption between its yields, so it is
  modelled by where it waits and by what it does from there to its next wait.
\<close>

section \<open>The coroutine's state\<close>

text \<open>
  The locals of \<open>prepare_routine\<close> that live across a wait: the transaction, the local copy of its
  record, and the round's maximum, count and loop index.
\<close>

record resolving =
  rv_begin_ts :: string
  rv_trans :: Trans
  rv_max_commit_ts :: string
  rv_nHasTransStatePrepared :: int
  rv_i :: nat

text \<open>
  A coroutine waits on the stack of idle ones (\<open>co_yield_ct\<close>), or for the answer of the host with
  index \<open>rv_i\<close>, or has left its loop by the \<open>break\<close>.
\<close>

datatype prepare_pc = Yielded | Querying resolving | Ended

record PrepareTask =
  pt_begin_ts :: string
  pt_pc :: prepare_pc

text \<open>The state of a storage server: its \<open>Storage\<close> object and its resolver coroutines.\<close>

record 'd node = "'d Storage" +
  node_tasks :: "nat \<Rightarrow> PrepareTask"

section \<open>Its steps\<close>

definition set_pc :: "nat \<Rightarrow> prepare_pc \<Rightarrow> 'd node \<Rightarrow> 'd node" where
  "set_pc t pc st = st\<lparr>node_tasks := (node_tasks st)(t := (node_tasks st t)\<lparr>pt_pc := pc\<rparr>)\<rparr>"

text \<open>The top of the loop with an empty \<open>begin_ts\<close>: the task goes on the stack and yields.\<close>

definition prepare_idle :: "nat \<Rightarrow> 'd node \<Rightarrow> 'd node" where
  "prepare_idle t st = set_pc t Yielded (st\<lparr>prepareTaskStack := t # prepareTaskStack st\<rparr>)"

definition save_and_end :: "('d, 'j) env \<Rightarrow> nat \<Rightarrow> string \<Rightarrow> Trans \<Rightarrow> 'd node
    \<Rightarrow> (unit, 'd node) outcome" where
  "save_and_end E t begin_ts tr st =
     (let (status, st) = Put_db E st (makeTrans begin_ts) (Msg2JsonStr E (pb_Trans E) tr)
      in if \<not> ok status then Abort Assert_failed st else Ret () (prepare_idle t st))"

definition prepare_commit :: "('d, 'j) env \<Rightarrow> nat \<Rightarrow> resolving \<Rightarrow> 'd node
    \<Rightarrow> (unit, 'd node) outcome" where
  "prepare_commit E t rv st =
     save_and_end E t (rv_begin_ts rv)
       ((rv_trans rv)\<lparr>trans_state := TransStateCommited,
                      trans_commit_trans := rv_max_commit_ts rv\<rparr>) st"

text \<open>The maximum a round starts with; \<open>now\<close> is what \<open>GetTS()\<close> would return.\<close>

definition first_max :: "string \<Rightarrow> Trans \<Rightarrow> string" where
  "first_max now t = (if length (trans_self_commit_ts t) = 0 then now else trans_self_commit_ts t)"

text \<open>
  The turns of the \<open>for\<close> loop for this server's own entry wait for nothing: from index \<open>i\<close> on they
  count and go on.
\<close>

definition skip_self :: "uint32 \<Rightarrow> TransList list \<Rightarrow> nat \<Rightarrow> int \<Rightarrow> nat \<times> int" where
  "skip_self self ts i n =
     (let k = length (takeWhile (\<lambda>tl. hash_id (tl_host tl) = self) (drop i ts))
      in (i + k, n + int k))"

text \<open>
  From the start of a turn of the \<open>for\<close> loop: to the next host to ask, or through the end of the
  round. A round that does not commit is followed by another one, which has a host to ask: had it
  none, every entry would be this server's own and the round would have counted them all.
\<close>

definition prepare_next :: "('d, 'j) env \<Rightarrow> string \<Rightarrow> nat \<Rightarrow> resolving \<Rightarrow> 'd node
    \<Rightarrow> (unit, 'd node) outcome" where
  "prepare_next E now t rv st =
     (let ts = trans_trans_list (rv_trans rv);
          (i, n) = skip_self (self_hash_id st) ts (rv_i rv) (rv_nHasTransStatePrepared rv)
      in if i < length ts then
           Ret () (set_pc t (Querying (rv\<lparr>rv_i := i, rv_nHasTransStatePrepared := n\<rparr>)) st)
         else if n = int (length ts) then prepare_commit E t rv st
         else
           (let (i, n) = skip_self (self_hash_id st) ts 0 0;
                rv = rv\<lparr>rv_max_commit_ts := first_max now (rv_trans rv),
                        rv_i := i, rv_nHasTransStatePrepared := n\<rparr>
            in if i < length ts then Ret () (set_pc t (Querying rv) st)
               else prepare_commit E t rv st))"

text \<open>The coroutine from the top of its loop, with a \<open>begin_ts\<close> to work on.\<close>

definition prepare_enter :: "('d, 'j) env \<Rightarrow> string \<Rightarrow> nat \<Rightarrow> 'd node
    \<Rightarrow> (unit, 'd node) outcome" where
  "prepare_enter E now t st =
     (let begin_ts = pt_begin_ts (node_tasks st t);
          st = st\<lparr>node_tasks := (node_tasks st)(t := (node_tasks st t)\<lparr>pt_begin_ts := []\<rparr>)\<rparr>;
          (status, valueJson) = Get_db E st (makeTrans begin_ts)
      in if length begin_ts = 0 then Ret () (prepare_idle t st)
         else if \<not> ok status then Ret () (set_pc t Ended st)
         else parsed E (pb_Trans E) Trans_init valueJson st (\<lambda>trans.
           if trans_state trans \<noteq> TransStatePrepared then Ret () (prepare_idle t st)
           else prepare_next E now t
             \<lparr>rv_begin_ts = begin_ts, rv_trans = trans,
              rv_max_commit_ts = first_max now trans,
              rv_nHasTransStatePrepared = 0, rv_i = 0\<rparr> st))"

text \<open>What \<open>startCleanTrans\<close> does with the task it takes: store the transaction and resume it.\<close>

definition prepare_resume :: "('d, 'j) env \<Rightarrow> string \<Rightarrow> nat \<Rightarrow> string \<Rightarrow> 'd node
    \<Rightarrow> (unit, 'd node) outcome" where
  "prepare_resume E now t begin_ts st =
     prepare_enter E now t
       (st\<lparr>node_tasks := (node_tasks st)(t := (node_tasks st t)\<lparr>pt_begin_ts := begin_ts\<rparr>)\<rparr>)"

text \<open>
  The rest of the turn once the host's answer is there. \<open>None\<close> is a failed connect, send or read
  or a message of another type: the host is not counted in this round.
\<close>

definition prepare_answer :: "('d, 'j) env \<Rightarrow> string \<Rightarrow> nat \<Rightarrow> resolving \<Rightarrow> TransStateRes option
    \<Rightarrow> 'd node \<Rightarrow> (unit, 'd node) outcome" where
  "prepare_answer E now t rv res st =
     (case res of
        None \<Rightarrow> prepare_next E now t (rv\<lparr>rv_i := Suc (rv_i rv)\<rparr>) st
      | Some r \<Rightarrow>
          (let transState = ts_trans_stat r;
               trans = rv_trans rv;
               ts = trans_trans_list trans;
               trans = trans\<lparr>trans_trans_list := ts[rv_i rv := (ts ! rv_i rv)\<lparr>tl_state := transState\<rparr>]\<rparr>;
               rv = rv\<lparr>rv_trans := trans\<rparr>
           in case transState of
                TransStateBegin \<Rightarrow> prepare_next E now t (rv\<lparr>rv_i := Suc (rv_i rv)\<rparr>) st
              | TransStatePrepared \<Rightarrow>
                  prepare_next E now t
                    (rv\<lparr>rv_i := Suc (rv_i rv),
                        rv_nHasTransStatePrepared := rv_nHasTransStatePrepared rv + 1,
                        rv_max_commit_ts := (if ts_commit_ts r > rv_max_commit_ts rv
                                             then ts_commit_ts r else rv_max_commit_ts rv)\<rparr>) st
              | TransStateCommited \<Rightarrow>
                  if ts_commit_ts r < rv_max_commit_ts rv \<and> length (trans_self_commit_ts trans) > 0
                  then Abort Assert_failed st
                  else save_and_end E t (rv_begin_ts rv)
                    (trans\<lparr>trans_state := TransStateCommited,
                           trans_commit_trans := ts_commit_ts r\<rparr>) st
              | TransStateRollback \<Rightarrow>
                  save_and_end E t (rv_begin_ts rv) (trans\<lparr>trans_state := TransStateRollback\<rparr>) st))"

end
