(* ===== verification/Server.thy ===== *)
theory Server
  imports Resolver
begin

text \<open>
  \<open>readwrite_routine\<close> of \<open>storageServ.cpp\<close>: the coroutine that serves one connection. It waits for a
  message, or inside a request for a lock or for a commit to finish; from each wait to the next it
  runs without interruption, and that is one function here. A request that reads can fail to
  return only in \<open>ReadData\<close>, so results are under an option.
\<close>

section \<open>A connection's state\<close>

text \<open>
  The three \<open>co_poll\<close> waits inside a request, each with the request and the response as built so
  far.
\<close>

datatype wait_at = Lock_for_get | Data_commiting | Lock_for_write

datatype session_pc = Reading | Waiting wait_at RpcReq RpcRes

record session =
  ss_begin_ts :: string
  ss_start_ts :: string
  ss_pc :: session_pc

definition session_init :: session where
  [init]: "session_init = \<lparr>ss_begin_ts = [], ss_start_ts = [], ss_pc = Reading\<rparr>"

text \<open>How a segment ends: a response is sent, the request waits, or the loop is left.\<close>

datatype reply = Reply Msg | Waits | Hang_up

definition rpc_msg :: "RpcRes \<Rightarrow> Msg" where
  "rpc_msg rs = Msg_init\<lparr>msg_msg_type := MSG_Type_Rpc_Response, msg_content := Rpc_response rs\<rparr>"

definition trans_state_msg :: "TransStateRes \<Rightarrow> Msg" where
  "trans_state_msg r =
     Msg_init\<lparr>msg_msg_type := MSG_Type_TransState_Response, msg_content := Trans_state_response r\<rparr>"

text \<open>\<open>goto Response\<close>, and the same after setting the result and the message.\<close>

definition respond :: "RpcRes \<Rightarrow> session \<Rightarrow> 's \<Rightarrow> (reply \<times> session, 's) outcome" where
  "respond rs s st = Ret (Reply (rpc_msg rs), s\<lparr>ss_pc := Reading\<rparr>) st"

definition respond_err :: "int \<Rightarrow> string \<Rightarrow> RpcRes \<Rightarrow> session \<Rightarrow> 's
    \<Rightarrow> (reply \<times> session, 's) outcome" where
  "respond_err code msg rs s st =
     respond (rs\<lparr>rs_result := word_of_int code, rs_err_msg := msg\<rparr>) s st"

definition await :: "wait_at \<Rightarrow> RpcReq \<Rightarrow> RpcRes \<Rightarrow> session \<Rightarrow> 's
    \<Rightarrow> (reply \<times> session, 's) outcome" where
  "await w rq rs s st = Ret (Waits, s\<lparr>ss_pc := Waiting w rq rs\<rparr>) st"

section \<open>The requests\<close>

definition serve_begin :: "('d, 'j) env \<Rightarrow> RpcReq \<Rightarrow> RpcRes \<Rightarrow> session \<Rightarrow> 'd node
    \<Rightarrow> (reply \<times> session, 'd node) outcome" where
  "serve_begin E rq rs s st =
     (if length (ss_begin_ts s) \<noteq> 0 then respond_err 1 ''has begin trans!'' rs s st
      else let s = s\<lparr>ss_begin_ts := rq_begin_ts rq\<rparr> in
        bind_out (addTrans E (ss_begin_ts s) st) (\<lambda>ret st.
          if ret \<noteq> 0 then respond_err ret ''addTrans err '' rs s st
          else respond rs s st))"

definition serve_prepare :: "('d, 'j) env \<Rightarrow> string \<Rightarrow> RpcReq \<Rightarrow> RpcRes \<Rightarrow> session \<Rightarrow> 'd node
    \<Rightarrow> (reply \<times> session, 'd node) outcome" where
  "serve_prepare E now rq rs s st =
     (if length (ss_begin_ts s) = 0 then respond_err 1 ''has no begin trans!'' rs s st
      else if ss_begin_ts s \<noteq> rq_begin_ts rq then respond_err 1 ''begin_ts err!'' rs s st
      else let s = s\<lparr>ss_start_ts := rq_start_ts rq\<rparr> in
        bind_out (updateTransPrepared E (ss_begin_ts s) rq st) (\<lambda>ret st.
          if ret \<noteq> 0 then respond_err 1 ''updateTransPrepared err!'' rs s st
          else bind_out (updateTransSelfCommitTs E (ss_begin_ts s) now st) (\<lambda>ret st.
            if ret \<noteq> 0 then Abort Assert_failed st
            else bind_out (startCleanTrans E (prepare_resume E now) (ss_begin_ts s) st) (\<lambda>_ st.
              respond rs (s\<lparr>ss_begin_ts := [], ss_start_ts := []\<rparr>) st))))"

definition serve_commit :: "RpcRes \<Rightarrow> session \<Rightarrow> 'd node \<Rightarrow> (reply \<times> session, 'd node) outcome" where
  "serve_commit rs s st =
     (if length (ss_begin_ts s) = 0 then respond_err 1 ''has no begin trans!'' rs s st
      else respond rs s st)"

text \<open>
  The loop around \<open>ReadData\<close>, from its start to its next wait. Nothing resets \<open>result\<close> and
  \<open>err_msg\<close> between two turns.
\<close>

definition serve_read :: "('d, 'j) env \<Rightarrow> string \<Rightarrow> RpcReq \<Rightarrow> RpcRes \<Rightarrow> session \<Rightarrow> 'd node
    \<Rightarrow> (reply \<times> session, 'd node) outcome option" where
  "serve_read E now rq rs s st =
     (let inBeginTs = (if rq_get_for_update rq \<noteq> 0 then now else ss_begin_ts s)
      in case ReadData E inBeginTs (rq_key rq) read_out_init st of
           None \<Rightarrow> None
         | Some r \<Rightarrow> Some (bind_out r (\<lambda>(ret, out) st.
             let rs = rs\<lparr>rs_value := out_value out, rs_begin_ts := out_retBeginTs out,
                         rs_start_ts := out_retStartTs out, rs_commit_ts := out_retCommitTs out\<rparr>
             in if ret \<noteq> 0 then
                  (if ret = 99 then respond_err ret ''data not found'' rs s st
                   else if ret = 66 then
                     await Data_commiting rq
                       (rs\<lparr>rs_result := word_of_int ret, rs_err_msg := ''data commiting''\<rparr>) s st
                   else if ret = 33 then respond_err ret ''data deleted'' rs s st
                   else respond_err ret ''ReadData err '' rs s st)
                else respond rs s st)))"

definition serve_lock_get :: "('d, 'j) env \<Rightarrow> string \<Rightarrow> RpcReq \<Rightarrow> RpcRes \<Rightarrow> session \<Rightarrow> 'd node
    \<Rightarrow> (reply \<times> session, 'd node) outcome option" where
  "serve_lock_get E now rq rs s st =
     (case addLock E (rq_key rq) (ss_begin_ts s) st of
        Abort c st \<Rightarrow> Some (Abort c st)
      | Ret ret st \<Rightarrow>
          if ret \<noteq> 0 then Some (await Lock_for_get rq rs s st)
          else serve_read E now rq rs s st)"

definition serve_get :: "('d, 'j) env \<Rightarrow> string \<Rightarrow> RpcReq \<Rightarrow> RpcRes \<Rightarrow> session \<Rightarrow> 'd node
    \<Rightarrow> (reply \<times> session, 'd node) outcome option" where
  "serve_get E now rq rs s st =
     (if length (ss_begin_ts s) = 0 then Some (respond_err 1 ''has no begin trans!'' rs s st)
      else let rs = rs\<lparr>rs_key := rq_key rq\<rparr> in
        if rq_get_for_update rq \<noteq> 0 then serve_lock_get E now rq rs s st
        else serve_read E now rq rs s st)"

definition serve_lock_write :: "('d, 'j) env \<Rightarrow> RpcReq \<Rightarrow> RpcRes \<Rightarrow> session \<Rightarrow> 'd node
    \<Rightarrow> (reply \<times> session, 'd node) outcome" where
  "serve_lock_write E rq rs s st =
     bind_out (addLock E (rq_key rq) (ss_begin_ts s) st) (\<lambda>ret st.
       if ret \<noteq> 0 then await Lock_for_write rq rs s st
       else bind_out (addData E (rq_key rq) (rq_value rq) (ss_begin_ts s) (rq_request_type rq) st)
         (\<lambda>ret st.
            if ret \<noteq> 0 then respond_err ret ''addData err'' rs s st
            else respond rs s st))"

definition serve_write :: "('d, 'j) env \<Rightarrow> RpcReq \<Rightarrow> RpcRes \<Rightarrow> session \<Rightarrow> 'd node
    \<Rightarrow> (reply \<times> session, 'd node) outcome" where
  "serve_write E rq rs s st =
     (if length (ss_begin_ts s) = 0 then respond_err 1 ''has no begin trans!'' rs s st
      else serve_lock_write E rq (rs\<lparr>rs_begin_ts := ss_begin_ts s\<rparr>) s st)"

definition serve_trans_state :: "('d, 'j) env \<Rightarrow> TransStateReq \<Rightarrow> session \<Rightarrow> 'd node
    \<Rightarrow> (reply \<times> session, 'd node) outcome" where
  "serve_trans_state E tq s st =
     (let r = TransStateRes_init\<lparr>ts_result := 0\<rparr>;
          key = makeTrans (tq_begin_ts tq);
          (status, valueJson) = Get_db E st key
      in if \<not> ok status then
           Ret (Reply (trans_state_msg (r\<lparr>ts_result := 1, ts_err_msg := ''get trans err''\<rparr>)), s) st
         else parsed E (pb_Trans E) Trans_init valueJson st (\<lambda>trans.
           let r = r\<lparr>ts_trans_stat := trans_state trans\<rparr>;
               r = (if trans_state trans = TransStatePrepared
                    then r\<lparr>ts_commit_ts := trans_self_commit_ts trans\<rparr>
                    else if trans_state trans = TransStateCommited
                    then r\<lparr>ts_commit_ts := trans_commit_trans trans\<rparr> else r)
           in Ret (Reply (trans_state_msg r), s) st))"

section \<open>The connection\<close>

text \<open>
  One turn of the loop for a message that has been read; \<open>now\<close> is what \<open>GetTS()\<close> returns in it.
\<close>

definition serve_msg :: "('d, 'j) env \<Rightarrow> string \<Rightarrow> Msg \<Rightarrow> session \<Rightarrow> 'd node
    \<Rightarrow> (reply \<times> session, 'd node) outcome option" where
  "serve_msg E now reqMsg s st =
     (let rs = RpcRes_init; rq = mutable_rpc_request reqMsg
      in case msg_msg_type reqMsg of
           MSG_Type_Rpc_Request \<Rightarrow>
             (case rq_request_type rq of
                Req_Type_Begin \<Rightarrow> Some (serve_begin E rq rs s st)
              | Req_Type_Prepare \<Rightarrow> Some (serve_prepare E now rq rs s st)
              | Req_Type_Commit \<Rightarrow> Some (serve_commit rs s st)
              | Req_Type_Get \<Rightarrow> serve_get E now rq rs s st
              | Req_Type_Delete \<Rightarrow> Some (serve_write E rq rs s st)
              | Req_Type_Update \<Rightarrow> Some (serve_write E rq rs s st)
              | Req_Type_Insert \<Rightarrow> Some (serve_write E rq rs s st)
              | Req_Type_Rollback \<Rightarrow> Some (respond rs s st))
         | MSG_Type_TransState_Request \<Rightarrow>
             Some (serve_trans_state E (mutable_trans_state_request reqMsg) s st)
         | _ \<Rightarrow> Some (Ret (Hang_up, s) st))"

text \<open>A wait inside a request ends: \<open>co_poll\<close> returns 0 after its 500 ms, or it reports an event.\<close>

definition serve_timeout :: "('d, 'j) env \<Rightarrow> string \<Rightarrow> session \<Rightarrow> 'd node
    \<Rightarrow> (reply \<times> session, 'd node) outcome option" where
  "serve_timeout E now s st =
     (case ss_pc s of
        Reading \<Rightarrow> Some (Ret (Waits, s) st)
      | Waiting w rq rs \<Rightarrow>
          (case w of
             Lock_for_get \<Rightarrow> serve_lock_get E now rq rs s st
           | Data_commiting \<Rightarrow> serve_read E now rq rs s st
           | Lock_for_write \<Rightarrow> Some (serve_lock_write E rq rs s st)))"

definition serve_event :: "session \<Rightarrow> 'd node \<Rightarrow> (reply \<times> session, 'd node) outcome" where
  "serve_event s st =
     (case ss_pc s of
        Reading \<Rightarrow> Ret (Waits, s) st
      | Waiting w rq rs \<Rightarrow> respond rs s st)"

text \<open>The connection ends: a failed read or send, or a message of another type.\<close>

definition serve_close :: "('d, 'j) env \<Rightarrow> string \<Rightarrow> session \<Rightarrow> 'd node
    \<Rightarrow> (unit, 'd node) outcome" where
  "serve_close E now s st =
     (if length (ss_begin_ts s) > 0
      then startCleanTrans E (prepare_resume E now) (ss_begin_ts s) st
      else Ret () st)"

end
