(* ===== verification/Node_Contract.thy ===== *)
theory Node_Contract
  imports Server
begin

text \<open>
  The contract between an invariant of a storage server and the code that runs on it. The locale
  \<open>node_contract\<close> lists the elementary changes the code makes to the transaction records and to
  the resolvers, as the laws an invariant \<open>I\<close> and a resolver's evidence \<open>Ev\<close> have to satisfy; its
  lemmas show that every segment of every coroutine, whether it returns or aborts, then keeps
  \<open>I\<close>. The protocol's invariants are instances of it.
\<close>

section \<open>Elementary changes\<close>

lemma node_tasks_more:
  "Storage.more st' = Storage.more st \<Longrightarrow> node_tasks st' = node_tasks st"
  by (cases st; cases st') simp

text \<open>The same records, and no resolver waits that did not wait before.\<close>

definition same_trans :: "('d, 'j) env \<Rightarrow> 'd node \<Rightarrow> 'd node \<Rightarrow> bool" where
  "same_trans E st st' \<longleftrightarrow>
     (\<forall>ts. fetch_Trans E st' ts = fetch_Trans E st ts) \<and> self_hash_id st' = self_hash_id st
     \<and> (\<forall>t rv. pt_pc (node_tasks st' t) = Querying rv \<longrightarrow> pt_pc (node_tasks st t) = Querying rv)"

text \<open>The record of \<open>ts\<close> has become \<open>t\<close>.\<close>

definition trans_set :: "('d, 'j) env \<Rightarrow> 'd node \<Rightarrow> 'd node \<Rightarrow> string \<Rightarrow> Trans \<Rightarrow> bool" where
  "trans_set E st st' ts t \<longleftrightarrow> trans_frame E st st' ts \<and> fetch_Trans E st' ts = Found t"

text \<open>The same locks and versions besides.\<close>

definition same_store :: "('d, 'j) env \<Rightarrow> 'd node \<Rightarrow> 'd node \<Rightarrow> bool" where
  "same_store E st st' \<longleftrightarrow> same_trans E st st'
     \<and> (\<forall>key. fetch_Lock E st' key = fetch_Lock E st key)
     \<and> (\<forall>key. fetch_Entry E st' key = fetch_Entry E st key)
     \<and> (\<forall>key vts. fetch_Version E st' key vts = fetch_Version E st key vts)"

lemma same_trans_refl [simp]: "same_trans E st st"
  by (simp add: same_trans_def)

lemma same_trans_trans:
  "same_trans E st st1 \<Longrightarrow> same_trans E st1 st2 \<Longrightarrow> same_trans E st st2"
  by (simp add: same_trans_def)

lemma same_store_trans_part: "same_store E st st' \<Longrightarrow> same_trans E st st'"
  by (simp add: same_store_def)

lemma same_store_refl [simp]: "same_store E st st"
  by (simp add: same_store_def)

lemma same_store_stack [simp]: "same_store E st (st\<lparr>prepareTaskStack := s\<rparr>)"
  by (simp add: same_store_def same_trans_def fetch_defs fetch_def Get_db_def)

lemma same_store_begin_ts [simp]:
  "same_store E st (st\<lparr>node_tasks := (node_tasks st)(t := (node_tasks st t)\<lparr>pt_begin_ts := b\<rparr>)\<rparr>)"
  by (simp add: same_store_def same_trans_def fetch_defs fetch_def Get_db_def)

lemma same_store_set_pc [simp]:
  "(\<And>rv. pc \<noteq> Querying rv) \<Longrightarrow> same_store E st (set_pc t pc st)"
  by (simp add: same_store_def same_trans_def set_pc_def fetch_defs fetch_def Get_db_def)

lemma same_store_idle [simp]: "same_store E st (prepare_idle t st)"
  by (simp add: same_store_def same_trans_def prepare_idle_def set_pc_def fetch_defs fetch_def
      Get_db_def)

lemma fetch_set_pc [simp]: "fetch E c m0 (set_pc t pc st) key = fetch E c m0 st key"
  by (simp add: set_pc_def fetch_def Get_db_def)

lemma self_set_pc [simp]: "self_hash_id (set_pc t pc st) = self_hash_id st"
  by (simp add: set_pc_def)

lemma trans_frame_same:
  assumes "trans_frame E st st' ts" and "fetch_Trans E st' ts = fetch_Trans E st ts"
  shows "same_store E st st'"
proof -
  have "node_tasks st' = node_tasks st"
    using assms(1) by (intro node_tasks_more) (simp add: trans_frame_def)
  with assms show ?thesis by (simp add: same_store_def same_trans_def trans_frame_def) metis
qed

context store_env
begin

lemma put_same_trans:
  "put_Lock E st key l = (s, st') \<Longrightarrow> same_trans E st st'"
  "put_Entry E st key v = (s, st') \<Longrightarrow> same_trans E st st'"
  "put_Version E st key vts v = (s, st') \<Longrightarrow> same_trans E st st'"
  unfolding put_defs same_trans_def fetch_Trans_def
  by (simp_all add: fetch_Put Put_db_frame node_tasks_more [OF Put_db_frame(3)])

lemma put_Trans_set:
  assumes "put_Trans E st ts t = (s, st')"
  shows "if s = kOk then trans_set E st st' ts t else same_store E st st'"
  using put_Trans_frame [OF assms] trans_frame_same [OF put_Trans_frame [OF assms]]
  by (simp add: trans_set_def fetch_put_Trans [OF assms])

lemma addData_same: "same_trans E st (state_of (addData E key val ts type st))"
  by (auto simp: addData_eq dest: put_same_trans intro: same_trans_trans
      split: fetched.splits prod.splits)

lemma addLock_same_trans: "same_trans E st (state_of (addLock E key ts st))"
  by (auto simp: addLock_eq Let_def dest: put_same_trans split: fetched.splits prod.splits)

end

lemma ReadData_turn_state: "state_of (ReadData_turn E ts key out loopTs st) = st"
  by (auto simp: ReadData_turn_eq split: fetched.splits sum.splits)

text \<open>A read returns the object it was called on.\<close>

lemma ReadData_loop_state:
  assumes "ReadData_loop E ts key out loopTs st = Some r"
  shows "state_of r = st"
proof (rule ReadData_loop.raw_induct [where P = "\<lambda>E ts key out loopTs st r. state_of r = st",
        OF _ assms])
  fix f E ts key out loopTs st r
  assume IH: "\<And>E ts key out loopTs st r. f E ts key out loopTs st = Some r \<Longrightarrow> state_of r = st"
    and eq: "(case ReadData_turn E ts key out loopTs st of
        Ret r st \<Rightarrow> (case r of Inl ret \<Rightarrow> Some (Ret ret st) | Inr l \<Rightarrow> f E ts key out l st)
      | Abort c st \<Rightarrow> Some (Abort c st)) = Some r"
  show "state_of r = st"
    using eq IH ReadData_turn_state [of E ts key out loopTs st]
    by (auto split: outcome.splits sum.splits)
qed

lemma ReadData_state: "ReadData E ts key out st = Some r \<Longrightarrow> state_of r = st"
  unfolding ReadData_def by (rule ReadData_loop_state)

definition stamped :: "string \<Rightarrow> Trans \<Rightarrow> Trans" where
  "stamped now t = t\<lparr>trans_self_commit_ts := now\<rparr>"

definition first_round :: "string \<Rightarrow> string \<Rightarrow> Trans \<Rightarrow> resolving" where
  "first_round now ts t = \<lparr>rv_begin_ts = ts, rv_trans = t, rv_max_commit_ts = first_max now t,
     rv_nHasTransStatePrepared = 0, rv_i = 0\<rparr>"

definition next_round :: "string \<Rightarrow> resolving \<Rightarrow> resolving" where
  "next_round now rv = rv\<lparr>rv_max_commit_ts := first_max now (rv_trans rv),
     rv_i := 0, rv_nHasTransStatePrepared := 0\<rparr>"

definition rv_list :: "resolving \<Rightarrow> TransList list" where
  "rv_list rv = trans_trans_list (rv_trans rv)"

definition committed :: "resolving \<Rightarrow> Trans" where
  "committed rv = (rv_trans rv)\<lparr>trans_state := TransStateCommited,
     trans_commit_trans := rv_max_commit_ts rv\<rparr>"

text \<open>What the resolver and the clean-up write is the record they work on, and no other key.\<close>

definition only_key :: "('d, 'j) env \<Rightarrow> string \<Rightarrow> 'd node \<Rightarrow> ('a, 'd node) outcome \<Rightarrow> bool" where
  "only_key E key st m \<longleftrightarrow> (\<forall>k. k \<noteq> key \<longrightarrow> Get_db E (state_of m) k = Get_db E st k)"

text \<open>
  The iterator of the start reads a snapshot. What it still has to visit is in the store as long as
  each turn writes only the key it is at.
\<close>

definition snapshot :: "('d, 'j) env \<Rightarrow> (string \<times> string) list \<Rightarrow> 'd node \<Rightarrow> bool" where
  "snapshot E iter st \<longleftrightarrow> distinct (map fst iter) \<and> (\<forall>(k, v)\<in>set iter. Get_db E st k = (kOk, v))"

lemma Get_db_volatile [simp]:
  "Get_db E (set_pc t pc st) k = Get_db E st k" "Get_db E (prepare_idle t st) k = Get_db E st k"
  "Get_db E (st\<lparr>prepareTaskStack := stack\<rparr>) k = Get_db E st k"
  "Get_db E (st\<lparr>node_tasks := tasks\<rparr>) k = Get_db E st k"
  by (simp_all add: Get_db_def set_pc_def prepare_idle_def)

context store_env
begin

lemma only_key_save: "only_key E (makeTrans ts) st (save_and_end E t ts tr st)"
  by (auto simp: only_key_def save_and_end_def Get_db_Put split: prod.splits)

lemma only_key_next: "only_key E (makeTrans (rv_begin_ts rv)) st (prepare_next E now t rv st)"
  using only_key_save [of "rv_begin_ts rv" st t]
  by (auto simp: prepare_next_def prepare_commit_def Let_def only_key_def split: prod.splits)

lemma only_key_from:
  "only_key E key st1 m \<Longrightarrow> (\<And>k. Get_db E st1 k = Get_db E st k) \<Longrightarrow> only_key E key st m"
  by (simp add: only_key_def)

lemma only_key_parsed:
  assumes "\<And>m. decode E c m0 v = Found m \<Longrightarrow> only_key E key st (k m)"
  shows "only_key E key st (parsed E c m0 v st k)"
  using assms by (auto simp: parsed_eq only_key_def split: fetched.splits)

lemma only_key_Ret [simp]: "only_key E key st (Ret a st') \<longleftrightarrow> (\<forall>k. k \<noteq> key \<longrightarrow> Get_db E st' k = Get_db E st k)"
  and only_key_Abort [simp]: "only_key E key st (Abort c st') \<longleftrightarrow> (\<forall>k. k \<noteq> key \<longrightarrow> Get_db E st' k = Get_db E st k)"
  by (simp_all add: only_key_def)

lemma only_key_enter:
  "only_key E (makeTrans (pt_begin_ts (node_tasks st t))) st (prepare_enter E now t st)"
proof -
  define ts where "ts = pt_begin_ts (node_tasks st t)"
  define st1 where
    "st1 = st\<lparr>node_tasks := (node_tasks st)(t := (node_tasks st t)\<lparr>pt_begin_ts := []\<rparr>)\<rparr>"
  have "only_key E (makeTrans ts) st1 (prepare_enter E now t st)"
    unfolding prepare_enter_def Let_def ts_def [symmetric] st1_def [symmetric]
    using only_key_next [of "first_round now ts _" st1 now t]
    by (auto simp: first_round_def intro!: only_key_parsed split: prod.splits)
  then show ?thesis unfolding ts_def by (rule only_key_from) (simp add: st1_def)
qed

lemma only_key_resume: "only_key E (makeTrans ts) st (prepare_resume E now t ts st)"
proof -
  let ?st1 = "st\<lparr>node_tasks := (node_tasks st)(t := (node_tasks st t)\<lparr>pt_begin_ts := ts\<rparr>)\<rparr>"
  have "only_key E (makeTrans ts) ?st1 (prepare_enter E now t ?st1)"
    using only_key_enter [of ?st1 t now] by simp
  then show ?thesis unfolding prepare_resume_def by (rule only_key_from) simp
qed

lemma only_key_clean:
  "only_key E (makeTrans ts) st (startCleanTrans E (prepare_resume E now) ts st)"
proof -
  have "only_key E (makeTrans ts) st
      (prepare_resume E now t ts (st\<lparr>prepareTaskStack := rest\<rparr>))" for t rest
    by (rule only_key_from [OF only_key_resume]) simp
  then show ?thesis
    by (auto simp: startCleanTrans_def Let_def Get_db_Put intro!: only_key_parsed
        split: prod.splits list.splits)
qed

lemma only_key_turn:
  "only_key E (makeTrans ts) st (startUpClean_turn E (prepare_resume E now) (makeTrans ts) v st)"
  using only_key_clean [of ts st now]
  by (auto simp: startUpClean_turn_def parsed_eq Let_def Get_db_Put split: fetched.splits prod.splits
      if_splits)

lemma snapshot_start: "snapshot E (dropWhile (\<lambda>kv. fst kv < p) (db_Iterator E (db st))) st"
  using iterator_get [of _ _ "db st"] distinct_fst_dropWhile [OF iterator_distinct]
  by (auto simp: snapshot_def Get_db_def dest: set_dropWhileD)

lemma snapshot_head: "snapshot E ((key, v) # iter) st \<Longrightarrow> Get_db E st key = (kOk, v)"
  by (simp add: snapshot_def)

lemma snapshot_tail:
  assumes "snapshot E ((key, v) # iter) st" and "only_key E key st m" and "m = Ret a st1"
  shows "snapshot E iter st1"
proof -
  have "Get_db E st1 k = (kOk, w)" if "(k, w) \<in> set iter" for k w
  proof -
    have "k \<in> fst ` set iter" using that by force
    with assms(1) have "k \<noteq> key" "Get_db E st k = (kOk, w)"
      using that by (auto simp: snapshot_def)
    with assms(2,3) show ?thesis by (simp add: only_key_def)
  qed
  with assms(1) show ?thesis by (auto simp: snapshot_def)
qed

end

section \<open>The contract\<close>

text \<open>
  \<open>legal rq\<close> is what the invariant needs of a prepare request, \<open>writer st ts\<close> of a transaction that
  a connection writes for, and \<open>ends ts\<close> of one that it prepares or gives up. \<open>vote_failed\<close> is the state an
  abort leaves between the two writes of a prepare; \<open>vote\<close> the one after both.
\<close>

definition lock_free :: "('d, 'j) env \<Rightarrow> 'd node \<Rightarrow> string \<Rightarrow> bool" where
  "lock_free E st key \<longleftrightarrow> fetch_Lock E st key = Missing
     \<or> (\<exists>l t. fetch_Lock E st key = Found l \<and> fetch_Trans E st (lock_trans l) = Found t
         \<and> trans_state t \<in> {TransStateRollback, TransStateCommited})"

definition lock_held :: "('d, 'j) env \<Rightarrow> 'd node \<Rightarrow> string \<Rightarrow> string \<Rightarrow> bool" where
  "lock_held E st key ts \<longleftrightarrow> fetch_Lock E st key = Found \<lparr>lock_trans = ts\<rparr>
     \<or> (\<exists>n. fetch_Lock E st key = Failed n)"

context store_env
begin

lemma addLock_held:
  "addLock E key ts st = Ret 0 st' \<Longrightarrow> lock_held E st' key ts"
  by (auto simp: addLock_eq Let_def lock_held_def fetch_put_Lock split: fetched.splits if_splits prod.splits)

end

locale node_contract = store_env E for E :: "('d, 'j) env" +
  fixes I :: "'d node \<Rightarrow> bool"
    and Ev :: "'d node \<Rightarrow> resolving \<Rightarrow> bool"
    and legal :: "RpcReq \<Rightarrow> bool"
    and writer :: "'d node \<Rightarrow> string \<Rightarrow> bool"
    and ends :: "string \<Rightarrow> bool"
  assumes quiet: "I st \<Longrightarrow> same_store E st st' \<Longrightarrow> I st'"
    and take_lock: "I st \<Longrightarrow> lock_free E st key \<Longrightarrow>
      put_Lock E st key \<lparr>lock_trans = ts\<rparr> = (s, st') \<Longrightarrow> I st'"
    and writer_locks: "writer st ts \<Longrightarrow> same_trans E st st' \<Longrightarrow> writer st' ts"
    and write_held: "I st \<Longrightarrow> writer st ts \<Longrightarrow> lock_held E st key ts
      \<Longrightarrow> keeps I (addData E key val ts type st)"
    and create: "I st \<Longrightarrow> fetch_Trans E st ts = Missing \<Longrightarrow> trans_set E st st' ts Trans_init
      \<Longrightarrow> I st'"
    and vote_failed: "I st \<Longrightarrow> ends ts \<Longrightarrow> fetch_Trans E st ts = Found t \<Longrightarrow> trans_state t = TransStateBegin
      \<Longrightarrow> legal rq \<Longrightarrow> rq_begin_ts rq = ts
      \<Longrightarrow> trans_set E st st1 ts (prepared_record (self_hash_id st) rq t)
      \<Longrightarrow> updateTransSelfCommitTs E ts now st1 = Ret r st' \<Longrightarrow> r \<noteq> 0 \<Longrightarrow> I st'"
    and vote: "I st \<Longrightarrow> ends ts \<Longrightarrow> fetch_Trans E st ts = Found t \<Longrightarrow> trans_state t = TransStateBegin
      \<Longrightarrow> legal rq \<Longrightarrow> rq_begin_ts rq = ts \<Longrightarrow> now \<noteq> []
      \<Longrightarrow> trans_set E st st' ts (stamped now (prepared_record (self_hash_id st) rq t)) \<Longrightarrow> I st'"
    and abort_open: "I st \<Longrightarrow> ends ts \<Longrightarrow> fetch_Trans E st ts = Found t \<Longrightarrow> trans_state t = TransStateBegin
      \<Longrightarrow> trans_set E st st' ts (t\<lparr>trans_state := TransStateRollback\<rparr>) \<Longrightarrow> I st'"
    and start: "I st \<Longrightarrow> fetch_Trans E st ts = Found t \<Longrightarrow> trans_state t = TransStatePrepared
      \<Longrightarrow> Ev st (first_round now ts t)"
    and again: "I st \<Longrightarrow> Ev st rv \<Longrightarrow> Ev st (next_round now rv)"
    and own: "I st \<Longrightarrow> Ev st rv \<Longrightarrow> rv_i rv < length (rv_list rv)
      \<Longrightarrow> hash_id (tl_host (rv_list rv ! rv_i rv)) = self_hash_id st
      \<Longrightarrow> Ev st (rv\<lparr>rv_i := Suc (rv_i rv),
                    rv_nHasTransStatePrepared := rv_nHasTransStatePrepared rv + 1\<rparr>)"
    and evidence_quiet: "Ev st rv \<Longrightarrow> same_store E st st' \<Longrightarrow> Ev st' rv"
    and wait: "I st \<Longrightarrow> Ev st rv \<Longrightarrow> rv_i rv < length (rv_list rv)
      \<Longrightarrow> I (set_pc task (Querying rv) st)"
    and in_range: "I st \<Longrightarrow> Ev st rv \<Longrightarrow> rv_i rv \<le> length (rv_list rv)"
    and commit: "I st \<Longrightarrow> Ev st rv \<Longrightarrow> rv_i rv = length (rv_list rv)
      \<Longrightarrow> rv_nHasTransStatePrepared rv = int (length (rv_list rv))
      \<Longrightarrow> trans_set E st st' (rv_begin_ts rv) (committed rv) \<Longrightarrow> I st'"
begin

subsection \<open>The resolver\<close>

lemma save_and_end_keeps:
  assumes "I st" and "\<And>st'. trans_set E st st' ts tr \<Longrightarrow> I st'"
  shows "keeps I (save_and_end E t ts tr st)"
proof -
  obtain s st1 where p: "put_Trans E st ts tr = (s, st1)" by fastforce
  then have "save_and_end E t ts tr st =
      (if s = kOk then Ret () (prepare_idle t st1) else Abort Assert_failed st1)"
    by (simp add: save_and_end_def put_Trans_def)
  moreover have "I st1"
    using put_Trans_set [OF p] assms quiet [OF assms(1)] by (auto split: if_splits)
  ultimately show ?thesis using quiet [OF _ same_store_idle] by simp
qed

lemma prepare_commit_keeps:
  assumes "I st" and "Ev st rv" and "rv_i rv = length (rv_list rv)"
    and "rv_nHasTransStatePrepared rv = int (length (rv_list rv))"
  shows "keeps I (prepare_commit E t rv st)"
  unfolding prepare_commit_def
  using assms commit [OF assms] by (intro save_and_end_keeps) (simp_all add: committed_def)

text \<open>Skipping this server's own entries is a number of \<open>own\<close> steps.\<close>

lemma skip_self_evidence:
  assumes "I st" and "Ev st rv"
    and "skip_self (self_hash_id st) (rv_list rv) (rv_i rv) (rv_nHasTransStatePrepared rv) = (i, n)"
  shows "Ev st (rv\<lparr>rv_i := i, rv_nHasTransStatePrepared := n\<rparr>)"
    and "i \<le> length (rv_list rv)"
proof -
  let ?P = "\<lambda>tl. hash_id (tl_host tl) = self_hash_id st"
  let ?rest = "drop (rv_i rv) (rv_list rv)"
  have "Ev st (rv\<lparr>rv_i := rv_i rv + k, rv_nHasTransStatePrepared :=
      rv_nHasTransStatePrepared rv + int k\<rparr>)" if "k \<le> length (takeWhile ?P ?rest)" for k
    using that
  proof (induction k)
    case 0
    then show ?case using assms(2) by simp
  next
    case (Suc k)
    let ?rv = "rv\<lparr>rv_i := rv_i rv + k,
      rv_nHasTransStatePrepared := rv_nHasTransStatePrepared rv + int k\<rparr>"
    from Suc.prems have k: "k < length (takeWhile ?P ?rest)" by simp
    then have "?P (?rest ! k)"
      using set_takeWhileD [OF nth_mem [OF k]] takeWhile_nth [OF k] by simp
    moreover have "k < length ?rest" using k length_takeWhile_le [of ?P ?rest] by linarith
    ultimately have "rv_i ?rv < length (rv_list ?rv)"
      and "hash_id (tl_host (rv_list ?rv ! rv_i ?rv)) = self_hash_id st"
      by (simp_all add: rv_list_def)
    from own [OF assms(1) Suc.IH this] Suc.prems show ?case by (simp add: ac_simps)
  qed
  from this [of "length (takeWhile ?P ?rest)"] assms(3)
  show "Ev st (rv\<lparr>rv_i := i, rv_nHasTransStatePrepared := n\<rparr>)"
    by (auto simp: skip_self_def Let_def)
  have "rv_i rv \<le> length (rv_list rv)" by (rule in_range [OF assms(1,2)])
  then show "i \<le> length (rv_list rv)"
    using assms(3) length_takeWhile_le [of ?P ?rest] by (auto simp: skip_self_def Let_def)
qed

lemma skip_self_all:
  "skip_self self xs 0 0 = (i, n) \<Longrightarrow> i = length xs \<Longrightarrow> n = int (length xs)"
  by (auto simp: skip_self_def Let_def)

lemma prepare_commit_upd [simp]:
  "prepare_commit E t (rv\<lparr>rv_i := i, rv_nHasTransStatePrepared := n\<rparr>) st
     = prepare_commit E t rv st"
  by (simp add: prepare_commit_def)

text \<open>From the index a skip has reached: ask that host, or commit if the round is complete.\<close>

lemma round_keeps:
  assumes "I st" and "Ev st rv"
    and "skip_self (self_hash_id st) (rv_list rv) (rv_i rv) (rv_nHasTransStatePrepared rv) = (i, n)"
  shows "i < length (rv_list rv)
      \<Longrightarrow> I (set_pc t (Querying (rv\<lparr>rv_i := i, rv_nHasTransStatePrepared := n\<rparr>)) st)"
    and "\<not> i < length (rv_list rv) \<Longrightarrow> n = int (length (rv_list rv))
      \<Longrightarrow> keeps I (prepare_commit E t rv st)"
proof -
  note ev = skip_self_evidence [OF assms]
  show "i < length (rv_list rv)
      \<Longrightarrow> I (set_pc t (Querying (rv\<lparr>rv_i := i, rv_nHasTransStatePrepared := n\<rparr>)) st)"
    by (rule wait [OF assms(1) ev(1)]) (simp add: rv_list_def)
  show "\<not> i < length (rv_list rv) \<Longrightarrow> n = int (length (rv_list rv))
      \<Longrightarrow> keeps I (prepare_commit E t rv st)"
    using prepare_commit_keeps [OF assms(1) ev(1), of t] ev(2) by (simp add: rv_list_def)
qed

lemma prepare_next_keeps:
  assumes "I st" and "Ev st rv"
  shows "keeps I (prepare_next E now t rv st)"
proof -
  let ?xs = "rv_list rv" and ?self = "self_hash_id st" and ?new = "next_round now rv"
  obtain i n where k: "skip_self ?self ?xs (rv_i rv) (rv_nHasTransStatePrepared rv) = (i, n)"
    by fastforce
  obtain i' n' where k': "skip_self ?self ?xs 0 0 = (i', n')" by fastforce
  have new: "rv_list ?new = ?xs" "rv_i ?new = 0" "rv_nHasTransStatePrepared ?new = 0"
    by (simp_all add: next_round_def rv_list_def)
  note r = round_keeps [OF assms k, of t]
  note r' = round_keeps [OF assms(1) again [OF assms, of now], unfolded new, OF k', of t]
  have "i' = length ?xs" if "\<not> i' < length ?xs"
    using skip_self_evidence(2) [OF assms(1) again [OF assms, of now], unfolded new, OF k'] that
    by simp
  with skip_self_all [OF k'] r r' show ?thesis
    by (auto simp: prepare_next_def Let_def k k' rv_list_def [symmetric] next_round_def)
qed

lemma prepare_enter_keeps:
  assumes "I st"
  shows "keeps I (prepare_enter E now t st)"
proof -
  define ts where "ts = pt_begin_ts (node_tasks st t)"
  define st1 where
    "st1 = st\<lparr>node_tasks := (node_tasks st)(t := (node_tasks st t)\<lparr>pt_begin_ts := []\<rparr>)\<rparr>"
  have I1: "I st1" using quiet [OF assms same_store_begin_ts] by (simp add: st1_def)
  then have idle: "I (prepare_idle t st1)" and ended: "I (set_pc t Ended st1)"
    by (auto intro: quiet)
  show ?thesis
  proof (cases rule: fetch_cases [where E = E and st = st1 and key = "makeTrans ts"
        and c = "pb_Trans E" and ?m0.0 = Trans_init])
    case (found v tr)
    then have "Ev st1 (first_round now ts tr)" if "trans_state tr = TransStatePrepared"
      using that start [OF I1] by (simp add: fetch_Trans_def)
    then have "trans_state tr = TransStatePrepared
        \<Longrightarrow> keeps I (prepare_next E now t (first_round now ts tr) st1)"
      by (intro prepare_next_keeps [OF I1])
    with found idle show ?thesis
      by (auto simp: prepare_enter_def Let_def ts_def [symmetric] st1_def [symmetric] parsed_eq
          first_round_def)
  qed (use I1 idle ended in \<open>auto simp: prepare_enter_def Let_def ts_def [symmetric]
        st1_def [symmetric] parsed_eq\<close>)
qed

lemma prepare_resume_keeps: "I st \<Longrightarrow> keeps I (prepare_resume E now t ts st)"
  unfolding prepare_resume_def by (intro prepare_enter_keeps) (rule quiet, auto)

lemma startCleanTrans_keeps:
  assumes "I st" and "ends ts"
  shows "keeps I (startCleanTrans E (prepare_resume E now) ts st)"
proof (cases "fetch_Trans E st ts")
  case (Found t)
  show ?thesis
  proof (cases "trans_state t")
    case TransStateBegin
    obtain s st' where p: "put_Trans E st ts (t\<lparr>trans_state := TransStateRollback\<rparr>) = (s, st')"
      by fastforce
    have "I st'"
      using put_Trans_set [OF p] abort_open [OF assms Found TransStateBegin] quiet [OF assms(1)]
      by (auto split: if_splits)
    with p show ?thesis by (simp add: startCleanTrans_eq Found TransStateBegin)
  next
    case TransStatePrepared
    then show ?thesis using assms prepare_resume_keeps quiet [OF assms(1) same_store_stack]
      by (auto simp: startCleanTrans_eq Found split: list.splits)
  qed (use assms in \<open>simp_all add: startCleanTrans_eq Found\<close>)
qed (use assms in \<open>simp_all add: startCleanTrans_eq\<close>)

subsection \<open>The connections\<close>

lemma respond_keeps [simp]:
  "keeps I (respond rs s st) \<longleftrightarrow> I st" "keeps I (respond_err code msg rs s st) \<longleftrightarrow> I st"
  "keeps I (await w rq rs s st) \<longleftrightarrow> I st"
  by (simp_all add: respond_def respond_err_def await_def)

lemma addTrans_keeps:
  assumes "I st"
  shows "keeps I (addTrans E ts st)"
proof -
  obtain s st' where p: "put_Trans E st ts Trans_init = (s, st')" by fastforce
  have "I st'" if "fetch_Trans E st ts = Missing"
    using put_Trans_set [OF p] create [OF assms that] quiet [OF assms] by (auto split: if_splits)
  then show ?thesis using assms p by (simp add: addTrans_eq)
qed

lemma addLock_keeps:
  assumes "I st"
  shows "keeps I (addLock E key ts st)"
proof -
  obtain s st' where p: "put_Lock E st key \<lparr>lock_trans = ts\<rparr> = (s, st')" by fastforce
  have "I st'" if "lock_free E st key" by (rule take_lock [OF assms that p])
  with assms p show ?thesis
    by (auto simp: addLock_eq Let_def lock_free_def split: fetched.splits)
qed

lemma serve_begin_keeps: "I st \<Longrightarrow> keeps I (serve_begin E rq rs s st)"
  by (auto simp: serve_begin_def Let_def intro!: keeps_bind addTrans_keeps)

lemma serve_read_keeps:
  assumes "I st" and "serve_read E now rq rs s st = Some r"
  shows "keeps I r"
proof -
  obtain m where R: "ReadData E (if rq_get_for_update rq \<noteq> 0 then now else ss_begin_ts s)
      (rq_key rq) read_out_init st = Some m"
    using assms(2) by (auto simp: serve_read_def Let_def split: option.splits)
  with ReadData_state [OF R] assms show ?thesis
    by (cases m) (auto simp: serve_read_def Let_def split: prod.splits if_splits)
qed

lemma serve_lock_get_keeps:
  assumes "I st" and "serve_lock_get E now rq rs s st = Some r"
  shows "keeps I r"
  using assms(2) addLock_keeps [OF assms(1), of "rq_key rq" "ss_begin_ts s"]
  by (auto simp: serve_lock_get_def intro: serve_read_keeps split: outcome.splits if_splits)

lemma serve_get_keeps: "I st \<Longrightarrow> serve_get E now rq rs s st = Some r \<Longrightarrow> keeps I r"
  by (auto simp: serve_get_def Let_def intro: serve_read_keeps serve_lock_get_keeps split: if_splits)

lemma serve_lock_write_keeps:
  assumes "I st" and "writer st (ss_begin_ts s)"
  shows "keeps I (serve_lock_write E rq rs s st)"
proof (cases "addLock E (rq_key rq) (ss_begin_ts s) st")
  case (Ret r st1)
  note same = addLock_same_trans [of st "rq_key rq" "ss_begin_ts s"]
    and kept = addLock_keeps [OF assms(1), of "rq_key rq" "ss_begin_ts s"]
  have "writer st1 (ss_begin_ts s)" and "I st1"
    using writer_locks [OF assms(2) same] kept by (simp_all add: Ret)
  with Ret show ?thesis
    by (auto simp: serve_lock_write_def intro!: keeps_bind write_held dest: addLock_held)
next
  case (Abort c st1)
  with addLock_keeps [OF assms(1), of "rq_key rq" "ss_begin_ts s"] show ?thesis
    by (simp add: serve_lock_write_def)
qed

lemma serve_write_keeps:
  "I st \<Longrightarrow> (ss_begin_ts s \<noteq> [] \<Longrightarrow> writer st (ss_begin_ts s)) \<Longrightarrow> keeps I (serve_write E rq rs s st)"
  by (auto simp: serve_write_def intro: serve_lock_write_keeps)

lemma serve_trans_state_state: "state_of (serve_trans_state E tq s st) = st"
  by (auto simp: serve_trans_state_def parsed_eq Let_def split: prod.splits fetched.splits)

text \<open>
  A prepare: the record is voted and stamped together, or the process dies between the writes.
\<close>

lemma stamp_runs:
  assumes "fetch_Trans E st ts = Found t" and "trans_state t = TransStatePrepared"
  shows "\<exists>r st'. updateTransSelfCommitTs E ts now st = Ret r st'"
  using assms by (cases "put_Trans E st ts (t\<lparr>trans_self_commit_ts := now\<rparr>)")
    (simp add: updateTransSelfCommitTs_eq)

lemma prepare_writes:
  assumes I: "I st" and ends: "ends ts" and legal: "legal rq" "rq_begin_ts rq = ts" and now: "now \<noteq> []"
    and call: "updateTransPrepared E ts rq st = Ret 0 st1"
  shows "\<exists>r st2. updateTransSelfCommitTs E ts now st1 = Ret r st2 \<and> I st2"
proof -
  note I = I ends
  note e1 = updateTransPrepared_effect [OF call]
  from e1 obtain t where t: "fetch_Trans E st ts = Found t" "trans_state t = TransStateBegin"
    and set1: "trans_set E st st1 ts (prepared_record (self_hash_id st) rq t)"
    by (auto simp: trans_set_def)
  then obtain r st2 where R: "updateTransSelfCommitTs E ts now st1 = Ret r st2"
    using stamp_runs [of st1 ts "prepared_record (self_hash_id st) rq t" now]
    by (auto simp: trans_set_def prepared_record_def)
  note e2 = updateTransSelfCommitTs_effect [OF R]
  have "I st2" if "r = 0"
  proof (rule vote [OF I t legal now])
    show "trans_set E st st2 ts (stamped now (prepared_record (self_hash_id st) rq t))"
      using set1 e2(1) e2(2) [OF that] trans_frame_trans by (auto simp: trans_set_def stamped_def)
  qed
  with R vote_failed [OF I t legal set1 R] show ?thesis by auto
qed

lemma serve_prepare_keeps:
  assumes I: "I st" and legal: "legal rq" and now: "now \<noteq> []"
    and ends: "ss_begin_ts s \<noteq> [] \<Longrightarrow> ends (ss_begin_ts s)"
  shows "keeps I (serve_prepare E now rq rs s st)"
proof (cases "ss_begin_ts s = [] \<or> ss_begin_ts s \<noteq> rq_begin_ts rq")
  case True
  then show ?thesis using I by (auto simp: serve_prepare_def)
next
  case False
  let ?ts = "ss_begin_ts s"
  from False have ts: "?ts \<noteq> []" "rq_begin_ts rq = ?ts" by auto
  show ?thesis
  proof (cases "updateTransPrepared E ?ts rq st")
    case (Abort c st1)
    then have "st1 = st"
      by (auto simp: updateTransPrepared_eq split: fetched.splits if_splits prod.splits)
    with Abort I ts show ?thesis by (simp add: serve_prepare_def Let_def)
  next
    case (Ret r st1)
    note e1 = updateTransPrepared_effect [OF Ret]
    show ?thesis
    proof (cases "r = 0")
      case False
      from trans_frame_same [OF e1(1) e1(3) [OF False]] have "I st1" by (rule quiet [OF I])
      with Ret False ts show ?thesis by (simp add: serve_prepare_def Let_def)
    next
      case True
      from prepare_writes [OF I ends [OF ts(1)] legal ts(2) now] Ret True obtain r2 st2
        where "updateTransSelfCommitTs E ?ts now st1 = Ret r2 st2" and "I st2" by auto
      with Ret True ts show ?thesis
        using ends [OF ts(1)] by (auto simp: serve_prepare_def Let_def intro!: keeps_bind startCleanTrans_keeps)
    qed
  qed
qed

lemma serve_msg_keeps:
  assumes I: "I st" and now: "now \<noteq> []"
    and legal: "rq_request_type (mutable_rpc_request m) = Req_Type_Prepare
      \<Longrightarrow> legal (mutable_rpc_request m)"
    and call: "serve_msg E now m s st = Some r"
    and session: "ss_begin_ts s \<noteq> [] \<Longrightarrow> writer st (ss_begin_ts s)"
      "ss_begin_ts s \<noteq> [] \<Longrightarrow> ends (ss_begin_ts s)"
  shows "keeps I r"
proof (cases "msg_msg_type m")
  case MSG_Type_Rpc_Request
  then show ?thesis
    using call legal I now session
    by (cases "rq_request_type (mutable_rpc_request m)")
      (auto simp: serve_msg_def Let_def serve_commit_def simp del: mutable_rpc_request.simps
        intro: serve_begin_keeps serve_prepare_keeps serve_get_keeps serve_write_keeps)
next
  case MSG_Type_TransState_Request
  then show ?thesis
    using call I serve_trans_state_state [of "mutable_trans_state_request m" s st]
    by (auto simp: serve_msg_def keeps_def simp del: mutable_trans_state_request.simps)
qed (use call I in \<open>auto simp: serve_msg_def\<close>)

lemma serve_timeout_keeps:
  "I st \<Longrightarrow> serve_timeout E now s st = Some r \<Longrightarrow> writer st (ss_begin_ts s) \<Longrightarrow> keeps I r"
  by (auto simp: serve_timeout_def split: session_pc.splits wait_at.splits
      intro: serve_lock_get_keeps serve_read_keeps serve_lock_write_keeps)

lemma serve_event_keeps: "I st \<Longrightarrow> keeps I (serve_event s st)"
  by (auto simp: serve_event_def split: session_pc.splits)

lemma serve_close_keeps:
  "I st \<Longrightarrow> (ss_begin_ts s \<noteq> [] \<Longrightarrow> ends (ss_begin_ts s)) \<Longrightarrow> keeps I (serve_close E now s st)"
  by (auto simp: serve_close_def intro: startCleanTrans_keeps)

subsection \<open>Starting up\<close>

text \<open>
  The loop works on the values its iterator's snapshot holds; the entries still to come are the
  ones in the database, because a turn writes its own key only.
\<close>

lemma startUpClean_turn_keeps:
  assumes I: "I st" and ends: "ends ts" and G: "Get_db E st (makeTrans ts) = (kOk, v)"
  shows "keeps I (startUpClean_turn E (prepare_resume E now) (makeTrans ts) v st)"
proof (cases "decode E (pb_Trans E) Trans_init v")
  case (Found t)
  with G have f: "fetch_Trans E st ts = Found t" by (simp add: fetch_Trans_def fetch_def)
  show ?thesis
  proof (cases "trans_state t")
    case TransStateBegin
    obtain s st' where p: "put_Trans E st ts (t\<lparr>trans_state := TransStateRollback\<rparr>) = (s, st')"
      by fastforce
    have "I st'"
      using put_Trans_set [OF p] abort_open [OF I ends f TransStateBegin] quiet [OF I]
      by (auto split: if_splits)
    with p TransStateBegin Found show ?thesis
      by (simp add: startUpClean_turn_def parsed_eq put_Trans_def)
  next
    case TransStatePrepared
    with Found have "startUpClean_turn E (prepare_resume E now) (makeTrans ts) v st
        = startCleanTrans E (prepare_resume E now) ts st"
      by (simp add: startUpClean_turn_def parsed_eq)
    with startCleanTrans_keeps [OF I ends] show ?thesis by simp
  qed (use I Found in \<open>simp_all add: startUpClean_turn_def parsed_eq\<close>)
qed (use I in \<open>simp_all add: startUpClean_turn_def parsed_eq\<close>)

lemma startUpClean_loop_keeps:
  assumes "I st" and "snapshot E iter st" and ends: "\<And>ts. ends ts"
  shows "keeps I (startUpClean_loop E (prepare_resume E now) iter st)"
  using assms(1,2)
proof (induction iter arbitrary: st)
  case Nil
  then show ?case by simp
next
  case (Cons kv iter)
  obtain key v where kv: "kv = (key, v)" by fastforce
  note snap = Cons.prems(2) [unfolded kv]
  show ?case
  proof (cases "prefix (makeTrans []) key")
    case True
    then obtain ts where ts: "key = makeTrans ts" using makeTrans_cases by blast
    note turn = startUpClean_turn_keeps [OF Cons.prems(1) ends snapshot_head [OF snap [unfolded ts]], of now]
    have "keeps I (startUpClean_loop E (prepare_resume E now) iter st1)"
      if "startUpClean_turn E (prepare_resume E now) key v st = Ret a st1" "I st1" for a st1
      by (rule Cons.IH [OF that(2) snapshot_tail [OF snap _ that(1)]]) (simp add: ts only_key_turn)
    with turn True show ?thesis by (auto simp: kv ts intro!: keeps_bind)
  qed (use Cons.prems(1) in \<open>simp add: kv\<close>)
qed

lemma startUpClean_keeps:
  assumes "I st" and ends: "\<And>ts. ends ts"
  shows "keeps I (startUpClean E (prepare_resume E now) st)"
  unfolding startUpClean_def by (rule startUpClean_loop_keeps [OF assms(1) snapshot_start ends])

end

section \<open>Answers\<close>

text \<open>
  What an invariant needs of the answers the resolvers get: \<open>true_answer st rv r\<close> says that \<open>r\<close> is
  an answer the host with index \<open>rv_i\<close> has given.
\<close>

definition note_state :: "TransState \<Rightarrow> resolving \<Rightarrow> resolving" where
  "note_state s rv = rv\<lparr>rv_trans := (rv_trans rv)\<lparr>trans_trans_list :=
     (rv_list rv)[rv_i rv := (rv_list rv ! rv_i rv)\<lparr>tl_state := s\<rparr>]\<rparr>\<rparr>"

definition pass_host :: "resolving \<Rightarrow> resolving" where
  "pass_host rv = rv\<lparr>rv_i := Suc (rv_i rv)\<rparr>"

definition count_host :: "TransStateRes \<Rightarrow> resolving \<Rightarrow> resolving" where
  "count_host r rv = rv\<lparr>rv_i := Suc (rv_i rv),
     rv_nHasTransStatePrepared := rv_nHasTransStatePrepared rv + 1,
     rv_max_commit_ts := (if ts_commit_ts r > rv_max_commit_ts rv
                         then ts_commit_ts r else rv_max_commit_ts rv)\<rparr>"

lemma note_state_simps [simp]:
  "rv_i (note_state s rv) = rv_i rv" "rv_begin_ts (note_state s rv) = rv_begin_ts rv"
  "rv_max_commit_ts (note_state s rv) = rv_max_commit_ts rv"
  "rv_nHasTransStatePrepared (note_state s rv) = rv_nHasTransStatePrepared rv"
  "map tl_host (rv_list (note_state s rv)) = map tl_host (rv_list rv)"
  "length (rv_list (note_state s rv)) = length (rv_list rv)"
  "trans_self_commit_ts (rv_trans (note_state s rv)) = trans_self_commit_ts (rv_trans rv)"
  "trans_state (rv_trans (note_state s rv)) = trans_state (rv_trans rv)"
  by (simp_all add: note_state_def rv_list_def map_update list_update_same_conv)
    (cases "rv_i rv < length (trans_trans_list (rv_trans rv))",
      simp_all add: list_update_same_conv list_update_beyond)

locale answer_contract = node_contract E I Ev legal writer ends
  for E :: "('d, 'j) env" and I :: "'d node \<Rightarrow> bool" and Ev :: "'d node \<Rightarrow> resolving \<Rightarrow> bool"
    and legal :: "RpcReq \<Rightarrow> bool" and writer :: "'d node \<Rightarrow> string \<Rightarrow> bool" and ends :: "string \<Rightarrow> bool" +
  fixes true_answer :: "'d node \<Rightarrow> resolving \<Rightarrow> TransStateRes \<Rightarrow> bool"
  assumes passed: "I st \<Longrightarrow> Ev st rv \<Longrightarrow> rv_i rv < length (rv_list rv) \<Longrightarrow> Ev st (pass_host rv)"
    and noted: "I st \<Longrightarrow> Ev st rv \<Longrightarrow> rv_i rv < length (rv_list rv) \<Longrightarrow> Ev st (note_state s rv)"
    and noted_answer: "true_answer st rv r \<Longrightarrow> true_answer st (note_state s rv) r"
    and counted: "I st \<Longrightarrow> Ev st rv \<Longrightarrow> rv_i rv < length (rv_list rv) \<Longrightarrow> true_answer st rv r
      \<Longrightarrow> ts_trans_stat r = TransStatePrepared \<Longrightarrow> Ev st (count_host r rv)"
    and told_commited: "I st \<Longrightarrow> Ev st rv \<Longrightarrow> rv_i rv < length (rv_list rv) \<Longrightarrow> true_answer st rv r
      \<Longrightarrow> ts_trans_stat r = TransStateCommited
      \<Longrightarrow> trans_set E st st' (rv_begin_ts rv)
            ((rv_trans rv)\<lparr>trans_state := TransStateCommited, trans_commit_trans := ts_commit_ts r\<rparr>)
      \<Longrightarrow> I st'"
    and told_rollback: "I st \<Longrightarrow> Ev st rv \<Longrightarrow> rv_i rv < length (rv_list rv) \<Longrightarrow> true_answer st rv r
      \<Longrightarrow> ts_trans_stat r = TransStateRollback
      \<Longrightarrow> trans_set E st st' (rv_begin_ts rv) ((rv_trans rv)\<lparr>trans_state := TransStateRollback\<rparr>)
      \<Longrightarrow> I st'"
begin

lemma prepare_answer_keeps:
  assumes I: "I st" and ev: "Ev st rv" and i: "rv_i rv < length (rv_list rv)"
    and told: "\<And>r. res = Some r \<Longrightarrow> true_answer st rv r"
  shows "keeps I (prepare_answer E now t rv res st)"
proof (cases res)
  case None
  with prepare_next_keeps [OF I passed [OF I ev i]] show ?thesis
    by (simp add: prepare_answer_def pass_host_def)
next
  case (Some r)
  let ?rv = "note_state (ts_trans_stat r) rv"
  note ev' = noted [OF I ev i]
  have i': "rv_i ?rv < length (rv_list ?rv)" using i by simp
  have told': "true_answer st ?rv r" using noted_answer [OF told [OF Some]] by simp
  note pass = prepare_next_keeps [OF I passed [OF I ev' i'], of now t]
  note count = prepare_next_keeps [OF I counted [OF I ev' i' told'], of now t]
  note commits = save_and_end_keeps [OF I told_commited [OF I ev' i' told']]
  note rolls = save_and_end_keeps [OF I told_rollback [OF I ev' i' told']]
  have rv: "rv\<lparr>rv_trans := (rv_trans rv)\<lparr>trans_trans_list := (trans_trans_list (rv_trans rv))
      [rv_i rv := (trans_trans_list (rv_trans rv) ! rv_i rv)\<lparr>tl_state := ts_trans_stat r\<rparr>]\<rparr>\<rparr> = ?rv"
    by (simp add: note_state_def rv_list_def)
  show ?thesis
  proof (cases "ts_trans_stat r")
    case TransStateBegin
    with Some pass rv show ?thesis by (simp add: prepare_answer_def Let_def pass_host_def)
  next
    case TransStatePrepared
    with Some count rv show ?thesis
      by (simp add: prepare_answer_def Let_def count_host_def split: if_splits)
  next
    case TransStateCommited
    with Some commits rv I show ?thesis
      by (simp add: prepare_answer_def Let_def note_state_def rv_list_def)
  next
    case TransStateRollback
    with Some rolls rv show ?thesis
      by (simp add: prepare_answer_def Let_def note_state_def rv_list_def)
  qed
qed

end

end
