(* ===== verification/Cluster.thy ===== *)
theory Cluster
  imports Node_Contract
begin

text \<open>
  The storage servers of a cluster together: \<open>step\<close> is one segment of one coroutine of one server,
  a connection that opens or a server that dies or comes back. Messages other than the requests to
  prepare are arbitrary, answers to the resolvers arrive in any order and at any time, and every
  server may die between any two segments.
\<close>

section \<open>The state\<close>

text \<open>
  \<open>conns c h n\<close> is connection \<open>n\<close> of server \<open>h\<close>. \<open>sent\<close> collects the answers the servers have
  given about the state of a transaction: the server, the transaction, the answer.
\<close>

record 'd cluster =
  nodes :: "uint32 \<Rightarrow> 'd node"
  up :: "uint32 \<Rightarrow> bool"
  conns :: "uint32 \<Rightarrow> nat \<Rightarrow> session option"
  sent :: "(uint32 \<times> string \<times> TransStateRes) set"

definition set_node :: "uint32 \<Rightarrow> 'd node \<Rightarrow> 'd cluster \<Rightarrow> 'd cluster" where
  "set_node h st c = c\<lparr>nodes := (nodes c)(h := st)\<rparr>"

definition set_conn :: "uint32 \<Rightarrow> nat \<Rightarrow> session option \<Rightarrow> 'd cluster \<Rightarrow> 'd cluster" where
  "set_conn h n s c = c\<lparr>conns := (conns c)(h := (conns c h)(n := s))\<rparr>"

text \<open>A process that dies loses its connections; what it wrote stays.\<close>

definition set_down :: "uint32 \<Rightarrow> 'd cluster \<Rightarrow> 'd cluster" where
  "set_down h c = c\<lparr>up := (up c)(h := False), conns := (conns c)(h := Map.empty)\<rparr>"

text \<open>
  The volatile state \<open>main\<close> creates: 100 resolvers, each of which has put itself on the stack.
\<close>

definition boot :: "'d node \<Rightarrow> 'd node" where
  "boot st = st\<lparr>prepareTaskStack := rev [0..<100],
     node_tasks := (\<lambda>t. \<lparr>pt_begin_ts = [], pt_pc = (if t < 100 then Yielded else Ended)\<rparr>)\<rparr>"

section \<open>Segments\<close>

text \<open>What a finished segment of server \<open>h\<close> leaves: its result and state, or a dead process.\<close>

fun settle :: "uint32 \<Rightarrow> ('a, 'd node) outcome \<Rightarrow> ('a \<Rightarrow> 'd cluster \<Rightarrow> 'd cluster) \<Rightarrow> 'd cluster
    \<Rightarrow> 'd cluster" where
  "settle h (Ret a st) k c = k a (set_node h st c)"
| "settle h (Abort e st) k c = set_down h (set_node h st c)"

text \<open>A connection that leaves its loop cleans up after itself in the same segment.\<close>

definition hang_up :: "('d, 'j) env \<Rightarrow> string \<Rightarrow> (reply \<times> session, 'd node) outcome
    \<Rightarrow> (reply \<times> session option, 'd node) outcome" where
  "hang_up E now m = bind_out m (\<lambda>(r, s) st.
     if r = Hang_up then bind_out (serve_close E now s st) (\<lambda>_ st. Ret (r, None) st)
     else Ret (r, Some s) st)"

text \<open>The answer about a transaction that a reply to the request \<open>m\<close> gives.\<close>

definition told :: "uint32 \<Rightarrow> Msg \<Rightarrow> reply \<Rightarrow> (uint32 \<times> string \<times> TransStateRes) set" where
  "told h m r =
     (case r of
        Reply rep \<Rightarrow>
          if msg_msg_type rep = MSG_Type_TransState_Response
          then {(h, tq_begin_ts (mutable_trans_state_request m), mutable_trans_state_response rep)}
          else {}
      | _ \<Rightarrow> {})"

definition finish :: "uint32 \<Rightarrow> nat \<Rightarrow> Msg \<Rightarrow> reply \<times> session option \<Rightarrow> 'd cluster
    \<Rightarrow> 'd cluster" where
  "finish h n m r c =
     (set_conn h n (snd r) c)\<lparr>sent := sent c \<union> told h m (fst r)\<rparr>"

text \<open>
  A request to prepare names the participants of its transaction: every coordinator sends the one
  list \<open>plan ts\<close>.
\<close>

definition planned :: "(string \<Rightarrow> Host list) \<Rightarrow> uint32 \<Rightarrow> RpcReq \<Rightarrow> bool" where
  "planned plan h rq \<longleftrightarrow> rq_trans_list rq = plan (rq_begin_ts rq)
     \<and> h \<in> hash_id ` set (plan (rq_begin_ts rq))"

section \<open>The steps\<close>

inductive step :: "('d, 'j) env \<Rightarrow> (string \<Rightarrow> Host list) \<Rightarrow> 'd cluster \<Rightarrow> 'd cluster \<Rightarrow> bool"
  for E plan where
  connect: "up c h \<Longrightarrow> conns c h n = None \<Longrightarrow> step E plan c (set_conn h n (Some session_init) c)"
| request: "up c h \<Longrightarrow> conns c h n = Some s \<Longrightarrow> ss_pc s = Reading
    \<Longrightarrow> (rq_request_type (mutable_rpc_request m) = Req_Type_Prepare
          \<Longrightarrow> planned plan h (mutable_rpc_request m))
    \<Longrightarrow> serve_msg E (GetTS sec usec) m s (nodes c h) = Some r
    \<Longrightarrow> step E plan c (settle h (hang_up E (GetTS sec usec) r) (finish h n m) c)"
| timeout: "up c h \<Longrightarrow> conns c h n = Some s \<Longrightarrow> ss_pc s \<noteq> Reading
    \<Longrightarrow> serve_timeout E (GetTS sec usec) s (nodes c h) = Some r
    \<Longrightarrow> step E plan c (settle h (hang_up E (GetTS sec usec) r) (finish h n Msg_init) c)"
| event: "up c h \<Longrightarrow> conns c h n = Some s \<Longrightarrow> ss_pc s \<noteq> Reading
    \<Longrightarrow> step E plan c (settle h (hang_up E (GetTS sec usec) (serve_event s (nodes c h)))
          (finish h n Msg_init) c)"
| close: "up c h \<Longrightarrow> conns c h n = Some s \<Longrightarrow> ss_pc s = Reading
    \<Longrightarrow> step E plan c (settle h (serve_close E (GetTS sec usec) s (nodes c h))
          (\<lambda>_. set_conn h n None) c)"
| answer: "up c h \<Longrightarrow> pt_pc (node_tasks (nodes c h) t) = Querying rv
    \<Longrightarrow> res = None \<or> (\<exists>a. res = Some a
          \<and> (hash_id (tl_host (rv_list rv ! rv_i rv)), rv_begin_ts rv, a) \<in> sent c)
    \<Longrightarrow> step E plan c (settle h (prepare_answer E (GetTS sec usec) t rv res (nodes c h))
          (\<lambda>_ c. c) c)"
| die: "up c h \<Longrightarrow> step E plan c (set_down h c)"
| restart: "\<not> up c h
    \<Longrightarrow> step E plan c (settle h
          (startUpClean E (prepare_resume E (GetTS sec usec)) (boot (nodes c h)))
          (\<lambda>_ c. c\<lparr>up := (up c)(h := True)\<rparr>) c)"

text \<open>The start: nothing runs, and no database holds a transaction.\<close>

definition initial :: "('d, 'j) env \<Rightarrow> 'd cluster \<Rightarrow> bool" where
  "initial E c \<longleftrightarrow> (\<forall>h. \<not> up c h \<and> conns c h = Map.empty \<and> self_hash_id (nodes c h) = h
     \<and> (\<forall>ts. fetch_Trans E (nodes c h) ts = Missing)) \<and> sent c = {}
     \<and> (\<forall>h t rv. pt_pc (node_tasks (nodes c h) t) \<noteq> Querying rv)"

inductive reachable :: "('d, 'j) env \<Rightarrow> (string \<Rightarrow> Host list) \<Rightarrow> 'd cluster \<Rightarrow> bool"
  for E plan where
  start: "initial E c \<Longrightarrow> reachable E plan c"
| more: "reachable E plan c \<Longrightarrow> step E plan c c' \<Longrightarrow> reachable E plan c'"

section \<open>One server at a time\<close>

lemma set_node_simps [simp]:
  "nodes (set_node h st c) h = st" "h' \<noteq> h \<Longrightarrow> nodes (set_node h st c) h' = nodes c h'"
  "up (set_node h st c) = up c" "conns (set_node h st c) = conns c"
  "sent (set_node h st c) = sent c" "set_node h st' (set_node h st c) = set_node h st' c"
  "set_node h (nodes c h) c = c"
  by (simp_all add: set_node_def)

lemma other_simps [simp]:
  "nodes (set_conn h n s c) = nodes c" "up (set_conn h n s c) = up c"
  "sent (set_conn h n s c) = sent c"
  "nodes (set_down h c) = nodes c" "sent (set_down h c) = sent c"
  by (simp_all add: set_conn_def set_down_def)

lemma nodes_set_node: "nodes (set_node h st c) h' = (if h' = h then st else nodes c h')"
  by simp

lemma nodes_settle:
  assumes "\<And>a c. nodes (k a c) = nodes c"
  shows "nodes (settle h m k c) g = (if g = h then state_of m else nodes c g)"
  by (cases m) (simp_all add: assms nodes_set_node)

lemma conns_settle_other:
  assumes "\<And>a c. conns (k a c) g m = conns c g m" and "conns (settle h r k c) g m = Some s'"
  shows "conns c g m = Some s'"
  using assms by (cases r) (auto simp: set_down_def split: if_splits)

lemma nodes_finish [simp]: "nodes (finish h n m r c) = nodes c"
  by (simp add: finish_def)

lemma same_store_boot: "same_store E st (boot st)"
  by (simp add: same_store_def same_trans_def boot_def fetch_defs fetch_def Get_db_def)

text \<open>
  Only a message of another type makes a connection hang up, and it leaves the session alone. After a reply
  the connection reads again.
\<close>

definition stays_on :: "(reply \<times> session, 's) outcome \<Rightarrow> bool" where
  "stays_on m \<longleftrightarrow> (\<forall>rep s st. m = Ret (rep, s) st \<longrightarrow>
     (case rep of Reply _ \<Rightarrow> ss_pc s = Reading | Waits \<Rightarrow> True | Hang_up \<Rightarrow> False))"

lemma stays_on_simps [simp]:
  "stays_on (respond rs s st)" "stays_on (respond_err code e rs s st)" "stays_on (await w rq rs s st)"
  "stays_on (Abort c st)" "stays_on (Ret (Waits, s) st)" "\<not> stays_on (Ret (Hang_up, s) st)"
  "stays_on (Ret (Reply rep, s) st) \<longleftrightarrow> ss_pc s = Reading"
  by (simp_all add: stays_on_def respond_def respond_err_def await_def)

lemma stays_on_bind: "(\<And>a st. stays_on (k a st)) \<Longrightarrow> stays_on (bind_out m k)"
  by (cases m) simp_all

lemma serve_stays_on [simp]:
  "stays_on (serve_begin E rq rs s st)" "stays_on (serve_prepare E now rq rs s st)"
  "stays_on (serve_commit rs s st)" "stays_on (serve_lock_write E rq rs s st)"
  "stays_on (serve_write E rq rs s st)" "stays_on (serve_event s st)"
  "ss_pc s = Reading \<Longrightarrow> stays_on (serve_trans_state E tq s st)"
  by (auto simp: serve_begin_def serve_prepare_def serve_commit_def serve_lock_write_def serve_write_def
      serve_trans_state_def serve_event_def parsed_eq Let_def intro!: stays_on_bind
      split: prod.splits fetched.splits session_pc.splits)

lemma serve_read_stays_on:
  "serve_read E now rq rs s st = Some r \<Longrightarrow> stays_on r"
  "serve_lock_get E now rq rs s st = Some r \<Longrightarrow> stays_on r"
  "serve_get E now rq rs s st = Some r \<Longrightarrow> stays_on r"
proof -
  show read: "stays_on r" if "serve_read E now rq rs s st = Some r" for rs st r
    using that by (auto simp: serve_read_def Let_def intro!: stays_on_bind split: option.splits prod.splits)
  show lock: "stays_on r" if "serve_lock_get E now rq rs s st = Some r" for rs st r
    using that read by (auto simp: serve_lock_get_def split: outcome.splits if_splits)
  show "stays_on r" if "serve_get E now rq rs s st = Some r"
    using that read lock by (auto simp: serve_get_def Let_def split: if_splits)
qed

lemma serve_msg_stays_on:
  assumes "serve_msg E now m s st = Some r"
    and "msg_msg_type m \<in> {MSG_Type_Rpc_Request, MSG_Type_TransState_Request}" and "ss_pc s = Reading"
  shows "stays_on r"
  using assms serve_read_stays_on(3)
  by (auto simp: serve_msg_def Let_def simp del: mutable_rpc_request.simps
      mutable_trans_state_request.simps split: RequestType.splits)

lemma serve_msg_hangs_up:
  assumes "serve_msg E now m s st = Some (Ret (Hang_up, s') st')" and "ss_pc s = Reading"
  shows "s' = s \<and> st' = st"
proof -
  have "msg_msg_type m \<notin> {MSG_Type_Rpc_Request, MSG_Type_TransState_Request}"
    using serve_msg_stays_on [OF assms(1) _ assms(2)] by auto
  with assms(1) show ?thesis by (cases "msg_msg_type m") (simp_all add: serve_msg_def)
qed

lemma serve_timeout_stays_on: "serve_timeout E now s st = Some r \<Longrightarrow> ss_pc s \<noteq> Reading \<Longrightarrow> stays_on r"
  by (auto simp: serve_timeout_def dest: serve_read_stays_on split: session_pc.splits wait_at.splits)

text \<open>An invariant of one server that satisfies the contract is kept by every step of the cluster.\<close>

context answer_contract
begin

lemma hang_up_I:
  assumes "keeps I r" and "\<And>s st. r = Ret (Hang_up, s) st \<Longrightarrow> ss_begin_ts s \<noteq> [] \<Longrightarrow> ends (ss_begin_ts s)"
  shows "keeps I (hang_up E now r)"
  using assms by (cases r) (auto simp: hang_up_def intro!: keeps_bind serve_close_keeps)

lemma step_keeps:
  assumes "step E plan c c'" and I: "I (nodes c g)" and legal: "\<And>rq. planned plan g rq \<Longrightarrow> legal rq"
    and ev: "\<And>k rv. pt_pc (node_tasks (nodes c g) k) = Querying rv
      \<Longrightarrow> Ev (nodes c g) rv \<and> rv_i rv < length (rv_list rv)"
    and told: "\<And>k rv a. pt_pc (node_tasks (nodes c g) k) = Querying rv
      \<Longrightarrow> (hash_id (tl_host (rv_list rv ! rv_i rv)), rv_begin_ts rv, a) \<in> sent c
      \<Longrightarrow> true_answer (nodes c g) rv a"
    and session: "\<And>n s. conns c g n = Some s \<Longrightarrow> ss_begin_ts s \<noteq> [] \<or> ss_pc s \<noteq> Reading
      \<Longrightarrow> writer (nodes c g) (ss_begin_ts s) \<and> ends (ss_begin_ts s)"
    and start: "\<And>ts. \<not> up c g \<Longrightarrow> ends ts"
  shows "I (nodes c' g)"
proof -
  have settled: "I (nodes (settle h m k c) g)"
    if "\<And>a c. nodes (k a c) = nodes c" "h = g \<Longrightarrow> keeps I m"
    for h and m :: "('x, 'd node) outcome" and k
    using that I by (auto simp: nodes_settle keeps_def)
  show ?thesis using assms(1)
  proof cases
    case (request h n s m sec usec r)
    have "keeps I (hang_up E (GetTS sec usec) r)" if "h = g"
      using request that session [of n s]
      by (intro hang_up_I serve_msg_keeps [OF I GetTS_not_empty legal]) (auto dest: serve_msg_hangs_up)
    then show ?thesis unfolding request(1) by (intro settled) simp_all
  next
    case (timeout h n s sec usec r)
    have "keeps I (hang_up E (GetTS sec usec) r)" if "h = g"
      using timeout that session [of n s]
      by (intro hang_up_I serve_timeout_keeps [OF I]) (auto dest!: serve_timeout_stays_on)
    then show ?thesis unfolding timeout(1) by (intro settled) simp_all
  next
    case (event h n s sec usec)
    have "keeps I (hang_up E (GetTS sec usec) (serve_event s (nodes c g)))"
      by (intro hang_up_I serve_event_keeps [OF I]) (metis serve_stays_on(6) stays_on_simps(6))
    then show ?thesis unfolding event(1) by (intro settled) simp_all
  next
    case (close h n s sec usec)
    have "keeps I (serve_close E (GetTS sec usec) s (nodes c g))" if "h = g"
      using close that session [of n s] by (intro serve_close_keeps [OF I]) simp
    then show ?thesis unfolding close(1) by (intro settled) simp_all
  next
    case (answer h t rv res sec usec)
    have "keeps I (prepare_answer E (GetTS sec usec) t rv res (nodes c h))" if "h = g"
      using that answer(3,4) I ev told by (intro prepare_answer_keeps) auto
    then show ?thesis unfolding answer(1) by (intro settled) simp_all
  next
    case (restart h sec usec)
    have "I (boot (nodes c g))" by (rule quiet [OF I same_store_boot])
    with restart(2) start show ?thesis unfolding restart(1)
      by (intro settled) (auto intro: startUpClean_keeps)
  qed (use I in simp_all)
qed

end

end
