(* ===== verification/Runs.thy ===== *)
theory Runs
  imports Cluster "HOL-Library.Code_Target_Nat"
begin

text \<open>
  Runs of a cluster as values: a schedule lists the steps to take, and what it reaches is reachable.
  Two schedules of a small cluster over the in-memory database are evaluated: one commits, one rolls
  back. The properties of the protocol are applied to them.
\<close>

section \<open>Schedules\<close>

text \<open>
  A step as a value, to run the cluster on a concrete schedule. \<open>perform\<close> is \<open>None\<close> where the step
  cannot be taken.
\<close>

datatype action =
    Connect uint32 nat
  | Request uint32 nat Msg nat nat
  | Timeout uint32 nat nat nat
  | Event uint32 nat nat nat
  | Close uint32 nat nat nat
  | Answer uint32 nat "TransStateRes option" nat nat
  | Die uint32
  | Restart uint32 nat nat

fun perform :: "('d, 'j) env \<Rightarrow> (string \<Rightarrow> Host list) \<Rightarrow> action \<Rightarrow> 'd cluster \<Rightarrow> 'd cluster option" where
  "perform E plan (Connect h n) c =
     (if up c h \<and> conns c h n = None then Some (set_conn h n (Some session_init) c) else None)"
| "perform E plan (Request h n m sec usec) c =
     (case conns c h n of
        None \<Rightarrow> None
      | Some s \<Rightarrow>
          if up c h \<and> ss_pc s = Reading
             \<and> (rq_request_type (mutable_rpc_request m) = Req_Type_Prepare
                  \<longrightarrow> planned plan h (mutable_rpc_request m))
          then map_option (\<lambda>r. settle h (hang_up E (GetTS sec usec) r) (finish h n m) c)
                 (serve_msg E (GetTS sec usec) m s (nodes c h))
          else None)"
| "perform E plan (Timeout h n sec usec) c =
     (case conns c h n of
        None \<Rightarrow> None
      | Some s \<Rightarrow>
          if up c h \<and> ss_pc s \<noteq> Reading
          then map_option (\<lambda>r. settle h (hang_up E (GetTS sec usec) r) (finish h n Msg_init) c)
                 (serve_timeout E (GetTS sec usec) s (nodes c h))
          else None)"
| "perform E plan (Event h n sec usec) c =
     (case conns c h n of
        None \<Rightarrow> None
      | Some s \<Rightarrow>
          if up c h \<and> ss_pc s \<noteq> Reading
          then Some (settle h (hang_up E (GetTS sec usec) (serve_event s (nodes c h)))
                 (finish h n Msg_init) c)
          else None)"
| "perform E plan (Close h n sec usec) c =
     (case conns c h n of
        None \<Rightarrow> None
      | Some s \<Rightarrow>
          if up c h \<and> ss_pc s = Reading
          then Some (settle h (serve_close E (GetTS sec usec) s (nodes c h))
                 (\<lambda>_. set_conn h n None) c)
          else None)"
| "perform E plan (Answer h t res sec usec) c =
     (case pt_pc (node_tasks (nodes c h) t) of
        Querying rv \<Rightarrow>
          if up c h \<and> (case res of None \<Rightarrow> True
               | Some a \<Rightarrow> (hash_id (tl_host (rv_list rv ! rv_i rv)), rv_begin_ts rv, a) \<in> sent c)
          then Some (settle h (prepare_answer E (GetTS sec usec) t rv res (nodes c h)) (\<lambda>_ c. c) c)
          else None
      | _ \<Rightarrow> None)"
| "perform E plan (Die h) c = (if up c h then Some (set_down h c) else None)"
| "perform E plan (Restart h sec usec) c =
     (if up c h then None
      else Some (settle h (startUpClean E (prepare_resume E (GetTS sec usec)) (boot (nodes c h)))
             (\<lambda>_ c. c\<lparr>up := (up c)(h := True)\<rparr>) c))"

fun schedule :: "('d, 'j) env \<Rightarrow> (string \<Rightarrow> Host list) \<Rightarrow> action list \<Rightarrow> 'd cluster \<Rightarrow> 'd cluster option"
  where
  "schedule E plan [] c = Some c"
| "schedule E plan (a # as) c = Option.bind (perform E plan a c) (schedule E plan as)"

lemma perform_step: "perform E plan a c = Some c' \<Longrightarrow> step E plan c c'"
  by (cases a) (auto intro: step.intros simp del: mutable_rpc_request.simps
      split: option.splits if_splits prepare_pc.splits)

lemma schedule_reachable:
  "schedule E plan as c = Some c' \<Longrightarrow> reachable E plan c \<Longrightarrow> reachable E plan c'"
  by (induction as arbitrary: c) (auto split: Option.bind_splits dest!: perform_step
      intro: reachable.more)

section \<open>A small cluster\<close>

text \<open>
  Servers 1 and 2 over the in-memory database; transaction \<open>ts9\<close> has both of them as
  participants.
\<close>

definition demo_hosts :: "Host list" where
  "demo_hosts = [\<lparr>hash_id = 1, host_name = ''a'', host_port = 1\<rparr>,
                 \<lparr>hash_id = 2, host_name = ''b'', host_port = 2\<rparr>]"

definition demo_plan :: "string \<Rightarrow> Host list" where
  "demo_plan ts = (if ts = ''ts9'' then demo_hosts else [])"

definition demo_cluster :: "mem cluster" where
  "demo_cluster = \<lparr>nodes = (\<lambda>h. \<lparr>db = RBT.empty, prepareTaskStack = [], self_hash_id = h,
       node_tasks = (\<lambda>_. \<lparr>pt_begin_ts = [], pt_pc = Ended\<rparr>)\<rparr>),
     up = (\<lambda>_. False), conns = (\<lambda>_. Map.empty), sent = {}\<rparr>"

lemma demo_cluster_initial: "initial mem_env demo_cluster"
  by (simp add: initial_def demo_cluster_def fetch_Trans_def fetch_def Get_db_def mem_env_def)

definition rpc_request :: "RpcReq \<Rightarrow> Msg" where
  "rpc_request rq = Msg_init\<lparr>msg_content := Rpc_request rq\<rparr>"

definition ask :: "string \<Rightarrow> Msg" where
  "ask ts = Msg_init\<lparr>msg_msg_type := MSG_Type_TransState_Request,
     msg_content := Trans_state_request (TransStateReq_init\<lparr>tq_begin_ts := ts\<rparr>)\<rparr>"

definition begin_at :: "uint32 \<Rightarrow> action list" where
  "begin_at h = [Restart h 0 0, Connect h 0,
     Request h 0 (rpc_request (RpcReq_init\<lparr>rq_begin_ts := ''ts9''\<rparr>)) 0 0]"

definition prepare_at :: "uint32 \<Rightarrow> nat \<Rightarrow> action" where
  "prepare_at h usec = Request h 0 (rpc_request (RpcReq_init\<lparr>rq_request_type := Req_Type_Prepare,
     rq_begin_ts := ''ts9'', rq_start_ts := ''ts95'', rq_trans_list := demo_hosts\<rparr>)) 0 usec"

text \<open>The state of \<open>ts9\<close> on a server and the number of participants its record lists.\<close>

definition state_at :: "mem cluster \<Rightarrow> uint32 \<Rightarrow> (TransState \<times> nat) option" where
  "state_at c h = (case fetch_Trans mem_env (nodes c h) ''ts9'' of
     Found t \<Rightarrow> Some (trans_state t, length (trans_trans_list t)) | _ \<Rightarrow> None)"

definition said :: "TransState \<Rightarrow> string \<Rightarrow> TransStateRes option" where
  "said s ts = Some (TransStateRes_init\<lparr>ts_trans_stat := s, ts_commit_ts := ts\<rparr>)"

text \<open>Both servers prepare; server 1 asks server 2 and commits.\<close>

definition demo_prepared :: "action list" where
  "demo_prepared = begin_at 1 @ begin_at 2 @ [prepare_at 1 3, prepare_at 2 4, Connect 2 1,
     Request 2 1 (ask ''ts9'') 0 5]"

definition demo_decide :: "action list" where
  "demo_decide = [Answer 1 99 (said TransStatePrepared ''ts4'') 0 6]"

text \<open>Server 1 prepares, server 2 loses its connection first; server 1 asks and rolls back.\<close>

definition demo_rollback :: "action list" where
  "demo_rollback = begin_at 1 @ begin_at 2 @ [prepare_at 1 3, Close 2 0 0 4, Connect 2 1,
     Request 2 1 (ask ''ts9'') 0 5,
     Answer 1 99 (said TransStateRollback []) 0 6]"

definition states :: "mem cluster option \<Rightarrow> ((TransState \<times> nat) option \<times> (TransState \<times> nat) option) option"
  where
  "states r = map_option (\<lambda>c. (state_at c 1, state_at c 2)) r"

lemma demo_prepared_runs:
  "states (schedule mem_env demo_plan demo_prepared demo_cluster)
   = Some (Some (TransStatePrepared, 2), Some (TransStatePrepared, 2))"
  by code_simp

lemma demo_commit_runs:
  "states (schedule mem_env demo_plan (demo_prepared @ demo_decide) demo_cluster)
   = Some (Some (TransStateCommited, 2), Some (TransStatePrepared, 2))"
  by code_simp

lemma demo_rollback_runs:
  "states (schedule mem_env demo_plan demo_rollback demo_cluster)
   = Some (Some (TransStateRollback, 2), Some (TransStateRollback, 0))"
  by code_simp

lemma schedule_append:
  "schedule E plan (as @ bs) c = Option.bind (schedule E plan as c) (schedule E plan bs)"
  by (induction as arbitrary: c) (auto split: Option.bind_splits)

lemma state_at_eq:
  "state_at c h = Some (s, n) \<longleftrightarrow> (\<exists>t. fetch_Trans mem_env (nodes c h) ''ts9'' = Found t
     \<and> trans_state t = s \<and> length (trans_trans_list t) = n)"
  by (auto simp: state_at_def split: fetched.splits)

lemma schedule_states:
  assumes "states (schedule mem_env demo_plan as demo_cluster) = Some (Some (s1, n1), Some (s2, n2))"
  obtains c t1 t2 where "schedule mem_env demo_plan as demo_cluster = Some c"
    "reachable mem_env demo_plan c"
    "fetch_Trans mem_env (nodes c 1) ''ts9'' = Found t1" "trans_state t1 = s1"
    "length (trans_trans_list t1) = n1"
    "fetch_Trans mem_env (nodes c 2) ''ts9'' = Found t2" "trans_state t2 = s2"
    "length (trans_trans_list t2) = n2"
proof -
  from assms obtain c where c: "schedule mem_env demo_plan as demo_cluster = Some c"
    and "state_at c 1 = Some (s1, n1)" "state_at c 2 = Some (s2, n2)" by (auto simp: states_def)
  moreover have "reachable mem_env demo_plan c"
    by (rule schedule_reachable [OF c reachable.start [OF demo_cluster_initial]])
  ultimately show thesis using that by (auto simp: state_at_eq)
qed

text \<open>The last step of the commit: server 1 goes from prepared to committed.\<close>

lemma demo_commit_step:
  obtains c c' t where "reachable mem_env demo_plan c" "step mem_env demo_plan c c'"
    "fetch_Trans mem_env (nodes c 1) ''ts9'' = Found t" "trans_state t = TransStatePrepared"
proof -
  obtain c t where c: "schedule mem_env demo_plan demo_prepared demo_cluster = Some c"
    "reachable mem_env demo_plan c"
    "fetch_Trans mem_env (nodes c 1) ''ts9'' = Found t" "trans_state t = TransStatePrepared"
    using demo_prepared_runs by (rule schedule_states)
  obtain c' where "schedule mem_env demo_plan (demo_prepared @ demo_decide) demo_cluster = Some c'"
    using demo_commit_runs by (rule schedule_states)
  with c(1) have "schedule mem_env demo_plan demo_decide c = Some c'"
    by (simp add: schedule_append)
  then have "step mem_env demo_plan c c'"
    by (auto simp: demo_decide_def split: Option.bind_splits dest!: perform_step simp del: perform.simps)
  with c show thesis using that by blast
qed

text \<open>There the resolver of server 1 waits for server 2, whose answer has been given.\<close>

lemma demo_prepared_waits:
  obtains c rv where "reachable mem_env demo_plan c"
    "pt_pc (node_tasks (nodes c 1) 99) = Querying rv"
    "\<And>a. said TransStatePrepared ''ts4'' = Some a \<Longrightarrow>
      (hash_id (tl_host (rv_list rv ! rv_i rv)), rv_begin_ts rv, a) \<in> sent c"
proof -
  obtain c where c: "schedule mem_env demo_plan demo_prepared demo_cluster = Some c"
    "reachable mem_env demo_plan c"
    using demo_prepared_runs by (rule schedule_states)
  obtain c' where "schedule mem_env demo_plan (demo_prepared @ demo_decide) demo_cluster = Some c'"
    using demo_commit_runs by (rule schedule_states)
  with c(1) have "perform mem_env demo_plan
      (Answer 1 99 (said TransStatePrepared ''ts4'') 0 6) c = Some c'"
    by (auto simp: schedule_append demo_decide_def split: Option.bind_splits simp del: perform.simps)
  with c(2) that show thesis by (auto split: prepare_pc.splits if_splits option.splits)
qed

text \<open>Server 2 asks in its turn and is told of the commit.\<close>

definition demo_both :: "action list" where
  "demo_both = demo_prepared @ demo_decide @ [Connect 1 1, Request 1 1 (ask ''ts9'') 0 7,
     Answer 2 99 (said TransStateCommited ''ts4'') 0 8]"

lemma demo_both_runs:
  "states (schedule mem_env demo_plan demo_both demo_cluster)
   = Some (Some (TransStateCommited, 2), Some (TransStateCommited, 2))"
  by code_simp

text \<open>A transaction inserts a key and holds its lock while another connection opens.\<close>

definition demo_insert :: "action list" where
  "demo_insert = begin_at 1 @ [Request 1 0 (rpc_request (RpcReq_init\<lparr>
     rq_request_type := Req_Type_Insert, rq_key := ''k'', rq_value := ''v''\<rparr>)) 0 0]"

lemma demo_insert_runs:
  "map_option (\<lambda>c. (fetch_Lock mem_env (nodes c 1) ''k'', state_at c 1))
     (schedule mem_env demo_plan demo_insert demo_cluster)
   = Some (Found \<lparr>lock_trans = ''ts9''\<rparr>, Some (TransStateBegin, 0))"
  by code_simp

lemma demo_lock_step:
  obtains c c' where "reachable mem_env demo_plan c" "step mem_env demo_plan c c'"
    "fetch_Lock mem_env (nodes c 1) ''k'' = Found \<lparr>lock_trans = ''ts9''\<rparr>"
    "fetch_Trans mem_env (nodes c' 1) ''ts9'' = fetch_Trans mem_env (nodes c 1) ''ts9''"
    "\<exists>t. fetch_Trans mem_env (nodes c' 1) ''ts9'' = Found t \<and> trans_state t = TransStateBegin"
proof -
  obtain c where c: "schedule mem_env demo_plan demo_insert demo_cluster = Some c"
    and l: "fetch_Lock mem_env (nodes c 1) ''k'' = Found \<lparr>lock_trans = ''ts9''\<rparr>"
    and t: "state_at c 1 = Some (TransStateBegin, 0)"
    using demo_insert_runs by auto
  have r: "reachable mem_env demo_plan c"
    by (rule schedule_reachable [OF c reachable.start [OF demo_cluster_initial]])
  show thesis
  proof (cases "up c 1")
    case True
    then have "step mem_env demo_plan c (set_down 1 c)" by (rule step.die)
    with that [OF r this] l t show thesis by (auto simp: state_at_eq)
  next
    case False
    have "schedule mem_env demo_plan (demo_insert @ [Die 1]) demo_cluster \<noteq> None" by code_simp
    with c False show thesis by (simp add: schedule_append)
  qed
qed

text \<open>The store of \<open>Mem_Env\<close> as the state of a server.\<close>

definition demo_node :: "mem node" where
  "demo_node = Storage.extend demo \<lparr>node_tasks = (\<lambda>_. \<lparr>pt_begin_ts = [], pt_pc = Ended\<rparr>)\<rparr>"

lemma fetch_extend: "fetch E c m0 (Storage.extend st z) key = fetch E c m0 st key"
  by (simp add: fetch_def Get_db_def Storage.extend_def)

end
