(* ===== verification/TwoPhase.thy ===== *)
theory TwoPhase
  imports Runs
begin

text \<open>
  The commit protocol: what the records of a transaction on the different servers say of each
  other, that every segment keeps it, and that no two participants decide differently.
\<close>

section \<open>What the records say\<close>

text \<open>
  A server has voted when its record is prepared or carries the list of participants; it has
  refused when it rolled back without a vote.
\<close>

definition has_voted :: "Trans \<Rightarrow> bool" where
  "has_voted t \<longleftrightarrow> trans_trans_list t \<noteq> []
     \<or> trans_state t = TransStatePrepared \<or> trans_state t = TransStateCommited"

definition voted :: "('d, 'j) env \<Rightarrow> 'd cluster \<Rightarrow> uint32 \<Rightarrow> string \<Rightarrow> bool" where
  "voted E c h ts \<longleftrightarrow> (\<exists>t. fetch_Trans E (nodes c h) ts = Found t \<and> has_voted t)"

definition refused :: "('d, 'j) env \<Rightarrow> 'd cluster \<Rightarrow> uint32 \<Rightarrow> string \<Rightarrow> bool" where
  "refused E c h ts \<longleftrightarrow> (\<exists>t. fetch_Trans E (nodes c h) ts = Found t
     \<and> trans_state t = TransStateRollback \<and> trans_trans_list t = [])"

definition parts :: "(string \<Rightarrow> Host list) \<Rightarrow> string \<Rightarrow> uint32 set" where
  "parts plan ts = hash_id ` set (plan ts)"

definition all_voted :: "('d, 'j) env \<Rightarrow> (string \<Rightarrow> Host list) \<Rightarrow> 'd cluster \<Rightarrow> string \<Rightarrow> bool" where
  "all_voted E plan c ts \<longleftrightarrow> (\<forall>p\<in>parts plan ts. voted E c p ts)"

definition some_refused :: "('d, 'j) env \<Rightarrow> (string \<Rightarrow> Host list) \<Rightarrow> 'd cluster \<Rightarrow> string \<Rightarrow> bool"
  where
  "some_refused E plan c ts \<longleftrightarrow> (\<exists>p\<in>parts plan ts. refused E c p ts)"

text \<open>A record, an answer and a resolver's evidence, each against the other servers' records.\<close>

definition record_ok :: "('d, 'j) env \<Rightarrow> (string \<Rightarrow> Host list) \<Rightarrow> 'd cluster \<Rightarrow> string \<Rightarrow> Trans \<Rightarrow> bool"
  where
  "record_ok E plan c ts t \<longleftrightarrow>
     (trans_trans_list t \<noteq> [] \<or> has_voted t \<longrightarrow> map tl_host (trans_trans_list t) = plan ts)
     \<and> (case trans_state t of
          TransStateBegin \<Rightarrow> trans_trans_list t = []
        | TransStatePrepared \<Rightarrow> True
        | TransStateCommited \<Rightarrow> all_voted E plan c ts
        | TransStateRollback \<Rightarrow> trans_trans_list t \<noteq> [] \<longrightarrow> some_refused E plan c ts)"

definition answer_ok :: "('d, 'j) env \<Rightarrow> (string \<Rightarrow> Host list) \<Rightarrow> 'd cluster \<Rightarrow> uint32 \<Rightarrow> string
    \<Rightarrow> TransState \<Rightarrow> bool" where
  "answer_ok E plan c h ts s \<longleftrightarrow>
     (case s of
        TransStateBegin \<Rightarrow> True
      | TransStatePrepared \<Rightarrow> voted E c h ts
      | TransStateCommited \<Rightarrow> all_voted E plan c ts
      | TransStateRollback \<Rightarrow> refused E c h ts \<or> some_refused E plan c ts)"

definition evidence :: "('d, 'j) env \<Rightarrow> (string \<Rightarrow> Host list) \<Rightarrow> 'd cluster \<Rightarrow> uint32 \<Rightarrow> resolving
    \<Rightarrow> bool" where
  "evidence E plan c h rv \<longleftrightarrow>
     map tl_host (rv_list rv) = plan (rv_begin_ts rv) \<and> voted E c h (rv_begin_ts rv)
     \<and> rv_i rv \<le> length (rv_list rv)
     \<and> (\<exists>C\<subseteq>{..<rv_i rv}. rv_nHasTransStatePrepared rv = int (card C)
          \<and> (\<forall>j\<in>C. voted E c (hash_id (plan (rv_begin_ts rv) ! j)) (rv_begin_ts rv)))"

text \<open>The invariant of the cluster, and what one server's state is after another of the same.\<close>

definition protocol_inv :: "('d, 'j) env \<Rightarrow> (string \<Rightarrow> Host list) \<Rightarrow> 'd cluster \<Rightarrow> bool" where
  "protocol_inv E plan c \<longleftrightarrow>
     (\<forall>h. self_hash_id (nodes c h) = h)
     \<and> (\<forall>h ts t. fetch_Trans E (nodes c h) ts = Found t \<longrightarrow> record_ok E plan c ts t)
     \<and> (\<forall>h k rv. pt_pc (node_tasks (nodes c h) k) = Querying rv \<longrightarrow>
          evidence E plan c h rv \<and> rv_i rv < length (rv_list rv))
     \<and> (\<forall>(h, ts, r)\<in>sent c. answer_ok E plan c h ts (ts_trans_stat r))"

definition advances :: "Trans \<Rightarrow> Trans \<Rightarrow> bool" where
  "advances t t' \<longleftrightarrow> trans_state t \<le> trans_state t'
     \<and> (trans_state t = TransStateCommited \<longrightarrow> trans_state t' = TransStateCommited)"

definition progress :: "('d, 'j) env \<Rightarrow> 'd node \<Rightarrow> 'd node \<Rightarrow> bool" where
  "progress E st st' \<longleftrightarrow> (\<forall>ts t. fetch_Trans E st ts = Found t \<longrightarrow>
     (\<exists>t'. fetch_Trans E st' ts = Found t' \<and> advances t t'))"

section \<open>Votes and refusals last\<close>

lemma advances_refl [simp]: "advances t t"
  by (simp add: advances_def)

lemma advances_trans: "advances t t' \<Longrightarrow> advances t' t'' \<Longrightarrow> advances t t''"
  by (auto simp: advances_def)

lemma progress_refl [simp]: "progress E st st"
  by (simp add: progress_def)

lemma progress_trans: "progress E st st1 \<Longrightarrow> progress E st1 st2 \<Longrightarrow> progress E st st2"
  unfolding progress_def by (metis advances_trans)

text \<open>The records of a cluster after a change of one server.\<close>

definition lasting :: "('d, 'j) env \<Rightarrow> 'd cluster \<Rightarrow> 'd cluster \<Rightarrow> bool" where
  "lasting E c c' \<longleftrightarrow> (\<forall>h ts. (voted E c h ts \<longrightarrow> voted E c' h ts)
     \<and> (refused E c h ts \<longrightarrow> refused E c' h ts))"

lemma lasting_sets:
  assumes "lasting E c c'"
  shows "all_voted E plan c ts \<Longrightarrow> all_voted E plan c' ts"
    and "some_refused E plan c ts \<Longrightarrow> some_refused E plan c' ts"
  using assms by (auto simp: lasting_def all_voted_def some_refused_def)

lemma record_ok_lasting:
  "record_ok E plan c ts t \<Longrightarrow> lasting E c c' \<Longrightarrow> record_ok E plan c' ts t"
  by (auto simp: record_ok_def dest: lasting_sets split: TransState.splits)

lemma answer_ok_lasting:
  "answer_ok E plan c h ts s \<Longrightarrow> lasting E c c' \<Longrightarrow> answer_ok E plan c' h ts s"
  using lasting_sets [of E c c'] by (auto simp: answer_ok_def lasting_def split: TransState.splits)

lemma evidence_lasting:
  "evidence E plan c h rv \<Longrightarrow> lasting E c c' \<Longrightarrow> evidence E plan c' h rv"
  unfolding evidence_def lasting_def by metis

lemma refused_not_voted: "refused E c h ts \<Longrightarrow> \<not> voted E c h ts"
  by (auto simp: refused_def voted_def has_voted_def)

lemma not_both: "all_voted E plan c ts \<Longrightarrow> \<not> some_refused E plan c ts"
  unfolding all_voted_def some_refused_def by (meson refused_not_voted)

lemma voted_set_node:
  "voted E (set_node h st c) p ts \<longleftrightarrow>
     (if p = h then \<exists>t. fetch_Trans E st ts = Found t \<and> has_voted t else voted E c p ts)"
  "refused E (set_node h st c) p ts \<longleftrightarrow>
     (if p = h then \<exists>t. fetch_Trans E st ts = Found t \<and> trans_state t = TransStateRollback
        \<and> trans_trans_list t = [] else refused E c p ts)"
  by (simp_all add: voted_def refused_def nodes_set_node)

lemma lasting_same:
  "same_trans E st st' \<Longrightarrow> lasting E (set_node h st c) (set_node h st' c)"
  by (simp add: lasting_def voted_set_node same_trans_def)

text \<open>A record that changes keeps a vote or a refusal the server has given.\<close>

lemma lasting_set:
  assumes "trans_set E st st' ts t'"
    and "\<And>t. fetch_Trans E st ts = Found t \<Longrightarrow> has_voted t \<Longrightarrow> has_voted t'"
    and "\<not> refused E (set_node h st c) h ts"
  shows "lasting E (set_node h st c) (set_node h st' c)"
proof -
  have "fetch_Trans E st' u = (if u = ts then Found t' else fetch_Trans E st u)" for u
    using assms(1) by (simp add: trans_set_def trans_frame_def)
  with assms(2,3) show ?thesis by (auto simp: lasting_def voted_set_node)
qed

section \<open>One change of one server\<close>

lemma inv_quiet:
  assumes "protocol_inv E plan (set_node h st c)" and "same_trans E st st'"
  shows "protocol_inv E plan (set_node h st' c)"
proof -
  note l = lasting_same [OF assms(2), of h c]
  have f: "fetch_Trans E (nodes (set_node h st' c) g) ts = fetch_Trans E (nodes (set_node h st c) g) ts"
    and s: "self_hash_id (nodes (set_node h st' c) g) = self_hash_id (nodes (set_node h st c) g)"
    and q: "pt_pc (node_tasks (nodes (set_node h st' c) g) k) = Querying rv
      \<Longrightarrow> pt_pc (node_tasks (nodes (set_node h st c) g) k) = Querying rv" for g ts k rv
    using assms(2) by (auto simp: nodes_set_node same_trans_def split: if_splits)
  from assms(1) show ?thesis
    unfolding protocol_inv_def
    using f s q record_ok_lasting [OF _ l] answer_ok_lasting [OF _ l] evidence_lasting [OF _ l]
    by fastforce
qed

text \<open>A record that changes, its new contents justified, and the other servers unaffected.\<close>

lemma inv_set:
  assumes inv: "protocol_inv E plan (set_node h st c)" and set: "trans_set E st st' ts t'"
    and l: "lasting E (set_node h st c) (set_node h st' c)"
    and ok: "record_ok E plan (set_node h st' c) ts t'"
  shows "protocol_inv E plan (set_node h st' c)"
proof -
  have "node_tasks st' = node_tasks st"
    using set by (intro node_tasks_more) (simp add: trans_set_def trans_frame_def)
  moreover have "self_hash_id st' = self_hash_id st"
    using set by (simp add: trans_set_def trans_frame_def)
  ultimately have s: "self_hash_id (nodes (set_node h st' c) g) = self_hash_id (nodes (set_node h st c) g)"
    and q: "node_tasks (nodes (set_node h st' c) g) = node_tasks (nodes (set_node h st c) g)" for g
    by (simp_all add: nodes_set_node)
  have f: "fetch_Trans E (nodes (set_node h st' c) g) u
      = (if g = h \<and> u = ts then Found t' else fetch_Trans E (nodes (set_node h st c) g) u)" for g u
    using set by (simp add: nodes_set_node trans_set_def trans_frame_def)
  have "record_ok E plan (set_node h st' c) u t"
    if "fetch_Trans E (nodes (set_node h st' c) g) u = Found t" for g u t
  proof (cases "g = h \<and> u = ts")
    case True
    then have "Found t' = Found t" using that f [of g u] by metis
    with True ok show ?thesis by simp
  next
    case False
    with that f inv have "record_ok E plan (set_node h st c) u t"
      unfolding protocol_inv_def by metis
    then show ?thesis using l by (rule record_ok_lasting)
  qed
  with inv show ?thesis
    unfolding protocol_inv_def s q
    using answer_ok_lasting [OF _ l] evidence_lasting [OF _ l] by fastforce
qed

lemma progress_set:
  assumes "trans_set E st st' ts t'" and "\<And>t. fetch_Trans E st ts = Found t \<Longrightarrow> advances t t'"
  shows "progress E st st'"
proof -
  have "fetch_Trans E st' u = (if u = ts then Found t' else fetch_Trans E st u)" for u
    using assms(1) by (simp add: trans_set_def trans_frame_def)
  with assms(2) show ?thesis by (simp add: progress_def)
qed

section \<open>The contract of one server among the others\<close>

text \<open>
  For a server \<open>h\<close> of the cluster \<open>c\<close> in its state \<open>st\<close>: the invariant with the other servers as
  they are in \<open>c\<close>, together with the progress from the state \<open>h\<close> has in \<open>c\<close>.
\<close>

definition node_inv :: "('d, 'j) env \<Rightarrow> (string \<Rightarrow> Host list) \<Rightarrow> 'd cluster \<Rightarrow> uint32 \<Rightarrow> 'd node
    \<Rightarrow> bool" where
  "node_inv E plan c h st \<longleftrightarrow>
     protocol_inv E plan (set_node h st c) \<and> progress E (nodes c h) st"

definition node_ev :: "('d, 'j) env \<Rightarrow> (string \<Rightarrow> Host list) \<Rightarrow> 'd cluster \<Rightarrow> uint32 \<Rightarrow> 'd node
    \<Rightarrow> resolving \<Rightarrow> bool" where
  "node_ev E plan c h st rv \<longleftrightarrow> evidence E plan (set_node h st c) h rv"

definition node_answer :: "('d, 'j) env \<Rightarrow> (string \<Rightarrow> Host list) \<Rightarrow> 'd cluster \<Rightarrow> uint32 \<Rightarrow> 'd node
    \<Rightarrow> resolving \<Rightarrow> TransStateRes \<Rightarrow> bool" where
  "node_answer E plan c h st rv r \<longleftrightarrow>
     answer_ok E plan (set_node h st c) (hash_id (plan (rv_begin_ts rv) ! rv_i rv))
       (rv_begin_ts rv) (ts_trans_stat r)"

lemma node_inv_self: "node_inv E plan c h st \<Longrightarrow> self_hash_id st = h"
  unfolding node_inv_def protocol_inv_def using set_node_simps(1) by metis

lemma node_inv_record:
  "node_inv E plan c h st \<Longrightarrow> fetch_Trans E st ts = Found t \<Longrightarrow>
     record_ok E plan (set_node h st c) ts t"
  unfolding node_inv_def protocol_inv_def using set_node_simps(1) by metis

lemma node_inv_set:
  assumes I: "node_inv E plan c h st" and set: "trans_set E st st' ts t'"
    and vote: "\<And>t. fetch_Trans E st ts = Found t \<Longrightarrow> has_voted t \<Longrightarrow> has_voted t'"
    and ref: "\<not> refused E (set_node h st c) h ts"
    and ok: "lasting E (set_node h st c) (set_node h st' c)
      \<Longrightarrow> record_ok E plan (set_node h st' c) ts t'"
    and adv: "\<And>t. fetch_Trans E st ts = Found t \<Longrightarrow> advances t t'"
  shows "node_inv E plan c h st'"
proof -
  have l: "lasting E (set_node h st c) (set_node h st' c)"
    by (rule lasting_set [OF set _ ref]) (rule vote)
  have p: "progress E st st'" by (rule progress_set [OF set]) (rule adv)
  from I inv_set [OF _ set l ok [OF l]] p show ?thesis
    unfolding node_inv_def by (blast intro: progress_trans)
qed

lemma node_quiet:
  assumes "node_inv E plan c h st" and "same_trans E st st'"
  shows "node_inv E plan c h st'"
proof -
  have "progress E st st'" using assms(2) by (simp add: progress_def same_trans_def)
  with assms inv_quiet show ?thesis unfolding node_inv_def by (blast intro: progress_trans)
qed

lemma node_create:
  assumes "node_inv E plan c h st" and "fetch_Trans E st ts = Missing"
    and "trans_set E st st' ts Trans_init"
  shows "node_inv E plan c h st'"
  using assms(2) by (intro node_inv_set [OF assms(1,3)])
    (simp_all add: voted_set_node record_ok_def Trans_init_def has_voted_def)

lemma node_open:
  assumes "node_inv E plan c h st" and "fetch_Trans E st ts = Found t"
    and "trans_state t = TransStateBegin"
  shows "trans_trans_list t = []" and "\<not> has_voted t" and "\<not> refused E (set_node h st c) h ts"
  using node_inv_record [OF assms(1,2)] assms(2,3)
  by (auto simp: record_ok_def has_voted_def voted_set_node)

lemma node_vote:
  assumes I: "node_inv E plan c h st" and f: "fetch_Trans E st ts = Found t"
    and b: "trans_state t = TransStateBegin" and set: "trans_set E st st' ts t'"
    and t': "trans_state t' = TransStatePrepared" "map tl_host (trans_trans_list t') = plan ts"
  shows "node_inv E plan c h st'"
  using f b t' by (intro node_inv_set [OF I set _ node_open(3) [OF I f b]])
    (auto simp: record_ok_def has_voted_def advances_def less_eq_TransState_def)

lemma node_abort_open:
  assumes I: "node_inv E plan c h st" and f: "fetch_Trans E st ts = Found t"
    and b: "trans_state t = TransStateBegin"
    and set: "trans_set E st st' ts (t\<lparr>trans_state := TransStateRollback\<rparr>)"
  shows "node_inv E plan c h st'"
  using f b node_open(1,2) [OF I f b]
  by (intro node_inv_set [OF I set _ node_open(3) [OF I f b]])
    (auto simp: record_ok_def has_voted_def advances_def less_eq_TransState_def)

text \<open>A voted record that is decided, with the reason for the decision.\<close>

lemma node_decide:
  assumes I: "node_inv E plan c h st" and v: "voted E (set_node h st c) h ts"
    and set: "trans_set E st st' ts t'" and hosts: "map tl_host (trans_trans_list t') = plan ts"
    and why: "trans_state t' = TransStateCommited \<and> all_voted E plan (set_node h st c) ts
      \<or> trans_state t' = TransStateRollback \<and> some_refused E plan (set_node h st c) ts"
  shows "node_inv E plan c h st'"
proof (rule node_inv_set [OF I set _ _ _])
  have "plan ts \<noteq> []" if "some_refused E plan (set_node h st c) ts"
    using that by (auto simp: some_refused_def parts_def)
  with hosts why show "has_voted t'" by (auto simp: has_voted_def)
  show "\<not> refused E (set_node h st c) h ts" using v by (metis refused_not_voted)
  show "record_ok E plan (set_node h st' c) ts t'"
    if "lasting E (set_node h st c) (set_node h st' c)"
    using why hosts lasting_sets [OF that] by (auto simp: record_ok_def)
  show "advances t t'" if f: "fetch_Trans E st ts = Found t" for t
  proof -
    from v f have "has_voted t" by (simp add: voted_set_node)
    with node_inv_record [OF I f] have "(trans_state t = TransStateCommited \<longrightarrow>
        all_voted E plan (set_node h st c) ts) \<and> (trans_state t = TransStateRollback \<longrightarrow>
        some_refused E plan (set_node h st c) ts)"
      by (auto simp: record_ok_def has_voted_def)
    with why not_both show ?thesis
      by (cases "trans_state t") (auto simp: advances_def less_eq_TransState_def)
  qed
qed

subsection \<open>The resolver's evidence\<close>

lemma node_start:
  assumes "node_inv E plan c h st" and "fetch_Trans E st ts = Found t"
    and "trans_state t = TransStatePrepared"
  shows "node_ev E plan c h st (first_round now ts t)"
  using node_inv_record [OF assms(1,2)] assms(2,3)
  by (auto simp: node_ev_def evidence_def first_round_def rv_list_def record_ok_def has_voted_def
      voted_set_node)

lemma node_again: "node_ev E plan c h st rv \<Longrightarrow> node_ev E plan c h st (next_round now rv)"
  by (auto simp: node_ev_def evidence_def next_round_def rv_list_def)

text \<open>One more host passed, counted or not.\<close>

lemma evidence_passed:
  assumes "evidence E plan c h rv" and "rv_i rv < length (rv_list rv)"
  shows "evidence E plan c h (rv\<lparr>rv_i := Suc (rv_i rv)\<rparr>)"
  using assms unfolding evidence_def rv_list_def
  by simp (meson lessThan_subset_iff less_imp_le subset_trans le_less lessI)

lemma evidence_counted:
  assumes "evidence E plan c h rv" and i: "rv_i rv < length (rv_list rv)"
    and v: "voted E c (hash_id (plan (rv_begin_ts rv) ! rv_i rv)) (rv_begin_ts rv)"
  shows "evidence E plan c h (rv\<lparr>rv_i := Suc (rv_i rv),
    rv_nHasTransStatePrepared := rv_nHasTransStatePrepared rv + 1, rv_max_commit_ts := m\<rparr>)"
proof -
  from assms(1) obtain C where C: "C \<subseteq> {..<rv_i rv}" "rv_nHasTransStatePrepared rv = int (card C)"
    "\<forall>j\<in>C. voted E c (hash_id (plan (rv_begin_ts rv) ! j)) (rv_begin_ts rv)"
    by (auto simp: evidence_def)
  from C(1) have "finite C" "rv_i rv \<notin> C" by (auto intro: finite_subset)
  with C v have "insert (rv_i rv) C \<subseteq> {..<Suc (rv_i rv)}
      \<and> rv_nHasTransStatePrepared rv + 1 = int (card (insert (rv_i rv) C))
      \<and> (\<forall>j\<in>insert (rv_i rv) C. voted E c (hash_id (plan (rv_begin_ts rv) ! j)) (rv_begin_ts rv))"
    by (auto simp: less_Suc_eq)
  with assms(1) i show ?thesis by (auto simp: evidence_def rv_list_def intro!: exI [of _ "insert (rv_i rv) C"])
qed

lemma evidence_host:
  assumes "evidence E plan c h rv" and "rv_i rv < length (rv_list rv)"
  shows "tl_host (rv_list rv ! rv_i rv) = plan (rv_begin_ts rv) ! rv_i rv"
    and "hash_id (plan (rv_begin_ts rv) ! rv_i rv) \<in> parts plan (rv_begin_ts rv)"
proof -
  have hosts: "map tl_host (rv_list rv) = plan (rv_begin_ts rv)" using assms(1) by (simp add: evidence_def)
  then show "tl_host (rv_list rv ! rv_i rv) = plan (rv_begin_ts rv) ! rv_i rv"
    using assms(2) by (metis nth_map)
  show "hash_id (plan (rv_begin_ts rv) ! rv_i rv) \<in> parts plan (rv_begin_ts rv)"
    using assms(2) by (simp add: parts_def hosts [symmetric] del: image_set)
qed

text \<open>A full count is everybody's vote.\<close>

lemma evidence_full:
  assumes "evidence E plan c h rv" and "rv_i rv = length (rv_list rv)"
    and "rv_nHasTransStatePrepared rv = int (length (rv_list rv))"
  shows "all_voted E plan c (rv_begin_ts rv)"
proof -
  from assms obtain C where C: "C \<subseteq> {..<rv_i rv}" "card C = rv_i rv"
    and v: "\<forall>j\<in>C. voted E c (hash_id (plan (rv_begin_ts rv) ! j)) (rv_begin_ts rv)"
    by (auto simp: evidence_def)
  have "C = {..<rv_i rv}" using C by (intro card_subset_eq) simp_all
  moreover have "length (plan (rv_begin_ts rv)) = rv_i rv"
    using assms(1,2) by (metis evidence_def length_map)
  ultimately show ?thesis using v by (auto simp: all_voted_def parts_def in_set_conv_nth)
qed

section \<open>Every segment keeps the protocol's invariant\<close>

text \<open>The list a prepared record carries is the one of the request.\<close>

lemma hosts_prepared_record:
  "trans_trans_list t = [] \<Longrightarrow>
     map tl_host (trans_trans_list (prepared_record self rq t)) = rq_trans_list rq"
  by (simp add: prepared_record_def participants_def o_def)

lemma prepared_record_state [simp]:
  "trans_state (prepared_record self rq t) = TransStatePrepared"
  "trans_state (stamped now t) = trans_state t" "trans_trans_list (stamped now t) = trans_trans_list t"
  by (simp_all add: prepared_record_def stamped_def)

lemma node_voted:
  assumes I: "node_inv E plan c h st" and f: "fetch_Trans E st ts = Found t"
    and b: "trans_state t = TransStateBegin" and legal: "planned plan h rq" "rq_begin_ts rq = ts"
    and set: "trans_set E st st' ts t'"
    and t': "t' = prepared_record (self_hash_id st) rq t
      \<or> t' = stamped now (prepared_record (self_hash_id st) rq t)"
  shows "node_inv E plan c h st'"
  using t' node_open(1) [OF I f b] legal
  by (intro node_vote [OF I f b set]) (auto simp: planned_def hosts_prepared_record)

lemma stamp_failed_same:
  assumes "store_env E" and "updateTransSelfCommitTs E ts now st = Ret r st'" and "r \<noteq> 0"
  shows "same_store E st st'"
  using store_env.updateTransSelfCommitTs_effect [OF assms(1,2)] assms(3)
  by (intro trans_frame_same) auto

lemma node_wait:
  assumes I: "node_inv E plan c h st" and ev: "node_ev E plan c h st rv"
    and i: "rv_i rv < length (rv_list rv)"
  shows "node_inv E plan c h (set_pc task (Querying rv) st)"
proof -
  let ?st = "set_pc task (Querying rv) st"
  let ?c = "set_node h st c" and ?c' = "set_node h ?st c"
  have f: "fetch_Trans E ?st ts = fetch_Trans E st ts" for ts by (simp add: fetch_Trans_def)
  have l: "lasting E ?c ?c'" by (simp add: lasting_def voted_set_node f)
  from I have inv: "protocol_inv E plan ?c" by (simp add: node_inv_def)
  have same: "fetch_Trans E (nodes ?c' g) ts = fetch_Trans E (nodes ?c g) ts"
      "self_hash_id (nodes ?c' g) = self_hash_id (nodes ?c g)" for g ts
    by (simp_all add: nodes_set_node f)
  have q: "evidence E plan ?c' g rv' \<and> rv_i rv' < length (rv_list rv')"
    if "pt_pc (node_tasks (nodes ?c' g) k) = Querying rv'" for g k rv'
  proof (cases "g = h \<and> rv' = rv")
    case True
    with ev i evidence_lasting [OF _ l] show ?thesis by (simp add: node_ev_def)
  next
    case False
    with that have "pt_pc (node_tasks (nodes ?c g) k) = Querying rv'"
      by (auto simp: nodes_set_node set_pc_def split: if_splits)
    with inv evidence_lasting [OF _ l] show ?thesis unfolding protocol_inv_def by blast
  qed
  have "protocol_inv E plan ?c'"
    unfolding protocol_inv_def same
  proof (intro conjI allI impI)
    show "self_hash_id (nodes ?c g) = g" for g using inv by (simp add: protocol_inv_def)
    show "record_ok E plan ?c' ts t" if "fetch_Trans E (nodes ?c g) ts = Found t" for g ts t
      using inv that record_ok_lasting [OF _ l] unfolding protocol_inv_def by blast
    show "\<forall>(g, ts, r)\<in>sent ?c'. answer_ok E plan ?c' g ts (ts_trans_stat r)"
      using inv answer_ok_lasting [OF _ l] unfolding protocol_inv_def by auto
  qed (use q in blast)+
  moreover have "progress E (nodes c h) ?st" using I by (simp add: node_inv_def progress_def f)
  ultimately show ?thesis by (simp add: node_inv_def)
qed

lemma node_noted: "node_ev E plan c h st rv \<Longrightarrow> node_ev E plan c h st (note_state s rv)"
  by (simp add: node_ev_def evidence_def)

lemma node_answer_noted: "node_answer E plan c h st (note_state s rv) r = node_answer E plan c h st rv r"
  by (simp add: node_answer_def)

lemma node_told:
  assumes I: "node_inv E plan c h st" and ev: "node_ev E plan c h st rv"
    and i: "rv_i rv < length (rv_list rv)" and told: "node_answer E plan c h st rv r"
    and set: "trans_set E st st' (rv_begin_ts rv) t'"
    and t': "trans_state t' = ts_trans_stat r" "trans_trans_list t' = rv_list rv"
    and s: "ts_trans_stat r = TransStateCommited \<or> ts_trans_stat r = TransStateRollback"
  shows "node_inv E plan c h st'"
proof (rule node_decide [OF I _ set])
  note ev' = ev [unfolded node_ev_def]
  show "voted E (set_node h st c) h (rv_begin_ts rv)"
    and "map tl_host (trans_trans_list t') = plan (rv_begin_ts rv)"
    using ev' by (simp_all add: evidence_def t')
  show "trans_state t' = TransStateCommited \<and> all_voted E plan (set_node h st c) (rv_begin_ts rv)
      \<or> trans_state t' = TransStateRollback \<and> some_refused E plan (set_node h st c) (rv_begin_ts rv)"
    using told s t'(1) evidence_host(2) [OF ev' i]
    by (auto simp: node_answer_def answer_ok_def some_refused_def)
qed

sublocale store_env \<subseteq> protocol: answer_contract E "node_inv E plan c h" "node_ev E plan c h"
  "planned plan h" "\<lambda>_ _. True" "\<lambda>_. True" "node_answer E plan c h"
  for plan :: "string \<Rightarrow> Host list" and c :: "'d cluster" and h
proof
  fix st st' :: "'d node" and ts and t and rq and st1 :: "'d node" and now and r and rv and task and s
    and a :: TransStateRes
  show "node_inv E plan c h st'" if "node_inv E plan c h st" "same_store E st st'"
    using that by (blast intro: node_quiet same_store_trans_part)
  show "node_inv E plan c h st'" if "node_inv E plan c h st"
    "put_Lock E st key \<lparr>lock_trans = ts\<rparr> = (s, st')" for key s
    using that by (blast intro: node_quiet put_same_trans)
  show "keeps (node_inv E plan c h) (addData E key val ts type st)" if "node_inv E plan c h st"
    for key val type
    unfolding keeps_def by (rule node_quiet [OF that addData_same])
  show "node_inv E plan c h st'" if "node_inv E plan c h st" "fetch_Trans E st ts = Missing"
    "trans_set E st st' ts Trans_init"
    using that by (rule node_create)
  show "node_inv E plan c h st'" if "node_inv E plan c h st" "fetch_Trans E st ts = Found t"
    "trans_state t = TransStateBegin" "planned plan h rq" "rq_begin_ts rq = ts"
    "trans_set E st st1 ts (prepared_record (self_hash_id st) rq t)"
    "updateTransSelfCommitTs E ts now st1 = Ret r st'" "r \<noteq> 0"
    using node_voted [OF that(1-6)] same_store_trans_part [OF stamp_failed_same [OF store_env_axioms that(7,8)]]
    by (blast intro: node_quiet)
  show "node_inv E plan c h st'" if "node_inv E plan c h st" "fetch_Trans E st ts = Found t"
    "trans_state t = TransStateBegin" "planned plan h rq" "rq_begin_ts rq = ts" "now \<noteq> []"
    "trans_set E st st' ts (stamped now (prepared_record (self_hash_id st) rq t))"
    using node_voted [OF that(1-5,7)] by blast
  show "node_inv E plan c h st'" if "node_inv E plan c h st" "fetch_Trans E st ts = Found t"
    "trans_state t = TransStateBegin" "trans_set E st st' ts (t\<lparr>trans_state := TransStateRollback\<rparr>)"
    using that by (rule node_abort_open)
  show "node_ev E plan c h st (first_round now ts t)" if "node_inv E plan c h st"
    "fetch_Trans E st ts = Found t" "trans_state t = TransStatePrepared"
    using that by (rule node_start)
  show "node_ev E plan c h st (next_round now rv)" if "node_ev E plan c h st rv"
    using that by (rule node_again)
  show "node_ev E plan c h st (rv\<lparr>rv_i := Suc (rv_i rv),
      rv_nHasTransStatePrepared := rv_nHasTransStatePrepared rv + 1\<rparr>)"
    if "node_inv E plan c h st" "node_ev E plan c h st rv" "rv_i rv < length (rv_list rv)"
      "hash_id (tl_host (rv_list rv ! rv_i rv)) = self_hash_id st"
    using evidence_counted [OF that(2) [unfolded node_ev_def] that(3), of "rv_max_commit_ts rv"]
      evidence_host(1) [OF that(2) [unfolded node_ev_def] that(3)] that(4) node_inv_self [OF that(1)]
      that(2) by (simp add: node_ev_def evidence_def)
  show "node_ev E plan c h st' rv" if "node_ev E plan c h st rv" "same_store E st st'"
    using that evidence_lasting lasting_same same_store_trans_part unfolding node_ev_def by blast
  show "node_inv E plan c h (set_pc task (Querying rv) st)"
    if "node_inv E plan c h st" "node_ev E plan c h st rv" "rv_i rv < length (rv_list rv)"
    using that by (rule node_wait)
  show "rv_i rv \<le> length (rv_list rv)" if "node_ev E plan c h st rv"
    using that by (simp add: node_ev_def evidence_def)
  show "node_inv E plan c h st'" if I: "node_inv E plan c h st" and ev: "node_ev E plan c h st rv"
    and "rv_i rv = length (rv_list rv)" "rv_nHasTransStatePrepared rv = int (length (rv_list rv))"
      "trans_set E st st' (rv_begin_ts rv) (committed rv)"
    using evidence_full [OF ev [unfolded node_ev_def] that(3,4)] ev
    by (intro node_decide [OF I _ that(5)])
      (simp_all add: node_ev_def evidence_def committed_def rv_list_def)
  show "node_ev E plan c h st (pass_host rv)" if "node_ev E plan c h st rv"
    "rv_i rv < length (rv_list rv)"
    using evidence_passed that by (simp add: node_ev_def pass_host_def)
  show "node_ev E plan c h st (note_state s rv)" if "node_ev E plan c h st rv"
    using that by (rule node_noted)
  show "node_answer E plan c h st (note_state s rv) a" if "node_answer E plan c h st rv a"
    using that by (simp add: node_answer_noted)
  show "node_ev E plan c h st (count_host a rv)" if "node_ev E plan c h st rv"
    "rv_i rv < length (rv_list rv)" "node_answer E plan c h st rv a"
    "ts_trans_stat a = TransStatePrepared"
    using that unfolding node_ev_def count_host_def
    by (intro evidence_counted) (simp_all add: node_answer_def answer_ok_def)
  show "node_inv E plan c h st'" if "node_inv E plan c h st" "node_ev E plan c h st rv"
    "rv_i rv < length (rv_list rv)" "node_answer E plan c h st rv a"
    "ts_trans_stat a = TransStateCommited" "trans_set E st st' (rv_begin_ts rv)
      ((rv_trans rv)\<lparr>trans_state := TransStateCommited, trans_commit_trans := ts_commit_ts a\<rparr>)"
    using that(5) by (intro node_told [OF that(1-4,6)]) (simp_all add: rv_list_def)
  show "node_inv E plan c h st'" if "node_inv E plan c h st" "node_ev E plan c h st rv"
    "rv_i rv < length (rv_list rv)" "node_answer E plan c h st rv a"
    "ts_trans_stat a = TransStateRollback" "trans_set E st st' (rv_begin_ts rv)
      ((rv_trans rv)\<lparr>trans_state := TransStateRollback\<rparr>)"
    using that(5) by (intro node_told [OF that(1-4,6)]) (simp_all add: rv_list_def)
qed

section \<open>Every step keeps it\<close>

text \<open>Only the answer to a question about a transaction is a message of that type.\<close>

definition says_rpc :: "(reply \<times> session, 's) outcome \<Rightarrow> bool" where
  "says_rpc m \<longleftrightarrow> (\<forall>rep s st. m = Ret (Reply rep, s) st \<longrightarrow> msg_msg_type rep = MSG_Type_Rpc_Response)"

lemma says_rpc_simps [simp]:
  "says_rpc (respond rs s st)" "says_rpc (respond_err code msg rs s st)"
  "says_rpc (await w rq rs s st)" "says_rpc (Abort c st)" "says_rpc (Ret (Waits, s) st)"
  "says_rpc (Ret (Hang_up, s) st)"
  by (simp_all add: says_rpc_def respond_def respond_err_def await_def rpc_msg_def)

lemma says_rpc_bind: "(\<And>a s. m = Ret a s \<Longrightarrow> says_rpc (k a s)) \<Longrightarrow> says_rpc (bind_out m k)"
  by (cases m) simp_all

lemma says_rpc_serve:
  "says_rpc (serve_begin E rq rs s st)" "says_rpc (serve_prepare E now rq rs s st)"
  "says_rpc (serve_commit rs s st)" "says_rpc (serve_lock_write E rq rs s st)"
  "says_rpc (serve_write E rq rs s st)" "says_rpc (serve_event s st)"
  by (auto simp: serve_begin_def serve_prepare_def serve_commit_def serve_lock_write_def
      serve_write_def serve_event_def Let_def intro!: says_rpc_bind split: session_pc.splits)

lemma says_rpc_read: "serve_read E now rq rs s st = Some r \<Longrightarrow> says_rpc r"
  by (auto simp: serve_read_def Let_def intro!: says_rpc_bind split: option.splits)

lemma says_rpc_lock_get: "serve_lock_get E now rq rs s st = Some r \<Longrightarrow> says_rpc r"
  by (auto simp: serve_lock_get_def intro: says_rpc_read split: outcome.splits if_splits)

lemma says_rpc_get: "serve_get E now rq rs s st = Some r \<Longrightarrow> says_rpc r"
  by (auto simp: serve_get_def Let_def intro: says_rpc_read says_rpc_lock_get split: if_splits)

lemma says_rpc_timeout: "serve_timeout E now s st = Some r \<Longrightarrow> says_rpc r"
  by (auto simp: serve_timeout_def intro: says_rpc_read says_rpc_lock_get says_rpc_serve
      split: session_pc.splits wait_at.splits)

lemma says_rpc_msg:
  assumes "serve_msg E now m s st = Some r" and "msg_msg_type m \<noteq> MSG_Type_TransState_Request"
  shows "says_rpc r"
  using assms
  by (cases "msg_msg_type m"; cases "rq_request_type (mutable_rpc_request m)")
    (auto simp: serve_msg_def Let_def says_rpc_serve simp del: mutable_rpc_request.simps
      intro: says_rpc_get)

lemma told_rpc: "msg_msg_type rep = MSG_Type_Rpc_Response \<Longrightarrow> told h m (Reply rep) = {}"
  by (simp add: told_def)

lemma told_other [simp]: "told h m Waits = {}" "told h m Hang_up = {}"
  by (simp_all add: told_def)

text \<open>What a server says of a transaction, against its record.\<close>

lemma serve_trans_state_told:
  assumes "serve_trans_state E tq s st = Ret (Reply rep, s') st'"
  shows "ts_trans_stat (mutable_trans_state_response rep) = TransStateBegin
    \<or> (\<exists>t. fetch_Trans E st (tq_begin_ts tq) = Found t
        \<and> ts_trans_stat (mutable_trans_state_response rep) = trans_state t
        \<and> (trans_state t = TransStatePrepared \<longrightarrow>
             ts_commit_ts (mutable_trans_state_response rep) = trans_self_commit_ts t)
        \<and> (trans_state t = TransStateCommited \<longrightarrow>
             ts_commit_ts (mutable_trans_state_response rep) = trans_commit_trans t))"
proof (cases rule: fetch_cases [where E = E and st = st and key = "makeTrans (tq_begin_ts tq)"
      and c = "pb_Trans E" and ?m0.0 = Trans_init])
  case (found v t)
  then have rep: "rep = trans_state_msg
      (let r = TransStateRes_init\<lparr>ts_result := 0, ts_trans_stat := trans_state t\<rparr>
       in if trans_state t = TransStatePrepared then r\<lparr>ts_commit_ts := trans_self_commit_ts t\<rparr>
          else if trans_state t = TransStateCommited then r\<lparr>ts_commit_ts := trans_commit_trans t\<rparr>
          else r)"
    using assms by (simp add: serve_trans_state_def Let_def parsed_eq)
  from found rep show ?thesis by (simp add: fetch_Trans_def trans_state_msg_def Let_def)
qed (use assms in \<open>auto simp: serve_trans_state_def Let_def parsed_eq trans_state_msg_def
      TransStateRes_init_def\<close>)

lemma answer_ok_record:
  assumes "protocol_inv E plan c" and "fetch_Trans E (nodes c h) ts = Found t"
  shows "answer_ok E plan c h ts (trans_state t)"
proof -
  have "record_ok E plan c ts t" using assms unfolding protocol_inv_def by metis
  with assms(2) show ?thesis
    by (cases "trans_state t") (auto simp: answer_ok_def record_ok_def voted_def refused_def has_voted_def)
qed

lemma told_reply:
  assumes "(g, ts, a) \<in> told h m rep"
  obtains msg where "rep = Reply msg" "msg_msg_type msg = MSG_Type_TransState_Response" "g = h"
    "ts = tq_begin_ts (mutable_trans_state_request m)" "a = mutable_trans_state_response msg"
  using assms that by (cases rep) (simp_all add: told_def split: if_splits
      del: mutable_trans_state_response.simps mutable_trans_state_request.simps)

lemma hang_up_reply:
  "hang_up E now r = Ret (Reply msg, s) st \<Longrightarrow> \<exists>s1. r = Ret (Reply msg, s1) st"
  by (cases r) (auto simp: hang_up_def bind_out_eq_Ret split: if_splits prod.splits)

lemma told_record:
  assumes call: "serve_msg E now m s st0 = Some r"
    and ret: "hang_up E now r = Ret (rep, s') st" and told: "(g, ts, a) \<in> told h m rep"
  shows "g = h \<and> st = st0 \<and> (ts_trans_stat a = TransStateBegin
    \<or> (\<exists>t. fetch_Trans E st0 ts = Found t \<and> ts_trans_stat a = trans_state t
        \<and> (trans_state t = TransStatePrepared \<longrightarrow> ts_commit_ts a = trans_self_commit_ts t)
        \<and> (trans_state t = TransStateCommited \<longrightarrow> ts_commit_ts a = trans_commit_trans t)))"
proof -
  from told obtain msg where msg: "rep = Reply msg"
    "msg_msg_type msg = MSG_Type_TransState_Response" "g = h"
    "ts = tq_begin_ts (mutable_trans_state_request m)" "a = mutable_trans_state_response msg"
    by (rule told_reply)
  with ret hang_up_reply obtain s1 where r: "r = Ret (Reply msg, s1) st" by blast
  have "msg_msg_type m = MSG_Type_TransState_Request"
    using says_rpc_msg [OF call] r msg(2) by (auto simp: says_rpc_def)
  with call r have run: "serve_trans_state E (mutable_trans_state_request m) s st0
      = Ret (Reply msg, s1) st"
    by (simp add: serve_msg_def Let_def del: mutable_trans_state_request.simps)
  have "state_of (serve_trans_state E (mutable_trans_state_request m) s st0) = st0"
    by (auto simp: serve_trans_state_def parsed_eq Let_def split: prod.splits fetched.splits)
  with run have "st = st0" by simp
  with serve_trans_state_told [OF run] show ?thesis unfolding msg by blast
qed

lemma told_ok:
  assumes inv: "protocol_inv E plan c" and call: "serve_msg E now m s (nodes c h) = Some r"
    and ret: "hang_up E now r = Ret (rep, s') st" and told: "(g, ts, a) \<in> told h m rep"
  shows "answer_ok E plan (set_node h st c) g ts (ts_trans_stat a)"
  using told_record [OF call ret told] answer_ok_record [OF inv]
  by (auto simp: answer_ok_def [of _ _ _ _ _ TransStateBegin])

text \<open>
  The next state of the whole cluster: the invariant, and on every server the progress from the
  state it had.
\<close>

definition next_ok :: "('d, 'j) env \<Rightarrow> (string \<Rightarrow> Host list) \<Rightarrow> 'd cluster \<Rightarrow> 'd cluster \<Rightarrow> bool" where
  "next_ok E plan c c' \<longleftrightarrow>
     protocol_inv E plan c' \<and> (\<forall>h. progress E (nodes c h) (nodes c' h))"

lemma nodes_only:
  assumes "nodes c' = nodes c"
  shows "record_ok E plan c' = record_ok E plan c" and "answer_ok E plan c' = answer_ok E plan c"
    and "evidence E plan c' = evidence E plan c"
proof -
  have "voted E c' = voted E c" "refused E c' = refused E c"
    by (simp_all add: assms voted_def refused_def fun_eq_iff)
  then show "record_ok E plan c' = record_ok E plan c" and "answer_ok E plan c' = answer_ok E plan c"
    and "evidence E plan c' = evidence E plan c"
    by (simp_all add: record_ok_def answer_ok_def evidence_def all_voted_def some_refused_def
        fun_eq_iff cong: TransState.case_cong)
qed

lemma protocol_inv_cong:
  "nodes c' = nodes c \<Longrightarrow> sent c' = sent c \<Longrightarrow> protocol_inv E plan c' = protocol_inv E plan c"
  by (simp add: protocol_inv_def nodes_only [of c' c])

lemma next_ok_cong:
  "nodes c2 = nodes c1 \<Longrightarrow> sent c2 = sent c1 \<Longrightarrow> next_ok E plan c c2 = next_ok E plan c c1"
  unfolding next_ok_def using protocol_inv_cong [of c2 c1 E plan] by simp

lemma next_ok_node:
  "node_inv E plan c h st \<Longrightarrow> next_ok E plan c (set_node h st c)"
  by (simp add: next_ok_def node_inv_def nodes_set_node)

lemma node_inv_now: "protocol_inv E plan c \<Longrightarrow> node_inv E plan c h (nodes c h)"
  by (simp add: node_inv_def)

lemma settle_next_ok:
  assumes "keeps (node_inv E plan c h) m"
    and "\<And>a st. m = Ret a st \<Longrightarrow> next_ok E plan c (set_node h st c)
      \<Longrightarrow> next_ok E plan c (k a (set_node h st c))"
  shows "next_ok E plan c (settle h m k c)"
  using assms by (cases m) (auto intro: next_ok_node simp: next_ok_cong [of "set_down h _"])

lemma finish_next_ok:
  assumes "next_ok E plan c c1"
    and "\<And>g ts a. (g, ts, a) \<in> told h m (fst r) \<Longrightarrow> answer_ok E plan c1 g ts (ts_trans_stat a)"
  shows "next_ok E plan c (finish h n m r c1)"
proof -
  let ?c = "c1\<lparr>sent := sent c1 \<union> told h m (fst r)\<rparr>"
  have "protocol_inv E plan ?c"
    using assms by (auto simp: next_ok_def protocol_inv_def nodes_only [of ?c c1])
  with assms(1) have "next_ok E plan c ?c" by (simp add: next_ok_def)
  then show ?thesis
    by (subst next_ok_cong [of _ ?c]) (simp_all add: finish_def set_conn_def)
qed

context store_env
begin

lemma hang_up_keeps:
  assumes "keeps (node_inv E plan c h) r"
  shows "keeps (node_inv E plan c h) (hang_up E now r)"
  by (intro protocol.hang_up_I assms TrueI)

lemma segment_next_ok:
  assumes "keeps (node_inv E plan c h) r"
    and "\<And>g ts a rep s st. hang_up E now r = Ret (rep, s) st \<Longrightarrow> (g, ts, a) \<in> told h m rep
      \<Longrightarrow> answer_ok E plan (set_node h st c) g ts (ts_trans_stat a)"
  shows "next_ok E plan c (settle h (hang_up E now r) (finish h n m) c)"
proof (rule settle_next_ok [OF hang_up_keeps [OF assms(1)]])
  show "next_ok E plan c (finish h n m x (set_node h st c))"
    if "hang_up E now r = Ret x st" "next_ok E plan c (set_node h st c)" for x st
    using that assms(2) [of "fst x" "snd x" st] by (intro finish_next_ok) auto
qed

lemma says_rpc_next_ok:
  assumes "keeps (node_inv E plan c h) r" and "says_rpc r"
  shows "next_ok E plan c (settle h (hang_up E now r) (finish h n m) c)"
proof (rule segment_next_ok [OF assms(1)])
  show "answer_ok E plan (set_node h st c) g ts (ts_trans_stat a)"
    if "hang_up E now r = Ret (rep, s) st" "(g, ts, a) \<in> told h m rep" for g ts a rep s st
  proof -
    from that(2) obtain msg where "rep = Reply msg"
      and type: "msg_msg_type msg = MSG_Type_TransState_Response"
      by (rule told_reply)
    with hang_up_reply that(1) obtain s1 where "r = Ret (Reply msg, s1) st" by blast
    with assms(2) type show ?thesis by (simp add: says_rpc_def)
  qed
qed

text \<open>Every step of the cluster keeps the invariant and only advances records.\<close>

lemma step_next_ok:
  assumes "step E plan c c'" and inv: "protocol_inv E plan c"
  shows "next_ok E plan c c'"
  using assms(1)
proof cases
  case (connect h n)
  with inv show ?thesis
    by (simp add: next_ok_def protocol_inv_cong [of "set_conn h n (Some session_init) c" c])
next
  case (request h n s m sec usec r)
  show ?thesis unfolding request(1)
  proof (rule segment_next_ok)
    show "keeps (node_inv E plan c h) r"
      by (rule protocol.serve_msg_keeps [OF node_inv_now [OF inv] GetTS_not_empty _ request(6)])
        (rule request(5), simp_all)
  qed (rule told_ok [OF inv request(6)])
next
  case (timeout h n s sec usec r)
  show ?thesis unfolding timeout(1)
    by (rule says_rpc_next_ok [OF protocol.serve_timeout_keeps [OF node_inv_now [OF inv]
          timeout(5) TrueI] says_rpc_timeout [OF timeout(5)]])
next
  case (event h n s sec usec)
  show ?thesis unfolding event(1)
    by (rule says_rpc_next_ok [OF protocol.serve_event_keeps [OF node_inv_now [OF inv]]
          says_rpc_serve(6)])
next
  case (close h n s sec usec)
  show ?thesis unfolding close(1)
    by (rule settle_next_ok [OF protocol.serve_close_keeps [OF node_inv_now [OF inv] TrueI]])
      (simp add: next_ok_cong [of "set_conn h n None _"])
next
  case (answer h t rv res sec usec)
  have q: "evidence E plan c h rv" "rv_i rv < length (rv_list rv)"
    using inv answer(3) unfolding protocol_inv_def by blast+
  have "keeps (node_inv E plan c h) (prepare_answer E (GetTS sec usec) t rv res (nodes c h))"
  proof (rule protocol.prepare_answer_keeps [OF node_inv_now [OF inv] _ q(2)])
    show "node_ev E plan c h (nodes c h) rv" using q by (simp add: node_ev_def)
    show "node_answer E plan c h (nodes c h) rv a" if "res = Some a" for a
      using that answer(4) inv evidence_host(1) [OF q]
      by (auto simp: node_answer_def protocol_inv_def)
  qed
  then show ?thesis unfolding answer(1) by (rule settle_next_ok) simp
next
  case (die h)
  with inv show ?thesis by (simp add: next_ok_def protocol_inv_cong [of "set_down h c" c])
next
  case (restart h sec usec)
  have "node_inv E plan c h (boot (nodes c h))"
    using protocol.quiet [OF node_inv_now [OF inv] same_store_boot] .
  from protocol.startUpClean_keeps [OF this TrueI] show ?thesis unfolding restart(1)
    by (rule settle_next_ok) (simp add: next_ok_cong [of "_\<lparr>up := _\<rparr>"])
qed

lemma initial_inv: "initial E c \<Longrightarrow> protocol_inv E plan c"
  by (simp add: initial_def protocol_inv_def)

lemma reachable_inv: "reachable E plan c \<Longrightarrow> protocol_inv E plan c"
  by (induction rule: reachable.induct) (auto intro: initial_inv dest: step_next_ok simp: next_ok_def)

end

text \<open>The contract of the servers of the small cluster.\<close>

interpretation demo_protocol: answer_contract mem_env "node_inv mem_env demo_plan c h"
  "node_ev mem_env demo_plan c h" "planned demo_plan h" "\<lambda>_ _. True" "\<lambda>_. True" 
  "node_answer mem_env demo_plan c h" for c h
  by unfold_locales

section \<open>Properties\<close>

lemma parts_demo [simp]: "parts demo_plan ''ts9'' = {1, 2}"
  by (simp add: parts_def demo_plan_def demo_hosts_def)

lemma reachable_record:
  assumes "store_env E" and "reachable E plan c" and "fetch_Trans E (nodes c h) ts = Found t"
  shows "record_ok E plan c ts t"
  using store_env.reachable_inv [OF assms(1,2)] assms(3) unfolding protocol_inv_def by blast

lemma committed_everywhere:
  assumes "store_env E" and "reachable E plan c"
    and "fetch_Trans E (nodes c g) ts = Found t" and "trans_state t = TransStateCommited"
    and "h \<in> hash_id ` set (plan ts)"
  shows "\<exists>u. fetch_Trans E (nodes c h) ts = Found u
    \<and> trans_state u \<in> {TransStatePrepared, TransStateCommited}
    \<and> map tl_host (trans_trans_list u) = plan ts"
proof -
  have all: "all_voted E plan c ts"
    using reachable_record [OF assms(1-3)] assms(4) by (simp add: record_ok_def)
  with assms(5) obtain u where u: "fetch_Trans E (nodes c h) ts = Found u" "has_voted u"
    by (auto simp: all_voted_def voted_def parts_def)
  have "record_ok E plan c ts u" by (rule reachable_record [OF assms(1,2) u(1)])
  with u not_both [OF all] show ?thesis
    by (cases "trans_state u") (auto simp: record_ok_def has_voted_def)
qed

text \<open>
  C1: the participants agree. In no reachable state of the cluster has one server committed a
  transaction that a participant has rolled back; messages may be lost, late or out of order, and
  any server may die and restart between two segments.
\<close>

theorem outcome_agreement:
  assumes "store_env E" and "reachable E plan c"
    and "fetch_Trans E (nodes c g) ts = Found t" and "trans_state t = TransStateCommited"
    and "h \<in> hash_id ` set (plan ts)" and "fetch_Trans E (nodes c h) ts = Found u"
  shows "trans_state u \<noteq> TransStateRollback"
proof
  assume u: "trans_state u = TransStateRollback"
  have all: "all_voted E plan c ts"
    using reachable_record [OF assms(1-3)] assms(4) by (simp add: record_ok_def)
  with assms(5,6) u have "trans_trans_list u \<noteq> []"
    by (auto simp: all_voted_def voted_def parts_def has_voted_def)
  with reachable_record [OF assms(1,2,6)] u have "some_refused E plan c ts"
    by (simp add: record_ok_def)
  with all show False using not_both by blast
qed

theorem outcome_agreement_witness:
  "\<exists>c t u. reachable mem_env demo_plan c \<and> fetch_Trans mem_env (nodes c 1) ''ts9'' = Found t
    \<and> trans_state t = TransStateCommited \<and> fetch_Trans mem_env (nodes c 2) ''ts9'' = Found u
    \<and> trans_state u \<noteq> TransStateRollback"
proof -
  obtain c t u where run: "reachable mem_env demo_plan c"
    "fetch_Trans mem_env (nodes c 1) ''ts9'' = Found t" "trans_state t = TransStateCommited"
    "fetch_Trans mem_env (nodes c 2) ''ts9'' = Found u"
    using demo_commit_runs by (rule schedule_states)
  have "2 \<in> hash_id ` set (demo_plan ''ts9'')" by (simp add: demo_plan_def demo_hosts_def)
  from outcome_agreement [OF mem.store_env_axioms run(1-3) this run(4)] run show ?thesis by blast
qed

text \<open>
  C2: a commit is unanimous. When a server has committed a transaction, the record of every
  participant is there, is prepared or committed, and lists the participants.
\<close>

theorem commit_unanimous:
  assumes "store_env E" and "reachable E plan c"
    and "fetch_Trans E (nodes c g) ts = Found t" and "trans_state t = TransStateCommited"
    and "h \<in> hash_id ` set (plan ts)"
  shows "\<exists>u. fetch_Trans E (nodes c h) ts = Found u
    \<and> trans_state u \<in> {TransStatePrepared, TransStateCommited}
    \<and> map tl_host (trans_trans_list u) = plan ts"
  by (rule committed_everywhere [OF assms])

theorem commit_unanimous_witness:
  "\<exists>c t u. reachable mem_env demo_plan c \<and> fetch_Trans mem_env (nodes c 1) ''ts9'' = Found t
    \<and> trans_state t = TransStateCommited \<and> fetch_Trans mem_env (nodes c 2) ''ts9'' = Found u
    \<and> map tl_host (trans_trans_list u) = demo_hosts"
proof -
  obtain c t where run: "reachable mem_env demo_plan c"
    "fetch_Trans mem_env (nodes c 1) ''ts9'' = Found t" "trans_state t = TransStateCommited"
    using demo_commit_runs by (rule schedule_states)
  have "2 \<in> hash_id ` set (demo_plan ''ts9'')" by (simp add: demo_plan_def demo_hosts_def)
  from commit_unanimous [OF mem.store_env_axioms run this]
  obtain u where "fetch_Trans mem_env (nodes c 2) ''ts9'' = Found u"
      "map tl_host (trans_trans_list u) = demo_hosts"
    by (auto simp: demo_plan_def)
  with run show ?thesis by blast
qed

text \<open>
  C8: a vote is not taken back. A server that has prepared a transaction (its record lists the
  participants) has rolled it back only if a participant rolled back without having prepared.
\<close>

theorem rollback_reason:
  assumes "store_env E" and "reachable E plan c"
    and "fetch_Trans E (nodes c g) ts = Found t" and "trans_state t = TransStateRollback"
    and "trans_trans_list t \<noteq> []"
  shows "\<exists>h\<in>hash_id ` set (plan ts). \<exists>u. fetch_Trans E (nodes c h) ts = Found u
    \<and> trans_state u = TransStateRollback \<and> trans_trans_list u = []"
  using reachable_record [OF assms(1-3)] assms(4,5)
  by (auto simp: record_ok_def some_refused_def refused_def parts_def)

theorem rollback_reason_witness:
  "\<exists>c t u. reachable mem_env demo_plan c \<and> fetch_Trans mem_env (nodes c 1) ''ts9'' = Found t
    \<and> trans_state t = TransStateRollback \<and> length (trans_trans_list t) = 2
    \<and> (fetch_Trans mem_env (nodes c 1) ''ts9'' = Found u
        \<or> fetch_Trans mem_env (nodes c 2) ''ts9'' = Found u) \<and> trans_trans_list u = []"
proof -
  obtain c t where run: "reachable mem_env demo_plan c"
    "fetch_Trans mem_env (nodes c 1) ''ts9'' = Found t" "trans_state t = TransStateRollback"
    and n: "length (trans_trans_list t) = 2"
    using demo_rollback_runs by (rule schedule_states)
  from n have "trans_trans_list t \<noteq> []" by auto
  from rollback_reason [OF mem.store_env_axioms run this]
  obtain u where "fetch_Trans mem_env (nodes c 1) ''ts9'' = Found u
      \<or> fetch_Trans mem_env (nodes c 2) ''ts9'' = Found u" "trans_trans_list u = []"
    by (auto simp: demo_plan_def demo_hosts_def)
  with run n show ?thesis by blast
qed

text \<open>
  C10: records only move forward. Along a step of the cluster no record of a transaction is lost on
  any server, its state only goes up in the order begin, prepared, commited, rollback, and a
  committed record stays committed.
\<close>

theorem records_advance:
  assumes "store_env E" and "reachable E plan c" and "step E plan c c'"
    and "fetch_Trans E (nodes c h) ts = Found t"
  shows "\<exists>t'. fetch_Trans E (nodes c' h) ts = Found t' \<and> trans_state t \<le> trans_state t'
    \<and> (trans_state t = TransStateCommited \<longrightarrow> trans_state t' = TransStateCommited)"
  using store_env.step_next_ok [OF assms(1,3) store_env.reachable_inv [OF assms(1,2)]] assms(4)
  unfolding next_ok_def progress_def advances_def by blast

theorem records_advance_witness:
  "\<exists>c c' t t'. fetch_Trans mem_env (nodes c 1) ''ts9'' = Found t
    \<and> trans_state t = TransStatePrepared \<and> step mem_env demo_plan c c'
    \<and> fetch_Trans mem_env (nodes c' 1) ''ts9'' = Found t' \<and> trans_state t \<le> trans_state t'"
proof -
  obtain c c' t where run: "reachable mem_env demo_plan c" "step mem_env demo_plan c c'"
    "fetch_Trans mem_env (nodes c 1) ''ts9'' = Found t" "trans_state t = TransStatePrepared"
    by (rule demo_commit_step)
  from records_advance [OF mem.store_env_axioms run(1,2,3)] run(2,3,4) show ?thesis by blast
qed

end
