(* ===== verification/CommitTs.thy ===== *)
theory CommitTs
  imports TwoPhase
begin

text \<open>
  The commit timestamp: on a database that does not fail, every server that commits a transaction
  records the same one, the greatest of the timestamps its participants took when they prepared,
  and the assertion on it in the resolver never fails.
\<close>

section \<open>Stamps\<close>

text \<open>The timestamp a server took when it prepared a transaction, and the greatest of them.\<close>

definition stamp :: "('d, 'j) env \<Rightarrow> 'd cluster \<Rightarrow> string \<Rightarrow> uint32 \<Rightarrow> string" where
  "stamp E c ts h = (case fetch_Trans E (nodes c h) ts of Found t \<Rightarrow> trans_self_commit_ts t | _ \<Rightarrow> [])"

definition agreed_ts :: "('d, 'j) env \<Rightarrow> (string \<Rightarrow> Host list) \<Rightarrow> 'd cluster \<Rightarrow> string \<Rightarrow> string" where
  "agreed_ts E plan c ts = Max (stamp E c ts ` parts plan ts)"

definition exact_record :: "('d, 'j) env \<Rightarrow> (string \<Rightarrow> Host list) \<Rightarrow> 'd cluster \<Rightarrow> uint32 \<Rightarrow> string
    \<Rightarrow> Trans \<Rightarrow> bool" where
  "exact_record E plan c h ts t \<longleftrightarrow>
     (has_voted t \<longrightarrow> trans_self_commit_ts t \<noteq> [] \<and> h \<in> parts plan ts)
     \<and> (trans_state t = TransStateCommited \<longrightarrow>
          all_voted E plan c ts \<and> trans_commit_trans t = agreed_ts E plan c ts)"

definition exact_answer :: "('d, 'j) env \<Rightarrow> (string \<Rightarrow> Host list) \<Rightarrow> 'd cluster \<Rightarrow> uint32 \<Rightarrow> string
    \<Rightarrow> TransStateRes \<Rightarrow> bool" where
  "exact_answer E plan c h ts r \<longleftrightarrow>
     (ts_trans_stat r = TransStatePrepared \<longrightarrow> voted E c h ts \<and> ts_commit_ts r = stamp E c ts h)
     \<and> (ts_trans_stat r = TransStateCommited \<longrightarrow>
          all_voted E plan c ts \<and> ts_commit_ts r = agreed_ts E plan c ts)"

text \<open>The round's maximum is the one of its own stamp and those of the hosts counted.\<close>

definition exact_round :: "('d, 'j) env \<Rightarrow> (string \<Rightarrow> Host list) \<Rightarrow> 'd cluster \<Rightarrow> uint32 \<Rightarrow> resolving
    \<Rightarrow> nat set \<Rightarrow> bool" where
  "exact_round E plan c h rv C \<longleftrightarrow>
     C \<subseteq> {..<rv_i rv} \<and> rv_nHasTransStatePrepared rv = int (card C)
     \<and> (\<forall>j\<in>C. voted E c (hash_id (plan (rv_begin_ts rv) ! j)) (rv_begin_ts rv))
     \<and> rv_max_commit_ts rv = Max (insert (stamp E c (rv_begin_ts rv) h)
          ((\<lambda>j. stamp E c (rv_begin_ts rv) (hash_id (plan (rv_begin_ts rv) ! j))) ` C))"

definition exact_ev :: "('d, 'j) env \<Rightarrow> (string \<Rightarrow> Host list) \<Rightarrow> 'd cluster \<Rightarrow> uint32 \<Rightarrow> resolving \<Rightarrow> bool"
  where
  "exact_ev E plan c h rv \<longleftrightarrow>
     h \<in> parts plan (rv_begin_ts rv) \<and> voted E c h (rv_begin_ts rv)
     \<and> trans_self_commit_ts (rv_trans rv) = stamp E c (rv_begin_ts rv) h
     \<and> trans_self_commit_ts (rv_trans rv) \<noteq> []
     \<and> (\<exists>C. exact_round E plan c h rv C)"

definition exact_inv :: "('d, 'j) env \<Rightarrow> (string \<Rightarrow> Host list) \<Rightarrow> 'd cluster \<Rightarrow> bool" where
  "exact_inv E plan c \<longleftrightarrow>
     (\<forall>h ts t. fetch_Trans E (nodes c h) ts = Found t \<longrightarrow> exact_record E plan c h ts t)
     \<and> (\<forall>h k rv. pt_pc (node_tasks (nodes c h) k) = Querying rv \<longrightarrow> exact_ev E plan c h rv)
     \<and> (\<forall>(h, ts, r)\<in>sent c. exact_answer E plan c h ts r)"

section \<open>Stamps last\<close>

definition stamps_last :: "('d, 'j) env \<Rightarrow> 'd cluster \<Rightarrow> 'd cluster \<Rightarrow> bool" where
  "stamps_last E c c' \<longleftrightarrow> (\<forall>h ts. voted E c h ts \<longrightarrow>
     voted E c' h ts \<and> stamp E c' ts h = stamp E c ts h)"

lemma agreed_last:
  assumes "stamps_last E c c'" and "all_voted E plan c ts"
  shows "all_voted E plan c' ts" and "agreed_ts E plan c' ts = agreed_ts E plan c ts"
proof -
  show "all_voted E plan c' ts" using assms by (simp add: stamps_last_def all_voted_def)
  have "stamp E c' ts ` parts plan ts = stamp E c ts ` parts plan ts"
    using assms by (intro image_cong) (simp_all add: stamps_last_def all_voted_def)
  then show "agreed_ts E plan c' ts = agreed_ts E plan c ts" by (simp add: agreed_ts_def)
qed

lemma exact_record_last:
  "exact_record E plan c h ts t \<Longrightarrow> stamps_last E c c' \<Longrightarrow> exact_record E plan c' h ts t"
  using agreed_last [of E c c' plan ts] by (simp add: exact_record_def)

lemma exact_answer_last:
  "exact_answer E plan c h ts r \<Longrightarrow> stamps_last E c c' \<Longrightarrow> exact_answer E plan c' h ts r"
  using agreed_last [of E c c' plan ts] by (simp add: exact_answer_def stamps_last_def)

lemma exact_round_last:
  assumes "exact_round E plan c h rv C" and "voted E c h (rv_begin_ts rv)" and "stamps_last E c c'"
  shows "exact_round E plan c' h rv C"
proof -
  have "(\<lambda>j. stamp E c' (rv_begin_ts rv) (hash_id (plan (rv_begin_ts rv) ! j))) ` C
      = (\<lambda>j. stamp E c (rv_begin_ts rv) (hash_id (plan (rv_begin_ts rv) ! j))) ` C"
    using assms(1,3) by (intro image_cong) (simp_all add: exact_round_def stamps_last_def)
  with assms show ?thesis by (simp add: exact_round_def stamps_last_def)
qed

lemma exact_ev_last:
  assumes "exact_ev E plan c h rv" and l: "stamps_last E c c'"
  shows "exact_ev E plan c' h rv"
proof -
  from assms(1) obtain C where C: "exact_round E plan c h rv C" and v: "voted E c h (rv_begin_ts rv)"
    by (auto simp: exact_ev_def)
  have "exact_round E plan c' h rv C" by (rule exact_round_last [OF C v l])
  with assms v show ?thesis by (auto simp: exact_ev_def stamps_last_def)
qed

lemma stamp_set_node:
  "stamp E (set_node h st c) ts g = (if g = h
     then (case fetch_Trans E st ts of Found t \<Rightarrow> trans_self_commit_ts t | _ \<Rightarrow> [])
     else stamp E c ts g)"
  by (simp add: stamp_def nodes_set_node)

lemma stamps_same:
  "(\<And>ts. fetch_Trans E st' ts = fetch_Trans E st ts) \<Longrightarrow>
     stamps_last E (set_node h st c) (set_node h st' c)"
  by (simp add: stamps_last_def voted_set_node stamp_set_node)

lemma stamps_set:
  assumes "trans_set E st st' ts t'"
    and "\<And>t. fetch_Trans E st ts = Found t \<Longrightarrow> has_voted t \<Longrightarrow>
      has_voted t' \<and> trans_self_commit_ts t' = trans_self_commit_ts t"
  shows "stamps_last E (set_node h st c) (set_node h st' c)"
proof -
  have "fetch_Trans E st' u = (if u = ts then Found t' else fetch_Trans E st u)" for u
    using assms(1) by (simp add: trans_set_def trans_frame_def)
  with assms(2) show ?thesis by (auto simp: stamps_last_def voted_set_node stamp_set_node)
qed

section \<open>One change of one server\<close>

lemma exact_same:
  assumes inv: "exact_inv E plan (set_node h st c)"
    and f: "\<And>ts. fetch_Trans E st' ts = fetch_Trans E st ts"
    and q: "\<And>k rv. pt_pc (node_tasks st' k) = Querying rv \<Longrightarrow>
      pt_pc (node_tasks st k) = Querying rv \<or> exact_ev E plan (set_node h st c) h rv"
  shows "exact_inv E plan (set_node h st' c)"
proof -
  note l = stamps_same [OF f, of h c]
  have q': "exact_ev E plan (set_node h st' c) g rv"
    if "pt_pc (node_tasks (nodes (set_node h st' c) g) k) = Querying rv" for g k rv
  proof (cases "g = h")
    case True
    with that q [of k rv] have "exact_ev E plan (set_node h st c) g rv"
      using inv unfolding exact_inv_def by (metis set_node_simps(1))
    then show ?thesis by (rule exact_ev_last [OF _ l])
  next
    case False
    with that have "pt_pc (node_tasks (nodes (set_node h st c) g) k) = Querying rv" by simp
    with inv have "exact_ev E plan (set_node h st c) g rv" unfolding exact_inv_def by blast
    then show ?thesis by (rule exact_ev_last [OF _ l])
  qed
  have r': "exact_record E plan (set_node h st' c) g ts t"
    if "fetch_Trans E (nodes (set_node h st' c) g) ts = Found t" for g ts t
  proof -
    from that have "fetch_Trans E (nodes (set_node h st c) g) ts = Found t"
      by (simp add: nodes_set_node f split: if_splits)
    with inv have "exact_record E plan (set_node h st c) g ts t" unfolding exact_inv_def by blast
    then show ?thesis by (rule exact_record_last [OF _ l])
  qed
  show ?thesis unfolding exact_inv_def
    using inv q' r' exact_answer_last [OF _ l] by (auto simp: exact_inv_def)
qed

lemma exact_set:
  assumes inv: "exact_inv E plan (set_node h st c)" and set: "trans_set E st st' ts t'"
    and keep: "\<And>t. fetch_Trans E st ts = Found t \<Longrightarrow> has_voted t \<Longrightarrow>
      has_voted t' \<and> trans_self_commit_ts t' = trans_self_commit_ts t"
    and ok: "stamps_last E (set_node h st c) (set_node h st' c)
      \<Longrightarrow> exact_record E plan (set_node h st' c) h ts t'"
  shows "exact_inv E plan (set_node h st' c)"
proof -
  have l: "stamps_last E (set_node h st c) (set_node h st' c)"
    by (rule stamps_set [OF set]) (rule keep)
  have f: "fetch_Trans E st' u = (if u = ts then Found t' else fetch_Trans E st u)" for u
    using set by (simp add: trans_set_def trans_frame_def)
  have "node_tasks st' = node_tasks st"
    using set by (intro node_tasks_more) (simp add: trans_set_def trans_frame_def)
  then have q: "node_tasks (nodes (set_node h st' c) g) = node_tasks (nodes (set_node h st c) g)" for g
    by (simp add: nodes_set_node)
  have r: "exact_record E plan (set_node h st' c) g u t"
    if "fetch_Trans E (nodes (set_node h st' c) g) u = Found t" for g u t
  proof (cases "g = h \<and> u = ts")
    case True
    with that ok [OF l] f show ?thesis by simp
  next
    case False
    with that f have "fetch_Trans E (nodes (set_node h st c) g) u = Found t"
      by (auto simp: nodes_set_node split: if_splits)
    with inv have "exact_record E plan (set_node h st c) g u t" unfolding exact_inv_def by blast
    then show ?thesis by (rule exact_record_last [OF _ l])
  qed
  show ?thesis unfolding exact_inv_def q
    using inv r exact_answer_last [OF _ l] exact_ev_last [OF _ l] by (auto simp: exact_inv_def)
qed

lemma exact_wait:
  assumes inv: "exact_inv E plan (set_node h st c)" and ev: "exact_ev E plan (set_node h st c) h rv"
  shows "exact_inv E plan (set_node h (set_pc task (Querying rv) st) c)"
proof (rule exact_same [OF inv])
  show "fetch_Trans E (set_pc task (Querying rv) st) ts = fetch_Trans E st ts" for ts
    by (simp add: fetch_Trans_def)
  show "pt_pc (node_tasks st k) = Querying rv' \<or> exact_ev E plan (set_node h st c) h rv'"
    if "pt_pc (node_tasks (set_pc task (Querying rv) st) k) = Querying rv'" for k rv'
    using that ev by (cases "k = task") (simp_all add: set_pc_def)
qed

section \<open>The contract, with the timestamps\<close>

definition exact_node :: "('d, 'j) env \<Rightarrow> (string \<Rightarrow> Host list) \<Rightarrow> 'd cluster \<Rightarrow> uint32 \<Rightarrow> 'd node
    \<Rightarrow> bool" where
  "exact_node E plan c h st \<longleftrightarrow>
     node_inv E plan c h st \<and> exact_inv E plan (set_node h st c)"

definition exact_node_ev :: "('d, 'j) env \<Rightarrow> (string \<Rightarrow> Host list) \<Rightarrow> 'd cluster \<Rightarrow> uint32 \<Rightarrow> 'd node
    \<Rightarrow> resolving \<Rightarrow> bool" where
  "exact_node_ev E plan c h st rv \<longleftrightarrow>
     node_ev E plan c h st rv \<and> exact_ev E plan (set_node h st c) h rv"

definition exact_node_answer :: "('d, 'j) env \<Rightarrow> (string \<Rightarrow> Host list) \<Rightarrow> 'd cluster \<Rightarrow> uint32
    \<Rightarrow> 'd node \<Rightarrow> resolving \<Rightarrow> TransStateRes \<Rightarrow> bool" where
  "exact_node_answer E plan c h st rv r \<longleftrightarrow>
     node_answer E plan c h st rv r
     \<and> exact_answer E plan (set_node h st c) (hash_id (plan (rv_begin_ts rv) ! rv_i rv))
         (rv_begin_ts rv) r"

lemma exact_node_record:
  "exact_node E plan c h st \<Longrightarrow> fetch_Trans E st ts = Found t \<Longrightarrow>
     exact_record E plan (set_node h st c) h ts t"
  unfolding exact_node_def exact_inv_def using set_node_simps(1) by metis

lemma exact_quiet:
  "exact_node E plan c h st \<Longrightarrow> same_trans E st st' \<Longrightarrow> exact_node E plan c h st'"
  using node_quiet [of E plan c h st st'] exact_same [of E plan h st c st']
  by (auto simp: exact_node_def same_trans_def)

lemma exact_start:
  assumes "exact_node E plan c h st" and f: "fetch_Trans E st ts = Found t"
    and "trans_state t = TransStatePrepared"
  shows "exact_ev E plan (set_node h st c) h (first_round now ts t)"
proof -
  have "has_voted t" using assms(3) by (simp add: has_voted_def)
  moreover from this exact_node_record [OF assms(1,2)]
  have "trans_self_commit_ts t \<noteq> []" "h \<in> parts plan ts" by (simp_all add: exact_record_def)
  ultimately show ?thesis
    by (auto simp: exact_ev_def first_round_def first_max_def voted_set_node stamp_set_node f
        exact_round_def intro!: exI [of _ "{}"])
qed

lemma exact_again:
  "exact_ev E plan c h rv \<Longrightarrow> exact_ev E plan c h (next_round now rv)"
  by (auto simp: exact_ev_def next_round_def first_max_def exact_round_def intro!: exI [of _ "{}"])

text \<open>A host passed; a host counted, whose stamp goes into the maximum.\<close>

lemma exact_passed:
  assumes "exact_ev E plan c h rv"
  shows "exact_ev E plan c h (rv\<lparr>rv_i := Suc (rv_i rv)\<rparr>)"
proof -
  from assms obtain C where "exact_round E plan c h rv C" by (auto simp: exact_ev_def)
  then have "exact_round E plan c h (rv\<lparr>rv_i := Suc (rv_i rv)\<rparr>) C"
    by (auto simp: exact_round_def less_Suc_eq)
  with assms show ?thesis by (auto simp: exact_ev_def)
qed

lemma exact_counted:
  assumes "exact_ev E plan c h rv"
    and v: "voted E c (hash_id (plan (rv_begin_ts rv) ! rv_i rv)) (rv_begin_ts rv)"
    and m: "m = max (rv_max_commit_ts rv)
      (stamp E c (rv_begin_ts rv) (hash_id (plan (rv_begin_ts rv) ! rv_i rv)))"
  shows "exact_ev E plan c h (rv\<lparr>rv_i := Suc (rv_i rv),
    rv_nHasTransStatePrepared := rv_nHasTransStatePrepared rv + 1, rv_max_commit_ts := m\<rparr>)"
proof -
  from assms(1) obtain C where C: "exact_round E plan c h rv C" by (auto simp: exact_ev_def)
  let ?f = "\<lambda>j. stamp E c (rv_begin_ts rv) (hash_id (plan (rv_begin_ts rv) ! j))"
  let ?own = "stamp E c (rv_begin_ts rv) h"
  from C have fin: "finite C" "rv_i rv \<notin> C" by (auto simp: exact_round_def intro: finite_subset)
  have "m = Max (insert ?own (?f ` insert (rv_i rv) C))"
    using C fin(1) unfolding m exact_round_def
    by (simp add: insert_commute [of ?own] max.commute)
  with C v fin have "exact_round E plan c h (rv\<lparr>rv_i := Suc (rv_i rv),
      rv_nHasTransStatePrepared := rv_nHasTransStatePrepared rv + 1, rv_max_commit_ts := m\<rparr>)
      (insert (rv_i rv) C)"
    by (auto simp: exact_round_def less_Suc_eq)
  with assms(1) show ?thesis by (auto simp: exact_ev_def)
qed

text \<open>A full count gives the agreed timestamp; a part of it at most that.\<close>

lemma exact_full:
  assumes ev: "evidence E plan c h rv" and "exact_ev E plan c h rv"
    and "rv_i rv = length (rv_list rv)" and "rv_nHasTransStatePrepared rv = int (length (rv_list rv))"
  shows "rv_max_commit_ts rv = agreed_ts E plan c (rv_begin_ts rv)"
proof -
  let ?ts = "rv_begin_ts rv"
  from assms(2) obtain C where C: "exact_round E plan c h rv C" and h: "h \<in> parts plan ?ts"
    by (auto simp: exact_ev_def)
  have "C = {..<rv_i rv}"
    using C assms(3,4) by (intro card_subset_eq) (auto simp: exact_round_def)
  moreover have "length (plan ?ts) = rv_i rv"
    using ev assms(3) by (metis evidence_def length_map)
  ultimately have "(\<lambda>j. hash_id (plan ?ts ! j)) ` C = parts plan ?ts"
    by (force simp: parts_def in_set_conv_nth)
  then have "(\<lambda>j. stamp E c ?ts (hash_id (plan ?ts ! j))) ` C = stamp E c ?ts ` parts plan ?ts"
    by (metis image_image)
  with C h show ?thesis
    by (simp add: exact_round_def agreed_ts_def insert_absorb)
qed

lemma exact_below:
  assumes ev: "evidence E plan c h rv" and "exact_ev E plan c h rv"
  shows "rv_max_commit_ts rv \<le> agreed_ts E plan c (rv_begin_ts rv)"
proof -
  let ?ts = "rv_begin_ts rv"
  from assms(2) obtain C where C: "exact_round E plan c h rv C" and h: "h \<in> parts plan ?ts"
    by (auto simp: exact_ev_def)
  have len: "length (plan ?ts) = length (rv_list rv)" "rv_i rv \<le> length (rv_list rv)"
    using ev by (metis evidence_def length_map)+
  have "(\<lambda>j. hash_id (plan ?ts ! j)) ` C \<subseteq> parts plan ?ts"
    using C len by (force simp: exact_round_def parts_def)
  then have "insert (stamp E c ?ts h) ((\<lambda>j. stamp E c ?ts (hash_id (plan ?ts ! j))) ` C)
      \<subseteq> stamp E c ?ts ` parts plan ?ts"
    using h by auto
  then have "Max (insert (stamp E c ?ts h) ((\<lambda>j. stamp E c ?ts (hash_id (plan ?ts ! j))) ` C))
      \<le> Max (stamp E c ?ts ` parts plan ?ts)"
    by (intro Max_mono) (auto simp: parts_def)
  with C show ?thesis by (simp add: exact_round_def agreed_ts_def)
qed

lemma exact_own:
  assumes "exact_ev E plan c h rv"
    and "hash_id (plan (rv_begin_ts rv) ! rv_i rv) = h"
  shows "exact_ev E plan c h (rv\<lparr>rv_i := Suc (rv_i rv),
    rv_nHasTransStatePrepared := rv_nHasTransStatePrepared rv + 1\<rparr>)"
proof -
  from assms(1) obtain C where C: "exact_round E plan c h rv C"
    and v: "voted E c h (rv_begin_ts rv)" by (auto simp: exact_ev_def)
  then have "finite C" by (auto simp: exact_round_def intro: finite_subset)
  with C have "stamp E c (rv_begin_ts rv) h \<le> rv_max_commit_ts rv"
    by (simp add: exact_round_def)
  then have "rv_max_commit_ts rv = max (rv_max_commit_ts rv)
      (stamp E c (rv_begin_ts rv) (hash_id (plan (rv_begin_ts rv) ! rv_i rv)))"
    by (simp add: assms(2) max_absorb1)
  from exact_counted [OF assms(1) _ this] v show ?thesis by (simp add: assms(2))
qed

text \<open>A voted record that is decided keeps its stamp.\<close>

lemma exact_decide:
  assumes I: "exact_node E plan c h st" and ev: "exact_ev E plan (set_node h st c) h rv"
    and set: "trans_set E st st' (rv_begin_ts rv) t'" and voted: "has_voted t'"
    and own: "trans_self_commit_ts t' = trans_self_commit_ts (rv_trans rv)"
    and ts: "trans_state t' = TransStateCommited \<Longrightarrow> all_voted E plan (set_node h st c) (rv_begin_ts rv)
      \<and> trans_commit_trans t' = agreed_ts E plan (set_node h st c) (rv_begin_ts rv)"
  shows "exact_inv E plan (set_node h st' c)"
proof (rule exact_set [OF _ set])
  show "exact_inv E plan (set_node h st c)" using I by (simp add: exact_node_def)
  show "has_voted t' \<and> trans_self_commit_ts t' = trans_self_commit_ts t"
    if "fetch_Trans E st (rv_begin_ts rv) = Found t" for t
    using ev voted own that by (simp add: exact_ev_def stamp_set_node)
  show "exact_record E plan (set_node h st' c) h (rv_begin_ts rv) t'"
    if l: "stamps_last E (set_node h st c) (set_node h st' c)"
    using ev own ts agreed_last [OF l] by (auto simp: exact_record_def exact_ev_def)
qed

lemma exact_told:
  assumes I: "exact_node E plan c h st" and ev: "exact_node_ev E plan c h st rv"
    and i: "rv_i rv < length (rv_list rv)" and told: "exact_node_answer E plan c h st rv r"
    and set: "trans_set E st st' (rv_begin_ts rv) t'"
    and t': "trans_state t' = ts_trans_stat r" "trans_trans_list t' = rv_list rv"
      "trans_self_commit_ts t' = trans_self_commit_ts (rv_trans rv)"
    and s: "ts_trans_stat r = TransStateCommited \<and> trans_commit_trans t' = ts_commit_ts r
      \<or> ts_trans_stat r = TransStateRollback"
  shows "exact_node E plan c h st'"
proof -
  have "node_inv E plan c h st'"
    using I ev told s by (intro node_told [OF _ _ i _ set t'(1,2)])
      (auto simp: exact_node_def exact_node_ev_def exact_node_answer_def)
  moreover have "exact_inv E plan (set_node h st' c)"
  proof (rule exact_decide [OF I _ set _ t'(3)])
    show "exact_ev E plan (set_node h st c) h rv" using ev by (simp add: exact_node_ev_def)
    show "has_voted t'" using i t'(2) by (auto simp: has_voted_def)
  qed (use told s t'(1) in \<open>auto simp: exact_node_answer_def exact_answer_def\<close>)
  ultimately show ?thesis by (simp add: exact_node_def)
qed

context reliable_env
begin

lemma stamp_succeeds:
  assumes "fetch_Trans E st ts = Found t" and "trans_state t = TransStatePrepared"
    and "updateTransSelfCommitTs E ts now st = Ret r st'"
  shows "r = 0"
  using assms put_Trans_ok [of st ts "t\<lparr>trans_self_commit_ts := now\<rparr>"]
  by (auto simp: updateTransSelfCommitTs_eq)

end

sublocale reliable_env \<subseteq> exact: answer_contract E "exact_node E plan c h"
  "exact_node_ev E plan c h" "planned plan h" "\<lambda>_ _. True" "\<lambda>_. True" 
  "exact_node_answer E plan c h" for plan :: "string \<Rightarrow> Host list" and c :: "'d cluster" and h
proof
  fix st st' :: "'d node" and ts and t and rq and st1 :: "'d node" and now and r and rv and task and s
    and a :: TransStateRes
  show "exact_node E plan c h st'" if "exact_node E plan c h st" "same_store E st st'"
    using that(1) same_store_trans_part [OF that(2)] by (rule exact_quiet)
  show "exact_node E plan c h st'" if "exact_node E plan c h st"
    "put_Lock E st key \<lparr>lock_trans = ts\<rparr> = (s, st')" for key s
    using that by (blast intro: exact_quiet put_same_trans)
  show "keeps (exact_node E plan c h) (addData E key val ts type st)" if "exact_node E plan c h st"
    for key val type
    unfolding keeps_def by (rule exact_quiet [OF that addData_same])
  show "exact_node E plan c h st'" if "exact_node E plan c h st" "fetch_Trans E st ts = Missing"
    "trans_set E st st' ts Trans_init"
    using that node_create [OF _ that(2,3)] exact_set [OF _ that(3)]
    by (auto simp: exact_node_def exact_record_def has_voted_def Trans_init_def)
  show "exact_node E plan c h st'" if "fetch_Trans E st ts = Found t"
    "trans_set E st st1 ts (prepared_record (self_hash_id st) rq t)"
    "updateTransSelfCommitTs E ts now st1 = Ret r st'" "r \<noteq> 0"
    using stamp_succeeds [OF _ _ that(3)] that(2,4) by (auto simp: trans_set_def)
  show "exact_node E plan c h st'" if I: "exact_node E plan c h st" and f: "fetch_Trans E st ts = Found t"
    "trans_state t = TransStateBegin" and legal: "planned plan h rq" "rq_begin_ts rq = ts" "now \<noteq> []"
    and set: "trans_set E st st' ts (stamped now (prepared_record (self_hash_id st) rq t))"
  proof -
    have N: "node_inv E plan c h st" using I by (simp add: exact_node_def)
    have "node_inv E plan c h st'" using node_voted [OF N f legal(1,2) set] by blast
    moreover have "exact_inv E plan (set_node h st' c)"
      using I f node_open(2) [OF N f] legal
      by (intro exact_set [OF _ set])
        (auto simp: exact_node_def exact_record_def stamped_def planned_def parts_def)
    ultimately show ?thesis by (simp add: exact_node_def)
  qed
  show "exact_node E plan c h st'" if I: "exact_node E plan c h st" and f: "fetch_Trans E st ts = Found t"
    "trans_state t = TransStateBegin"
    and set: "trans_set E st st' ts (t\<lparr>trans_state := TransStateRollback\<rparr>)"
  proof -
    have N: "node_inv E plan c h st" using I by (simp add: exact_node_def)
    have "exact_inv E plan (set_node h st' c)"
      using I f node_open [OF N f]
      by (intro exact_set [OF _ set]) (auto simp: exact_node_def exact_record_def has_voted_def)
    with node_abort_open [OF N f set] show ?thesis by (simp add: exact_node_def)
  qed
  show "exact_node_ev E plan c h st (first_round now ts t)" if "exact_node E plan c h st"
    "fetch_Trans E st ts = Found t" "trans_state t = TransStatePrepared"
    using that node_start exact_start [OF that] by (auto simp: exact_node_ev_def exact_node_def)
  show "exact_node_ev E plan c h st (next_round now rv)" if "exact_node_ev E plan c h st rv"
    using that node_again exact_again [of E plan "set_node h st c" h rv]
    by (auto simp: exact_node_ev_def)
  show "exact_node_ev E plan c h st (rv\<lparr>rv_i := Suc (rv_i rv),
      rv_nHasTransStatePrepared := rv_nHasTransStatePrepared rv + 1\<rparr>)"
    if "exact_node E plan c h st" "exact_node_ev E plan c h st rv" "rv_i rv < length (rv_list rv)"
      "hash_id (tl_host (rv_list rv ! rv_i rv)) = self_hash_id st"
  proof -
    have N: "node_inv E plan c h st" "node_ev E plan c h st rv"
      and X: "exact_ev E plan (set_node h st c) h rv"
      using that(1,2) by (simp_all add: exact_node_def exact_node_ev_def)
    have "hash_id (plan (rv_begin_ts rv) ! rv_i rv) = h"
      using evidence_host(1) [OF N(2) [unfolded node_ev_def] that(3)] that(4) node_inv_self [OF N(1)]
      by simp
    from exact_own [OF X this] protocol.own [OF N that(3,4)] show ?thesis
      by (simp add: exact_node_ev_def)
  qed
  show "exact_node_ev E plan c h st' rv" if "exact_node_ev E plan c h st rv" "same_store E st st'"
  proof -
    have "stamps_last E (set_node h st c) (set_node h st' c)"
      using that(2) by (intro stamps_same) (simp add: same_store_def same_trans_def)
    with that exact_ev_last protocol.evidence_quiet [OF _ that(2)] show ?thesis
      unfolding exact_node_ev_def by blast
  qed
  show "exact_node E plan c h (set_pc task (Querying rv) st)"
    if "exact_node E plan c h st" "exact_node_ev E plan c h st rv" "rv_i rv < length (rv_list rv)"
  proof -
    have "node_inv E plan c h (set_pc task (Querying rv) st)"
      using that by (intro node_wait) (simp_all add: exact_node_def exact_node_ev_def)
    moreover have "exact_inv E plan (set_node h (set_pc task (Querying rv) st) c)"
      using that by (intro exact_wait) (simp_all add: exact_node_def exact_node_ev_def)
    ultimately show ?thesis by (simp add: exact_node_def)
  qed
  show "rv_i rv \<le> length (rv_list rv)" if "exact_node_ev E plan c h st rv"
    using that by (simp add: exact_node_ev_def node_ev_def evidence_def)
  show "exact_node E plan c h st'" if I: "exact_node E plan c h st" and ev: "exact_node_ev E plan c h st rv"
    and full: "rv_i rv = length (rv_list rv)" "rv_nHasTransStatePrepared rv = int (length (rv_list rv))"
    and set: "trans_set E st st' (rv_begin_ts rv) (committed rv)"
  proof -
    have N: "node_inv E plan c h st" "node_ev E plan c h st rv"
      and X: "exact_ev E plan (set_node h st c) h rv"
      using I ev by (simp_all add: exact_node_def exact_node_ev_def)
    note v = N(2) [unfolded node_ev_def]
    have "exact_inv E plan (set_node h st' c)"
      using evidence_full [OF v full] exact_full [OF v X full]
      by (intro exact_decide [OF I X set]) (simp_all add: committed_def has_voted_def)
    with protocol.commit [OF N full set] show ?thesis by (simp add: exact_node_def)
  qed
  show "exact_node_ev E plan c h st (pass_host rv)" if "exact_node E plan c h st"
    "exact_node_ev E plan c h st rv" "rv_i rv < length (rv_list rv)"
    using that protocol.passed exact_passed by (auto simp: exact_node_ev_def exact_node_def pass_host_def)
  show "exact_node_ev E plan c h st (note_state s rv)" if "exact_node_ev E plan c h st rv"
    using that node_noted [of E plan c h st rv s]
    by (auto simp: exact_node_ev_def exact_ev_def exact_round_def)
  show "exact_node_answer E plan c h st (note_state s rv) a" if "exact_node_answer E plan c h st rv a"
    using that by (simp add: exact_node_answer_def node_answer_noted)
  show "exact_node_ev E plan c h st (count_host a rv)" if "exact_node E plan c h st"
    "exact_node_ev E plan c h st rv" "rv_i rv < length (rv_list rv)"
    "exact_node_answer E plan c h st rv a" "ts_trans_stat a = TransStatePrepared"
  proof -
    have "node_ev E plan c h st (count_host a rv)"
      using that by (intro protocol.counted) (simp_all add: exact_node_def exact_node_ev_def exact_node_answer_def)
    moreover have "exact_ev E plan (set_node h st c) h (count_host a rv)"
      using that unfolding count_host_def
      by (intro exact_counted) (auto simp: exact_node_ev_def exact_node_answer_def exact_answer_def max_def)
    ultimately show ?thesis by (simp add: exact_node_ev_def)
  qed
  show "exact_node E plan c h st'" if "exact_node E plan c h st" "exact_node_ev E plan c h st rv"
    "rv_i rv < length (rv_list rv)" "exact_node_answer E plan c h st rv a"
    "ts_trans_stat a = TransStateCommited" "trans_set E st st' (rv_begin_ts rv)
      ((rv_trans rv)\<lparr>trans_state := TransStateCommited, trans_commit_trans := ts_commit_ts a\<rparr>)"
    using that(5) by (intro exact_told [OF that(1-4,6)]) (simp_all add: rv_list_def)
  show "exact_node E plan c h st'" if "exact_node E plan c h st" "exact_node_ev E plan c h st rv"
    "rv_i rv < length (rv_list rv)" "exact_node_answer E plan c h st rv a"
    "ts_trans_stat a = TransStateRollback" "trans_set E st st' (rv_begin_ts rv)
      ((rv_trans rv)\<lparr>trans_state := TransStateRollback\<rparr>)"
    using that(5) by (intro exact_told [OF that(1-4,6)]) (simp_all add: rv_list_def)
qed

section \<open>Every step keeps the timestamps exact\<close>

lemma exact_cong:
  assumes "nodes c' = nodes c" and "sent c' = sent c"
  shows "exact_inv E plan c' = exact_inv E plan c"
proof -
  have "voted E c' = voted E c" "stamp E c' = stamp E c"
    by (simp_all add: assms voted_def stamp_def fun_eq_iff)
  then have "exact_record E plan c' = exact_record E plan c" "exact_answer E plan c' = exact_answer E plan c"
    "exact_ev E plan c' = exact_ev E plan c"
    by (simp_all add: exact_record_def exact_answer_def exact_ev_def exact_round_def all_voted_def
        agreed_ts_def fun_eq_iff)
  with assms show ?thesis by (simp add: exact_inv_def)
qed

lemma exact_settle:
  assumes "keeps (exact_node E plan c h) m"
    and "\<And>a st. m = Ret a st \<Longrightarrow> exact_inv E plan (set_node h st c)
      \<Longrightarrow> exact_inv E plan (k a (set_node h st c))"
  shows "exact_inv E plan (settle h m k c)"
  using assms by (cases m) (simp_all add: exact_node_def exact_cong [of "set_down h _"])

lemma exact_finish:
  assumes "exact_inv E plan c1"
    and "\<And>g ts a. (g, ts, a) \<in> told h m (fst r) \<Longrightarrow> exact_answer E plan c1 g ts a"
  shows "exact_inv E plan (finish h n m r c1)"
proof -
  let ?c = "c1\<lparr>sent := sent c1 \<union> told h m (fst r)\<rparr>"
  have "voted E ?c = voted E c1" "stamp E ?c = stamp E c1"
    by (simp_all add: voted_def stamp_def fun_eq_iff)
  then have "exact_record E plan ?c = exact_record E plan c1" "exact_answer E plan ?c = exact_answer E plan c1"
    "exact_ev E plan ?c = exact_ev E plan c1"
    by (simp_all add: exact_record_def exact_answer_def exact_ev_def exact_round_def all_voted_def
        agreed_ts_def fun_eq_iff)
  with assms have "exact_inv E plan ?c" by (auto simp: exact_inv_def)
  then show ?thesis by (subst exact_cong [of _ ?c]) (simp_all add: finish_def set_conn_def)
qed

lemma exact_told_ok:
  assumes inv: "exact_inv E plan c" and call: "serve_msg E now m s (nodes c h) = Some r"
    and ret: "hang_up E now r = Ret (rep, s') st" and told: "(g, ts, a) \<in> told h m rep"
  shows "exact_answer E plan (set_node h st c) g ts a"
  using told_record [OF call ret told]
proof (elim conjE disjE exE)
  fix t
  assume "g = h" "st = nodes c h" and t: "fetch_Trans E (nodes c h) ts = Found t"
    "ts_trans_stat a = trans_state t"
    "trans_state t = TransStatePrepared \<longrightarrow> ts_commit_ts a = trans_self_commit_ts t"
    "trans_state t = TransStateCommited \<longrightarrow> ts_commit_ts a = trans_commit_trans t"
  moreover have "exact_record E plan c h ts t" using inv t(1) unfolding exact_inv_def by blast
  ultimately show ?thesis
    by (auto simp: exact_answer_def exact_record_def voted_def has_voted_def stamp_def)
qed (simp add: exact_answer_def)

context reliable_env
begin

lemma exact_now: "protocol_inv E plan c \<Longrightarrow> exact_inv E plan c \<Longrightarrow> exact_node E plan c h (nodes c h)"
  by (simp add: exact_node_def node_inv_def)

lemma exact_hang_up:
  assumes "keeps (exact_node E plan c h) r"
  shows "keeps (exact_node E plan c h) (hang_up E now r)"
  by (intro exact.hang_up_I assms TrueI)

lemma exact_says_rpc:
  assumes "keeps (exact_node E plan c h) r" and "says_rpc r"
  shows "exact_inv E plan (settle h (hang_up E now r) (finish h n m) c)"
proof (rule exact_settle [OF exact_hang_up [OF assms(1)]])
  fix x st
  assume x: "hang_up E now r = Ret x st" and "exact_inv E plan (set_node h st c)"
  then show "exact_inv E plan (finish h n m x (set_node h st c))"
  proof (rule_tac exact_finish)
    fix g ts a
    assume "(g, ts, a) \<in> told h m (fst x)"
    then obtain msg where msg: "fst x = Reply msg"
      and type: "msg_msg_type msg = MSG_Type_TransState_Response" by (rule told_reply)
    with x have "hang_up E now r = Ret (Reply msg, snd x) st" by (metis prod.collapse)
    then obtain s1 where "r = Ret (Reply msg, s1) st" using hang_up_reply by blast
    with assms(2) type show "exact_answer E plan (set_node h st c) g ts a"
      by (simp add: says_rpc_def)
  qed
qed

lemma step_exact:
  assumes "step E plan c c'" and inv: "protocol_inv E plan c" and ex: "exact_inv E plan c"
  shows "exact_inv E plan c'"
  using assms(1)
proof cases
  case (connect h n)
  with ex show ?thesis by (simp add: exact_cong [of "set_conn h n (Some session_init) c" c])
next
  case (request h n s m sec usec r)
  have "keeps (exact_node E plan c h) r"
    by (rule exact.serve_msg_keeps [OF exact_now [OF inv ex] GetTS_not_empty _ request(6)])
      (rule request(5), simp_all)
  then show ?thesis unfolding request(1)
    by (intro exact_settle [OF exact_hang_up] exact_finish)
      (auto intro: exact_told_ok [OF ex request(6)])
next
  case (timeout h n s sec usec r)
  show ?thesis unfolding timeout(1)
    by (rule exact_says_rpc [OF exact.serve_timeout_keeps [OF exact_now [OF inv ex]
          timeout(5) TrueI] says_rpc_timeout [OF timeout(5)]])
next
  case (event h n s sec usec)
  show ?thesis unfolding event(1)
    by (rule exact_says_rpc [OF exact.serve_event_keeps [OF exact_now [OF inv ex]]
          says_rpc_serve(6)])
next
  case (close h n s sec usec)
  show ?thesis unfolding close(1)
    by (rule exact_settle [OF exact.serve_close_keeps [OF exact_now [OF inv ex] TrueI]])
      (simp add: exact_cong [of "set_conn h n None _"])
next
  case (answer h t rv res sec usec)
  have q: "evidence E plan c h rv" "rv_i rv < length (rv_list rv)" "exact_ev E plan c h rv"
    using inv ex answer(3) unfolding protocol_inv_def exact_inv_def by blast+
  have "keeps (exact_node E plan c h) (prepare_answer E (GetTS sec usec) t rv res (nodes c h))"
  proof (rule exact.prepare_answer_keeps [OF exact_now [OF inv ex] _ q(2)])
    show "exact_node_ev E plan c h (nodes c h) rv" using q by (simp add: exact_node_ev_def node_ev_def)
    show "exact_node_answer E plan c h (nodes c h) rv a" if "res = Some a" for a
      using that answer(4) inv ex evidence_host(1) [OF q(1,2)]
      by (auto simp: exact_node_answer_def node_answer_def protocol_inv_def exact_inv_def)
  qed
  then show ?thesis unfolding answer(1) by (rule exact_settle) simp
next
  case (die h)
  with ex show ?thesis by (simp add: exact_cong [of "set_down h c" c])
next
  case (restart h sec usec)
  have "exact_node E plan c h (boot (nodes c h))"
    by (rule exact.quiet [OF exact_now [OF inv ex] same_store_boot])
  from exact.startUpClean_keeps [OF this TrueI] show ?thesis unfolding restart(1)
    by (rule exact_settle) (simp add: exact_cong [of "_\<lparr>up := _\<rparr>"])
qed

lemma reachable_exact: "reachable E plan c \<Longrightarrow> exact_inv E plan c"
proof (induction rule: reachable.induct)
  case (start c)
  then show ?case by (simp add: initial_def exact_inv_def)
next
  case (more c c')
  then show ?case using step_exact reachable_inv by blast
qed

end

interpretation demo_exact: answer_contract mem_env "exact_node mem_env demo_plan c h"
  "exact_node_ev mem_env demo_plan c h" "planned demo_plan h" "\<lambda>_ _. True" "\<lambda>_. True" 
  "exact_node_answer mem_env demo_plan c h" for c h
  by unfold_locales

section \<open>The resolver on such a database\<close>

context reliable_env
begin

lemma save_and_end_returns: "\<exists>st'. save_and_end E t ts tr st = Ret () st'"
  using Put_db_ok [of st "makeTrans ts" "Msg2JsonStr E (pb_Trans E) tr"]
  by (auto simp: save_and_end_def)

lemma prepare_next_returns: "\<exists>st'. prepare_next E now t rv st = Ret () st'"
  by (auto simp: prepare_next_def prepare_commit_def Let_def save_and_end_returns split: prod.splits)

lemma prepare_answer_returns:
  assumes "\<And>r. res = Some r \<Longrightarrow> ts_trans_stat r = TransStateCommited
      \<Longrightarrow> \<not> ts_commit_ts r < rv_max_commit_ts rv"
  shows "\<exists>st'. prepare_answer E now t rv res st = Ret () st'"
  using assms prepare_next_returns save_and_end_returns
  by (cases res) (auto simp: prepare_answer_def Let_def split: TransState.splits)

end

section \<open>Properties\<close>





text \<open>
  C13: the assertion in the resolver never fails. On databases that do not fail, a resolver that
  gets an answer its peer has given, or none, returns: in particular a peer's commit timestamp is
  never smaller than the maximum the resolver has seen.
\<close>

theorem resolver_never_asserts:
  assumes "reliable_env E" and "reachable E plan c"
    and "pt_pc (node_tasks (nodes c h) k) = Querying rv"
    and "\<And>a. res = Some a \<Longrightarrow>
      (hash_id (tl_host (rv_list rv ! rv_i rv)), rv_begin_ts rv, a) \<in> sent c"
  shows "\<exists>st'. prepare_answer E now k rv res (nodes c h) = Ret () st'"
proof (rule reliable_env.prepare_answer_returns [OF assms(1)])
  fix a
  assume a: "res = Some a" "ts_trans_stat a = TransStateCommited"
  note inv = store_env.reachable_inv [OF reliable_env.axioms(1) [OF assms(1)] assms(2)]
    and ex = reliable_env.reachable_exact [OF assms(1,2)]
  have "evidence E plan c h rv" and "exact_ev E plan c h rv"
    using inv ex assms(3) unfolding protocol_inv_def exact_inv_def by blast+
  then have "rv_max_commit_ts rv \<le> agreed_ts E plan c (rv_begin_ts rv)" by (rule exact_below)
  moreover have "ts_commit_ts a = agreed_ts E plan c (rv_begin_ts rv)"
    using ex assms(4) [OF a(1)] a(2) unfolding exact_inv_def exact_answer_def by fastforce
  ultimately show "\<not> ts_commit_ts a < rv_max_commit_ts rv" by simp
qed

theorem resolver_never_asserts_witness:
  "\<exists>c rv st'. reachable mem_env demo_plan c \<and> pt_pc (node_tasks (nodes c 1) 99) = Querying rv
    \<and> prepare_answer mem_env ''ts7'' 99 rv (said TransStatePrepared ''ts4'') (nodes c 1) = Ret () st'"
proof -
  obtain c rv where run: "reachable mem_env demo_plan c"
    "pt_pc (node_tasks (nodes c 1) 99) = Querying rv"
    "\<And>a. said TransStatePrepared ''ts4'' = Some a \<Longrightarrow>
      (hash_id (tl_host (rv_list rv ! rv_i rv)), rv_begin_ts rv, a) \<in> sent c"
    by (rule demo_prepared_waits) blast
  from resolver_never_asserts [OF mem.reliable_env_axioms run] run(1,2) show ?thesis by blast
qed

end
