(* ===== verification/Locking.thy ===== *)
theory Locking
  imports CommitTs
begin

text \<open>
  The locks of the keys: what \<open>addLock\<close> decides, what a connection does whose lock is taken, and
  that in a running cluster a lock stays with its transaction until that transaction is decided.
\<close>

section \<open>One call\<close>

definition decided :: "('d, 'j) env \<Rightarrow> ('d, 'z) Storage_scheme \<Rightarrow> string \<Rightarrow> bool" where
  "decided E st ts \<longleftrightarrow> (\<exists>t. fetch_Trans E st ts = Found t
     \<and> (trans_state t = TransStateCommited \<or> trans_state t = TransStateRollback))"

text \<open>A transaction may take the lock of a key that has none, is its own, or a decided one's.\<close>

definition may_lock :: "('d, 'j) env \<Rightarrow> ('d, 'z) Storage_scheme \<Rightarrow> string \<Rightarrow> string \<Rightarrow> bool" where
  "may_lock E st key ts \<longleftrightarrow>
     (case fetch_Lock E st key of
        Missing \<Rightarrow> True
      | Found l \<Rightarrow> lock_trans l = ts \<or> decided E st (lock_trans l)
      | _ \<Rightarrow> False)"

text \<open>The same store but for the lock of \<open>key\<close>.\<close>

definition lock_frame :: "('d, 'j) env \<Rightarrow> ('d, 'z) Storage_scheme \<Rightarrow> ('d, 'z) Storage_scheme
    \<Rightarrow> string \<Rightarrow> bool" where
  "lock_frame E st st' key \<longleftrightarrow>
     (\<forall>key'. key' \<noteq> key \<longrightarrow> fetch_Lock E st' key' = fetch_Lock E st key')
     \<and> (\<forall>ts. fetch_Trans E st' ts = fetch_Trans E st ts)
     \<and> (\<forall>key'. fetch_Entry E st' key' = fetch_Entry E st key')
     \<and> (\<forall>key' vts. fetch_Version E st' key' vts = fetch_Version E st key' vts)"

context reliable_env
begin

lemma addLock_grants:
  assumes "may_lock E st key ts"
  shows "\<exists>st'. addLock E key ts st = Ret 0 st' \<and> fetch_Lock E st' key = Found \<lparr>lock_trans = ts\<rparr>
    \<and> lock_frame E st st' key"
proof -
  obtain st' where p: "put_Lock E st key \<lparr>lock_trans = ts\<rparr> = (kOk, st')" using put_Lock_ok by blast
  note effect = fetch_put_Lock [OF p]
  from p assms effect show ?thesis
    by (auto simp: addLock_eq Let_def may_lock_def decided_def lock_frame_def
        split: fetched.splits intro: Lock.equality)
qed

lemma addLock_refuses:
  assumes "\<not> may_lock E st key ts" and "fetch_Lock E st key \<noteq> Unreadable"
    and "\<And>l. fetch_Lock E st key = Found l \<Longrightarrow> fetch_Trans E st (lock_trans l) \<noteq> Unreadable"
  shows "\<exists>r<0. addLock E key ts st = Ret r st"
  using assms
  by (auto simp: addLock_eq Let_def may_lock_def decided_def split: fetched.splits)

end

section \<open>Locks in a running cluster\<close>

text \<open>Either \<open>ts\<close> is decided or it holds the lock of \<open>key\<close>.\<close>

definition lock_inv :: "('d, 'j) env \<Rightarrow> string \<Rightarrow> string \<Rightarrow> 'd node \<Rightarrow> bool" where
  "lock_inv E key ts st \<longleftrightarrow> decided E st ts \<or> fetch_Lock E st key = Found \<lparr>lock_trans = ts\<rparr>"

definition in_list :: "'d node \<Rightarrow> resolving \<Rightarrow> bool" where
  "in_list st rv \<longleftrightarrow> rv_i rv \<le> length (rv_list rv)"

lemma lock_inv_same: "same_store E st st' \<Longrightarrow> lock_inv E key ts st \<Longrightarrow> lock_inv E key ts st'"
  by (simp add: lock_inv_def decided_def same_store_def same_trans_def)

text \<open>A record that changes: the transaction was undecided and is another one, or it is decided.\<close>

lemma lock_inv_set:
  assumes "lock_inv E key ts st" and set: "trans_set E st st' ts' t'"
    and "\<not> decided E st ts' \<or> trans_state t' = TransStateCommited \<or> trans_state t' = TransStateRollback"
  shows "lock_inv E key ts st'"
proof -
  have f: "fetch_Trans E st' u = (if u = ts' then Found t' else fetch_Trans E st u)"
    and l: "fetch_Lock E st' key = fetch_Lock E st key" for u
    using set by (simp_all add: trans_set_def trans_frame_def)
  from assms(1,3) show ?thesis by (auto simp: lock_inv_def decided_def f l)
qed

lemma addData_locks:
  assumes "store_env E"
  shows "fetch_Lock E (state_of (addData E key val ts type st)) key' = fetch_Lock E st key'"
  by (auto simp: addData_eq fetch_Lock_def put_defs store_env.fetch_Put [OF assms]
      split: fetched.splits prod.splits)

lemma lock_inv_data:
  assumes "store_env E" and "lock_inv E key ts st"
  shows "lock_inv E key ts (state_of (addData E key' val ts' type st))"
  using assms(2) store_env.addData_same [OF assms(1), of st key' val ts' type]
  by (simp add: lock_inv_def decided_def same_trans_def addData_locks [OF assms(1)])

lemma lock_inv_take:
  assumes "store_env E" and "lock_inv E key ts st" and "lock_free E st key'"
    and "put_Lock E st key' \<lparr>lock_trans = ts'\<rparr> = (s, st')"
  shows "lock_inv E key ts st'"
  using assms(2,3) store_env.fetch_put_Lock [OF assms(1,4)]
  by (auto simp: lock_inv_def lock_free_def decided_def)

sublocale store_env \<subseteq> locking: answer_contract E "lock_inv E key ts" in_list "\<lambda>_. True"
  "\<lambda>_ _. True" "\<lambda>_. True" "\<lambda>_ _ _. True" for key ts
proof
  fix st st' :: "'d node" and u and t :: Trans and rq and st1 :: "'d node" and now and r and rv and task
    and s and a :: TransStateRes
  show "lock_inv E key ts st'" if "lock_inv E key ts st" "same_store E st st'"
    using that lock_inv_same by blast
  show "lock_inv E key ts st'" if "lock_inv E key ts st" "lock_free E st k"
    "put_Lock E st k \<lparr>lock_trans = u\<rparr> = (c, st')" for k c
    using lock_inv_take [OF store_env_axioms that] .
  show "keeps (lock_inv E key ts) (addData E k val u type st)" if "lock_inv E key ts st"
    for k val type
    unfolding keeps_def by (rule lock_inv_data [OF store_env_axioms that])
  show "lock_inv E key ts st'" if "lock_inv E key ts st" "fetch_Trans E st u = Missing"
    "trans_set E st st' u Trans_init"
    using that(2) by (intro lock_inv_set [OF that(1,3)]) (simp add: decided_def)
  show "lock_inv E key ts st'" if I: "lock_inv E key ts st" and f: "fetch_Trans E st u = Found t"
    "trans_state t = TransStateBegin" and set: "trans_set E st st1 u (prepared_record (self_hash_id st) rq t)"
    and call: "updateTransSelfCommitTs E u now st1 = Ret r st'" "r \<noteq> 0"
  proof -
    have "lock_inv E key ts st1" using f by (intro lock_inv_set [OF I set]) (simp add: decided_def)
    with stamp_failed_same [OF store_env_axioms call] show ?thesis by (rule lock_inv_same)
  qed
  show "lock_inv E key ts st'" if "lock_inv E key ts st" "fetch_Trans E st u = Found t"
    "trans_state t = TransStateBegin"
    "trans_set E st st' u (stamped now (prepared_record (self_hash_id st) rq t))"
    using that(2,3) by (intro lock_inv_set [OF that(1,4)]) (simp add: decided_def)
  show "lock_inv E key ts st'" if "lock_inv E key ts st"
    "trans_set E st st' u (t\<lparr>trans_state := TransStateRollback\<rparr>)"
    by (rule lock_inv_set [OF that]) simp
  show "lock_inv E key ts (set_pc task (Querying rv) st)" if "lock_inv E key ts st"
    using that by (simp add: lock_inv_def decided_def fetch_defs)
  show "lock_inv E key ts st'" if "lock_inv E key ts st"
    "trans_set E st st' (rv_begin_ts rv) (committed rv)"
    by (rule lock_inv_set [OF that]) (simp add: committed_def)
  show "lock_inv E key ts st'" if "lock_inv E key ts st" "trans_set E st st' (rv_begin_ts rv)
      ((rv_trans rv)\<lparr>trans_state := TransStateCommited, trans_commit_trans := ts_commit_ts a\<rparr>)"
    by (rule lock_inv_set [OF that]) simp
  show "lock_inv E key ts st'" if "lock_inv E key ts st" "trans_set E st st' (rv_begin_ts rv)
      ((rv_trans rv)\<lparr>trans_state := TransStateRollback\<rparr>)"
    by (rule lock_inv_set [OF that]) simp
  show "in_list st (note_state s rv)" if "in_list st rv"
    using that by (simp add: in_list_def)
qed (auto simp: in_list_def first_round_def next_round_def pass_host_def count_host_def rv_list_def)

context store_env
begin

lemma step_locks:
  assumes "step E plan c c'" and "protocol_inv E plan c" and "lock_inv E key ts (nodes c h)"
  shows "lock_inv E key ts (nodes c' h)"
proof (rule locking.step_keeps [OF assms(1,3)])
  show "in_list (nodes c h) rv \<and> rv_i rv < length (rv_list rv)"
    if "pt_pc (node_tasks (nodes c h) k) = Querying rv" for k rv
    using assms(2) that unfolding protocol_inv_def in_list_def by fastforce
qed simp_all

end

interpretation demo_locking: answer_contract mem_env "lock_inv mem_env key ts" in_list "\<lambda>_. True"
  "\<lambda>_ _. True" "\<lambda>_. True" "\<lambda>_ _ _. True" for key ts
  by unfold_locales

section \<open>Properties\<close>

text \<open>
  C20: what \<open>addLock\<close> decides. On a database that does not fail it returns 0 exactly when the key
  has no lock, or the transaction's own, or the lock of a committed or rolled back transaction; the
  transaction then holds the lock and nothing else has changed. Otherwise it returns a negative
  code and changes nothing.
\<close>

theorem addLock_correct:
  assumes "reliable_env E" and "fetch_Lock E st key \<noteq> Unreadable"
    and "\<And>l. fetch_Lock E st key = Found l \<Longrightarrow> fetch_Trans E st (lock_trans l) \<noteq> Unreadable"
  shows "if may_lock E st key ts
    then \<exists>st'. addLock E key ts st = Ret 0 st' \<and> fetch_Lock E st' key = Found \<lparr>lock_trans = ts\<rparr>
      \<and> lock_frame E st st' key
    else \<exists>r<0. addLock E key ts st = Ret r st"
  using reliable_env.addLock_grants [OF assms(1)] reliable_env.addLock_refuses [OF assms(1) _ assms(2,3)]
  by auto

theorem addLock_correct_witness:
  "(\<exists>st'. addLock mem_env ''k'' ''ts4'' demo = Ret 0 st')
    \<and> (\<exists>r<0. addLock mem_env ''k'' ''ts6'' demo = Ret r demo)"
proof -
  have readable: "fetch_Lock mem_env demo ''k'' \<noteq> Unreadable"
    "\<And>l. fetch_Lock mem_env demo ''k'' = Found l \<Longrightarrow> fetch_Trans mem_env demo (lock_trans l) \<noteq> Unreadable"
    by (auto simp: demo_fetch)
  have "may_lock mem_env demo ''k'' ''ts4''" "\<not> may_lock mem_env demo ''k'' ''ts6''"
    by (simp_all add: may_lock_def decided_def demo_fetch Trans_init_def)
  with addLock_correct [OF mem.reliable_env_axioms readable, of "''ts4''"]
    addLock_correct [OF mem.reliable_env_axioms readable, of "''ts6''"]
  show ?thesis by auto
qed

text \<open>
  C19: a lock lasts. In a running cluster, while a transaction that holds a key's lock on a server
  is not decided there, no step of any server takes the lock from it, whatever fails.
\<close>

theorem lock_until_decided:
  assumes "store_env E" and "reachable E plan c" and "step E plan c c'"
    and "fetch_Lock E (nodes c h) key = Found \<lparr>lock_trans = ts\<rparr>"
    and "\<not> decided E (nodes c' h) ts"
  shows "fetch_Lock E (nodes c' h) key = Found \<lparr>lock_trans = ts\<rparr>"
  using store_env.step_locks [OF assms(1,3) store_env.reachable_inv [OF assms(1,2)]] assms(4,5)
  by (auto simp: lock_inv_def)

theorem lock_until_decided_witness:
  "\<exists>c c'. reachable mem_env demo_plan c \<and> step mem_env demo_plan c c'
    \<and> fetch_Lock mem_env (nodes c' 1) ''k'' = Found \<lparr>lock_trans = ''ts9''\<rparr>"
proof -
  obtain c c' where run: "reachable mem_env demo_plan c" "step mem_env demo_plan c c'"
    "fetch_Lock mem_env (nodes c 1) ''k'' = Found \<lparr>lock_trans = ''ts9''\<rparr>"
    "\<not> decided mem_env (nodes c' 1) ''ts9''"
    by (rule demo_lock_step) (auto simp: decided_def)
  from lock_until_decided [OF mem.store_env_axioms run] run(1,2) show ?thesis by blast
qed

text \<open>
  C29: a write waits for its lock. While another transaction that is not decided holds the key's
  lock, a request to insert, update or delete the key writes nothing: the connection waits and the
  server's state is unchanged.
\<close>

theorem write_waits:
  assumes "fetch_Lock E st (rq_key rq) = Found \<lparr>lock_trans = ts\<rparr>" and "ts \<noteq> ss_begin_ts s"
    and "fetch_Trans E st ts = Found t" and "trans_state t \<le> TransStatePrepared"
    and "ss_begin_ts s \<noteq> []" 
  shows "\<exists>s'. serve_write E rq rs s st = Ret (Waits, s') st \<and> ss_begin_ts s' = ss_begin_ts s"
proof -
  have "addLock E (rq_key rq) (ss_begin_ts s) st = Ret (-1) st"
    using assms(1-4) by (cases "trans_state t") (auto simp: addLock_eq Let_def less_eq_TransState_def)
  with assms(5) show ?thesis by (simp add: serve_write_def serve_lock_write_def await_def)
qed

theorem write_waits_witness:
  "\<exists>s'. serve_write mem_env (RpcReq_init\<lparr>rq_key := ''k'', rq_value := ''z''\<rparr>) RpcRes_init
      \<lparr>ss_begin_ts = ''ts6'', ss_start_ts = [], ss_pc = Reading\<rparr> demo_node
    = Ret (Waits, s') demo_node"
proof -
  let ?rq = "RpcReq_init\<lparr>rq_key := ''k'', rq_value := ''z''\<rparr>"
  let ?s = "\<lparr>ss_begin_ts = ''ts6'', ss_start_ts = [], ss_pc = Reading\<rparr> :: session"
  have "fetch_Lock mem_env demo_node (rq_key ?rq) = Found \<lparr>lock_trans = ''ts4''\<rparr>"
    "''ts4'' \<noteq> ss_begin_ts ?s" "fetch_Trans mem_env demo_node ''ts4'' = Found Trans_init"
    "trans_state Trans_init \<le> TransStatePrepared" "ss_begin_ts ?s \<noteq> []"
    using demo_fetch by (simp_all add: demo_node_def fetch_defs fetch_extend Trans_init_def less_eq_TransState_def)
  from write_waits [OF this] show ?thesis by blast
qed

end
