(* ===== verification/Startup.thy ===== *)
theory Startup
  imports Locking
begin

text \<open>
  \<open>startUpClean\<close> when a storage server starts: it visits every transaction record, rolls the open
  ones back and gives each prepared one to a resolver.
\<close>

section \<open>The resolvers during the start\<close>

definition resolvers_ready :: "'d node \<Rightarrow> bool" where
  "resolvers_ready st \<longleftrightarrow> distinct (prepareTaskStack st)
     \<and> (\<forall>k\<in>set (prepareTaskStack st). pt_pc (node_tasks st k) = Yielded)"

definition working :: "'d node \<Rightarrow> string \<Rightarrow> bool" where
  "working st ts \<longleftrightarrow> (\<exists>k rv. k \<notin> set (prepareTaskStack st)
     \<and> pt_pc (node_tasks st k) = Querying rv \<and> rv_begin_ts rv = ts)"

text \<open>What the start makes of a record: the new record, and a resolver for one still prepared.\<close>

definition settled :: "('d, 'j) env \<Rightarrow> 'd node \<Rightarrow> string \<Rightarrow> Trans \<Rightarrow> bool" where
  "settled E st ts t \<longleftrightarrow> (\<exists>t'. fetch_Trans E st ts = Found t' \<and>
     (case trans_state t of
        TransStateBegin \<Rightarrow> t' = t\<lparr>trans_state := TransStateRollback\<rparr>
      | TransStatePrepared \<Rightarrow> t' = t \<and> working st ts \<or> trans_state t' = TransStateCommited
      | _ \<Rightarrow> t' = t))"

lemma boot_ready: "resolvers_ready (boot st)"
  by (simp add: resolvers_ready_def boot_def)

lemma prepare_commit_result:
  assumes "prepare_commit E k rv st = Ret () st'"
  obtains t' st1 where "put_Trans E st (rv_begin_ts rv) t' = (kOk, st1)"
    "trans_state t' = TransStateCommited" "st' = prepare_idle k st1"
  using assms that [of "committed rv"]
  by (auto simp: prepare_commit_def save_and_end_def put_Trans_def committed_def split: prod.splits if_splits)

lemma prepare_next_result:
  assumes "prepare_next E now k rv st = Ret () st'"
  obtains
    rv' where "st' = set_pc k (Querying rv') st" "rv_begin_ts rv' = rv_begin_ts rv"
  | t' st1 where "put_Trans E st (rv_begin_ts rv) t' = (kOk, st1)"
      "trans_state t' = TransStateCommited" "st' = prepare_idle k st1"
proof -
  note decided = that(2)
  let ?ts = "trans_trans_list (rv_trans rv)"
  obtain i n where 1: "skip_self (self_hash_id st) ?ts (rv_i rv) (rv_nHasTransStatePrepared rv) = (i, n)"
    by fastforce
  obtain i' n' where 2: "skip_self (self_hash_id st) ?ts 0 0 = (i', n')" by fastforce
  let ?rv = "rv\<lparr>rv_i := i, rv_nHasTransStatePrepared := n\<rparr>"
  let ?new = "rv\<lparr>rv_max_commit_ts := first_max now (rv_trans rv), rv_i := i',
    rv_nHasTransStatePrepared := n'\<rparr>"
  have commits: thesis if "prepare_commit E k rv' st = Ret () st'" "rv_begin_ts rv' = rv_begin_ts rv" for rv'
    using that(1) by (rule prepare_commit_result) (use that(2) decided in metis)
  note run = assms [unfolded prepare_next_def Let_def 1 2, simplified]
  show thesis
  proof (cases "i < length ?ts")
    case True
    with run that(1) [of ?rv] show thesis by simp
  next
    case False
    note i = this
    show thesis
    proof (cases "n \<noteq> int (length ?ts) \<and> i' < length ?ts")
      case True
      with i run that(1) [of ?new] show thesis by simp
    next
      case False
      with i run commits [of rv] commits [of ?new] show thesis by (auto split: if_splits)
    qed
  qed
qed

context store_env
begin

text \<open>A resolver that is woken for a prepared transaction.\<close>

lemma prepare_resume_next:
  assumes f: "fetch_Trans E st ts = Found t" "trans_state t = TransStatePrepared" and "ts \<noteq> []"
  shows "prepare_resume E now k ts st = prepare_next E now k (first_round now ts t)
    (st\<lparr>node_tasks := (node_tasks st)(k := (node_tasks st k)\<lparr>pt_begin_ts := []\<rparr>)\<rparr>)"
proof -
  obtain v where v: "Get_db E st (makeTrans ts) = (kOk, v)" "decode E (pb_Trans E) Trans_init v = Found t"
    by (cases rule: fetch_cases [where E = E and st = st and key = "makeTrans ts"
          and c = "pb_Trans E" and ?m0.0 = Trans_init])
      (use f(1) in \<open>auto simp: fetch_Trans_def\<close>)
  with assms show ?thesis
    by (simp add: prepare_resume_def prepare_enter_def parsed_eq first_round_def)
qed

lemma prepare_resume_settles:
  assumes ready: "resolvers_ready st" and stack: "prepareTaskStack st = k # rest"
    and f: "fetch_Trans E st ts = Found t" "trans_state t = TransStatePrepared" and ts: "ts \<noteq> []"
    and run: "prepare_resume E now k ts (st\<lparr>prepareTaskStack := rest\<rparr>) = Ret () st'"
  shows "resolvers_ready st' \<and> settled E st' ts t \<and> (\<forall>u. working st u \<longrightarrow> working st' u)"
proof -
  let ?st = "st\<lparr>prepareTaskStack := rest\<rparr>"
  let ?st1 = "?st\<lparr>node_tasks := (node_tasks ?st)(k := (node_tasks ?st k)\<lparr>pt_begin_ts := []\<rparr>)\<rparr>"
  have f1: "fetch_Trans E ?st1 ts = Found t" "fetch_Trans E ?st ts = Found t"
    using f(1) by (simp_all add: fetch_Trans_def fetch_def Get_db_def)
  have k: "k \<notin> set rest" "distinct rest" "\<forall>j\<in>set rest. pt_pc (node_tasks st j) = Yielded"
    using ready stack by (simp_all add: resolvers_ready_def)
  from run [unfolded prepare_resume_next [OF f1(2) f(2) ts]] show ?thesis
  proof (cases rule: prepare_next_result)
    case (1 rv')
    then have st': "prepareTaskStack st' = rest" "pt_pc (node_tasks st' k) = Querying rv'"
      "\<And>j. j \<noteq> k \<Longrightarrow> pt_pc (node_tasks st' j) = pt_pc (node_tasks st j)" "fetch_Trans E st' ts = Found t"
      using f1 by (simp_all add: set_pc_def fetch_Trans_def fetch_def Get_db_def)
    then have "resolvers_ready st'" using k by (auto simp: resolvers_ready_def) metis
    moreover have "working st' ts"
      using st' k(1) 1(2) unfolding working_def first_round_def by auto
    moreover have "working st' u" if "working st u" for u
      using that st' stack unfolding working_def by (metis list.set_intros(1) set_subset_Cons subsetD)
    ultimately show ?thesis using st'(4) f(2) by (simp add: settled_def)
  next
    case (2 t' st2)
    note p = 2(1) [simplified first_round_def, simplified]
    have same: "node_tasks st2 = node_tasks ?st1" "prepareTaskStack st2 = rest"
      using put_Trans_frame [OF 2(1)] node_tasks_more [of st2 ?st1] by (simp_all add: trans_frame_def)
    have st': "prepareTaskStack st' = k # rest" "pt_pc (node_tasks st' k) = Yielded"
      "\<And>j. j \<noteq> k \<Longrightarrow> pt_pc (node_tasks st' j) = pt_pc (node_tasks st j)"
      using 2(3) same by (simp_all add: prepare_idle_def set_pc_def)
    have "fetch_Trans E st2 ts = Found t'" using fetch_put_Trans(1) [OF p] by simp
    then have f': "fetch_Trans E st' ts = Found t'"
      using 2(3) by (simp add: prepare_idle_def set_pc_def fetch_Trans_def fetch_def Get_db_def)
    have "resolvers_ready st'" using st' k by (auto simp: resolvers_ready_def) metis
    moreover have "working st' u" if "working st u" for u
      using that st' stack unfolding working_def by (metis list.set_intros(1))
    ultimately show ?thesis using f' 2(2) f(2) by (simp add: settled_def)
  qed
qed

lemma startUpClean_turn_settles:
  assumes ready: "resolvers_ready st" and f: "fetch_Trans E st ts = Found t"
    and d: "decode E (pb_Trans E) Trans_init v = Found t" and ts: "trans_state t = TransStatePrepared \<Longrightarrow> ts \<noteq> []"
    and run: "startUpClean_turn E (prepare_resume E now) (makeTrans ts) v st = Ret () st'"
  shows "resolvers_ready st' \<and> settled E st' ts t \<and> (\<forall>u. working st u \<longrightarrow> working st' u)"
proof (cases "trans_state t")
  case TransStateBegin
  obtain s st1 where p: "put_Trans E st ts (t\<lparr>trans_state := TransStateRollback\<rparr>) = (s, st1)"
    by fastforce
  with run d TransStateBegin have st': "s = kOk" "st' = st1"
    by (auto simp: startUpClean_turn_def parsed_eq put_Trans_def split: if_splits)
  have "prepareTaskStack st1 = prepareTaskStack st" "node_tasks st1 = node_tasks st"
    using put_Trans_frame [OF p] node_tasks_more [of st1 st] by (simp_all add: trans_frame_def)
  with ready fetch_put_Trans(1) [OF p] st' TransStateBegin show ?thesis
    by (simp add: resolvers_ready_def settled_def working_def)
next
  case TransStatePrepared
  with run d f obtain k rest where stack: "prepareTaskStack st = k # rest"
    and call: "prepare_resume E now k ts (st\<lparr>prepareTaskStack := rest\<rparr>) = Ret () st'"
    by (auto simp: startUpClean_turn_def parsed_eq startCleanTrans_eq split: list.splits)
  show ?thesis
    using prepare_resume_settles [OF ready stack f TransStatePrepared ts [OF TransStatePrepared] call] .
qed (use run d f ready in \<open>auto simp: startUpClean_turn_def parsed_eq settled_def\<close>)

text \<open>A record that is settled stays so when no later turn writes its key.\<close>

lemma settled_later:
  assumes "settled E st ts t" and "Get_db E st' (makeTrans ts) = Get_db E st (makeTrans ts)"
    and "\<And>u. working st u \<Longrightarrow> working st' u"
  shows "settled E st' ts t"
proof -
  have "fetch_Trans E st' ts = fetch_Trans E st ts"
    using assms(2) by (simp add: fetch_Trans_def fetch_def)
  with assms(1,3) show ?thesis by (auto simp: settled_def split: TransState.splits)
qed

lemma startUpClean_loop_settles:
  assumes "startUpClean_loop E (prepare_resume E now) iter st = Ret () st'"
    and "resolvers_ready st" and "snapshot E iter st"
    and "\<And>v t. (makeTrans [], v) \<in> set iter \<Longrightarrow> decode E (pb_Trans E) Trans_init v = Found t
      \<Longrightarrow> trans_state t \<noteq> TransStatePrepared"
  shows "(\<forall>ts v t. (makeTrans ts, v) \<in> set (takeWhile (\<lambda>x. prefix (makeTrans []) (fst x)) iter)
        \<and> decode E (pb_Trans E) Trans_init v = Found t \<longrightarrow> settled E st' ts t)
    \<and> (\<forall>u. working st u \<longrightarrow> working st' u)
    \<and> (\<forall>k. k \<notin> fst ` set iter \<longrightarrow> Get_db E st' k = Get_db E st k)"
  using assms
proof (induction iter arbitrary: st)
  case Nil
  then show ?case by simp
next
  case (Cons kv iter)
  obtain key v where kv: "kv = (key, v)" by fastforce
  show ?case
  proof (cases "prefix (makeTrans []) key")
    case False
    with Cons.prems(1) kv show ?thesis by simp
  next
    case True
    then obtain ts where ts: "key = makeTrans ts" using makeTrans_cases by blast
    note snap = Cons.prems(3) [unfolded kv ts]
    from Cons.prems(1) True obtain st1 where
      turn: "startUpClean_turn E (prepare_resume E now) (makeTrans ts) v st = Ret () st1"
      and rest: "startUpClean_loop E (prepare_resume E now) iter st1 = Ret () st'"
      by (auto simp: kv ts bind_out_eq_Ret)
    obtain t where d: "decode E (pb_Trans E) Trans_init v = Found t"
      using turn by (auto simp: startUpClean_turn_def parsed_eq split: fetched.splits)
    have f: "fetch_Trans E st ts = Found t"
      using snapshot_head [OF snap] d by (simp add: fetch_Trans_def fetch_def)
    have head: "resolvers_ready st1 \<and> settled E st1 ts t \<and> (\<forall>u. working st u \<longrightarrow> working st1 u)"
      using Cons.prems(4) [of v t] d kv ts
      by (intro startUpClean_turn_settles [OF Cons.prems(2) f d _ turn]) auto
    have frame: "Get_db E st1 k = Get_db E st k" if "k \<noteq> makeTrans ts" for k
      using only_key_turn [of ts st now v] that by (simp add: turn)
    have fresh: "makeTrans ts \<notin> fst ` set iter" using snap by (simp add: snapshot_def)
    note IH = Cons.IH [OF rest conjunct1 [OF head] snapshot_tail [OF snap only_key_turn turn]]
    have tail: "(\<forall>ts v t. (makeTrans ts, v) \<in> set (takeWhile (\<lambda>x. prefix (makeTrans []) (fst x)) iter)
        \<and> decode E (pb_Trans E) Trans_init v = Found t \<longrightarrow> settled E st' ts t)
      \<and> (\<forall>u. working st1 u \<longrightarrow> working st' u)
      \<and> (\<forall>k. k \<notin> fst ` set iter \<longrightarrow> Get_db E st' k = Get_db E st1 k)"
      using Cons.prems(4) by (intro IH) auto
    have "settled E st' ts t"
      using head tail fresh by (intro settled_later [of st1 ts t st']) auto
    with tail head frame d True show ?thesis by (auto simp: kv ts)
  qed
qed

end

section \<open>The start of a small store\<close>

lemma demo_start_runs:
  "\<exists>st'. startUpClean mem_env (prepare_resume mem_env ''ts7'') (boot demo_node) = Ret () st'"
proof -
  have "(case startUpClean mem_env (prepare_resume mem_env ''ts7'') (boot demo_node) of
      Ret _ _ \<Rightarrow> True | _ \<Rightarrow> False)"
    by code_simp
  then show ?thesis by (simp split: outcome.splits)
qed

lemma demo_start_records:
  "fetch_Trans mem_env (boot demo_node) ''ts4'' = Found Trans_init"
  "fetch_Trans mem_env (boot demo_node) [] = Missing"
proof -
  have boot: "fetch E c m0 (boot st) key = fetch E c m0 st key" for E c m0 st key
    by (simp add: boot_def fetch_def Get_db_def)
  have "fetch_Trans mem_env demo [] = Missing" by (simp add: demo_def mem_fetch)
  with demo_fetch(5) show "fetch_Trans mem_env (boot demo_node) ''ts4'' = Found Trans_init"
    and "fetch_Trans mem_env (boot demo_node) [] = Missing"
    by (simp_all add: demo_node_def fetch_Trans_def boot fetch_extend)
qed

section \<open>Properties\<close>

text \<open>
  C23: the start settles every transaction. When \<open>startUpClean\<close> returns, every record that was
  open is rolled back, every prepared one is committed or has a resolver asking its participants,
  and the decided ones are as they were.
\<close>

theorem startUpClean_settles:
  assumes "store_env E" and "resolvers_ready st"
    and "startUpClean E (prepare_resume E now) st = Ret () st'"
    and "fetch_Trans E st ts = Found t"
    and "\<And>u. fetch_Trans E st [] = Found u \<Longrightarrow> trans_state u \<noteq> TransStatePrepared"
  shows "settled E st' ts t"
proof -
  let ?it = "db_Iterator E (db st)"
  let ?rest = "dropWhile (\<lambda>kv. fst kv < makeTrans []) ?it"
  note env = store_env.axioms(2) [OF assms(1)]
  have get: "(k, v) \<in> set ?it \<longleftrightarrow> Get_db E st k = (kOk, v)" for k v
    using rocksdb.iterator_get [OF env] by (simp add: Get_db_def)
  obtain v where v: "Get_db E st (makeTrans ts) = (kOk, v)" "decode E (pb_Trans E) Trans_init v = Found t"
    by (cases rule: fetch_cases [where E = E and st = st and key = "makeTrans ts"
          and c = "pb_Trans E" and ?m0.0 = Trans_init])
      (use assms(4) in \<open>auto simp: fetch_Trans_def\<close>)
  then have "(makeTrans ts, v) \<in> set (filter (\<lambda>x. prefix (makeTrans []) (fst x)) ?it)"
    by (simp add: get)
  then have visited: "(makeTrans ts, v) \<in> set (takeWhile (\<lambda>x. prefix (makeTrans []) (fst x)) ?rest)"
    using scan_prefix_sorted [OF rocksdb.iterator_sorted [OF env]] by metis
  have rest: "(k, w) \<in> set ?it" if "(k, w) \<in> set ?rest" for k w using that by (rule set_dropWhileD)
  have none: "trans_state u \<noteq> TransStatePrepared"
    if "(makeTrans [], w) \<in> set ?rest" "decode E (pb_Trans E) Trans_init w = Found u" for w u
    using assms(5) [of u] that rest get by (simp add: fetch_Trans_def fetch_def)
  have "(\<forall>ts v t. (makeTrans ts, v) \<in> set (takeWhile (\<lambda>x. prefix (makeTrans []) (fst x)) ?rest)
      \<and> decode E (pb_Trans E) Trans_init v = Found t \<longrightarrow> settled E st' ts t)
    \<and> (\<forall>u. working st u \<longrightarrow> working st' u)
    \<and> (\<forall>k. k \<notin> fst ` set ?rest \<longrightarrow> Get_db E st' k = Get_db E st k)"
    by (rule store_env.startUpClean_loop_settles [OF assms(1) assms(3) [unfolded startUpClean_def] assms(2)
      store_env.snapshot_start [OF assms(1)]]) (rule none)
  with visited v(2) show ?thesis by blast
qed

theorem startUpClean_settles_witness:
  "\<exists>st' t. startUpClean mem_env (prepare_resume mem_env ''ts7'') (boot demo_node) = Ret () st'
    \<and> fetch_Trans mem_env st' ''ts4'' = Found t \<and> trans_state t = TransStateRollback"
proof -
  obtain st' where run: "startUpClean mem_env (prepare_resume mem_env ''ts7'') (boot demo_node) = Ret () st'"
    using demo_start_runs by blast
  from startUpClean_settles [OF mem.store_env_axioms boot_ready run demo_start_records(1)]
    demo_start_records(2) run
  show ?thesis by (auto simp: settled_def Trans_init_def)
qed

end
