(* ===== verification/Resolution.thy ===== *)
theory Resolution
  imports Startup
begin

text \<open>
  A round of \<open>prepare_routine\<close> from its entry to its decision: whatever the other participants
  answer, one round in which they all are prepared commits, and one in which some have rolled back
  rolls back, after at most one question to each of them.
\<close>

section \<open>Answering a resolver\<close>

text \<open>
  The answers to the first \<open>n\<close> questions of the resolver \<open>t\<close>: \<open>ans h\<close> is what the server with hash
  id \<open>h\<close> says. A resolver that has come to its end asks nobody.
\<close>

fun answer_round :: "('d, 'j) env \<Rightarrow> string \<Rightarrow> nat \<Rightarrow> (uint32 \<Rightarrow> TransStateRes) \<Rightarrow> nat
    \<Rightarrow> (unit, 'd node) outcome \<Rightarrow> (unit, 'd node) outcome" where
  "answer_round E now t ans 0 m = m"
| "answer_round E now t ans (Suc n) m =
     answer_round E now t ans n (bind_out m (\<lambda>_ st.
       case pt_pc (node_tasks st t) of
         Querying rv \<Rightarrow>
           prepare_answer E now t rv (Some (ans (hash_id (tl_host (rv_list rv ! rv_i rv))))) st
       | _ \<Rightarrow> Ret () st))"

text \<open>The servers still to be asked.\<close>

definition others :: "uint32 \<Rightarrow> TransList list \<Rightarrow> uint32 list" where
  "others self ts = filter (\<lambda>h. h \<noteq> self) (map (\<lambda>tl. hash_id (tl_host tl)) ts)"

definition rolled_back :: "(uint32 \<Rightarrow> TransStateRes) \<Rightarrow> uint32 list \<Rightarrow> bool" where
  "rolled_back ans hs \<longleftrightarrow> (\<exists>h\<in>set hs. ts_trans_stat (ans h) = TransStateRollback)"

text \<open>What a round that has decided leaves.\<close>

definition round_done :: "('d, 'j) env \<Rightarrow> nat \<Rightarrow> string \<Rightarrow> bool \<Rightarrow> string \<Rightarrow> 'd node \<Rightarrow> 'd node \<Rightarrow> bool" where
  "round_done E t ts abort cts st st' \<longleftrightarrow>
     (\<exists>u. fetch_Trans E st' ts = Found u
        \<and> (if abort then trans_state u = TransStateRollback
           else trans_state u = TransStateCommited \<and> trans_commit_trans u = cts))
     \<and> pt_pc (node_tasks st' t) = Yielded
     \<and> prepareTaskStack st' = t # prepareTaskStack st"

lemma others_takeWhile:
  "others self (drop (i + length (takeWhile (\<lambda>tl. hash_id (tl_host tl) = self) (drop i ts))) ts)
   = others self (drop i ts)"
proof -
  let ?P = "\<lambda>tl. hash_id (tl_host tl) = self"
  let ?xs = "drop i ts"
  have "others self ?xs = others self (takeWhile ?P ?xs @ drop (length (takeWhile ?P ?xs)) ?xs)"
    by (simp add: dropWhile_eq_drop [symmetric] del: drop_drop)
  also have "\<dots> = others self (takeWhile ?P ?xs) @ others self (drop (length (takeWhile ?P ?xs)) ?xs)"
    by (simp add: others_def)
  also have "others self (takeWhile ?P ?xs) = []"
    by (auto simp: others_def filter_empty_conv dest: set_takeWhileD)
  finally show ?thesis by (simp add: add.commute)
qed

lemma answer_round_end:
  assumes "\<And>rv. pt_pc (node_tasks st t) \<noteq> Querying rv"
  shows "answer_round E now t ans n (Ret () st) = Ret () st"
  using assms by (induction n) (auto split: prepare_pc.splits)

lemma prepare_answer_prepared:
  assumes "ts_trans_stat r = TransStatePrepared"
  shows "prepare_answer E now t rv (Some r) st = prepare_next E now t (rv
    \<lparr>rv_trans := (rv_trans rv)\<lparr>trans_trans_list := (rv_list rv)
       [rv_i rv := (rv_list rv ! rv_i rv)\<lparr>tl_state := TransStatePrepared\<rparr>]\<rparr>,
     rv_i := Suc (rv_i rv), rv_nHasTransStatePrepared := rv_nHasTransStatePrepared rv + 1,
     rv_max_commit_ts := (if ts_commit_ts r > rv_max_commit_ts rv then ts_commit_ts r
       else rv_max_commit_ts rv)\<rparr>) st"
  using assms by (simp add: prepare_answer_def rv_list_def Let_def)

text \<open>Where a turn of the loop over the hosts stops: at the next host to ask, or at the end.\<close>

lemma prepare_next_asks:
  assumes "others (self_hash_id st) (drop (rv_i rv) (rv_list rv)) = h # hs"
    and "rv_nHasTransStatePrepared rv = int (rv_i rv)"
  obtains i where "i < length (rv_list rv)" "hash_id (tl_host (rv_list rv ! i)) = h"
    "others (self_hash_id st) (drop (Suc i) (rv_list rv)) = hs"
    "prepare_next E now t rv st
     = Ret () (set_pc t (Querying (rv\<lparr>rv_i := i, rv_nHasTransStatePrepared := int i\<rparr>)) st)"
proof -
  let ?P = "\<lambda>tl. hash_id (tl_host tl) = self_hash_id st"
  define i where "i = rv_i rv + length (takeWhile ?P (drop (rv_i rv) (rv_list rv)))"
  have o: "others (self_hash_id st) (drop i (rv_list rv)) = h # hs"
    using others_takeWhile [of "self_hash_id st" "rv_i rv" "rv_list rv"] assms(1) by (simp add: i_def)
  then have i: "i < length (rv_list rv)"
    by (rule contrapos_pp) (simp add: others_def)
  have "\<not> ?P (rv_list rv ! i)"
    using nth_length_takeWhile [of ?P "drop (rv_i rv) (rv_list rv)"] i by (simp add: i_def)
  with o i have "hash_id (tl_host (rv_list rv ! i)) = h"
    "others (self_hash_id st) (drop (Suc i) (rv_list rv)) = hs"
    by (simp_all add: others_def Cons_nth_drop_Suc [symmetric])
  moreover have "prepare_next E now t rv st
     = Ret () (set_pc t (Querying (rv\<lparr>rv_i := i, rv_nHasTransStatePrepared := int i\<rparr>)) st)"
    using i assms(2) by (simp add: prepare_next_def skip_self_def Let_def rv_list_def i_def)
  ultimately show thesis using that i by blast
qed

lemma prepare_next_commits:
  assumes "others (self_hash_id st) (drop (rv_i rv) (rv_list rv)) = []"
    and "rv_nHasTransStatePrepared rv = int (rv_i rv)" and "rv_i rv \<le> length (rv_list rv)"
  shows "prepare_next E now t rv st = prepare_commit E t rv st"
proof -
  have "takeWhile (\<lambda>tl. hash_id (tl_host tl) = self_hash_id st)
        (drop (rv_i rv) (trans_trans_list (rv_trans rv)))
      = drop (rv_i rv) (trans_trans_list (rv_trans rv))"
    using assms(1) by (simp add: others_def filter_empty_conv rv_list_def)
  note this [simp]
  show ?thesis using assms(2,3) by (simp add: prepare_next_def skip_self_def rv_list_def Let_def)
qed

context reliable_env
begin

lemma save_and_end_settles:
  assumes "if abort then trans_state u = TransStateRollback
    else trans_state u = TransStateCommited \<and> trans_commit_trans u = cts"
  shows "\<exists>st'. save_and_end E t ts u st = Ret () st' \<and> round_done E t ts abort cts st st'"
proof -
  obtain st1 where p: "put_Trans E st ts u = (kOk, st1)" using put_Trans_ok by blast
  have f: "trans_frame E st st1 ts" by (rule put_Trans_frame [OF p])
  have "save_and_end E t ts u st = Ret () (prepare_idle t st1)"
    using p by (simp add: save_and_end_def put_Trans_def)
  moreover have "fetch_Trans E (prepare_idle t st1) ts = Found u"
    using fetch_put_Trans(1) [OF p, of ts] by (simp add: fetch_defs fetch_def)
  ultimately show ?thesis
    using f assms by (simp add: prepare_idle_def set_pc_def trans_frame_def round_done_def)
qed

text \<open>Nobody left to ask: the round commits. A host that has rolled back: the round rolls back.\<close>

lemma next_settles:
  assumes "others (self_hash_id st) (drop (rv_i rv) (rv_list rv)) = []"
    and "rv_nHasTransStatePrepared rv = int (rv_i rv)" and "rv_i rv \<le> length (rv_list rv)"
  shows "\<exists>st'. prepare_next E now t rv st = Ret () st'
    \<and> round_done E t (rv_begin_ts rv) False (rv_max_commit_ts rv) st st'"
  unfolding prepare_next_commits [OF assms] prepare_commit_def
  by (rule save_and_end_settles) simp

lemma rollback_settles:
  assumes "ts_trans_stat r = TransStateRollback"
  shows "\<exists>st'. prepare_answer E now t rv (Some r) st = Ret () st'
    \<and> round_done E t (rv_begin_ts rv) True cts st st'"
  using assms by (auto simp: prepare_answer_def Let_def intro!: save_and_end_settles)

lemma round_done_stays:
  "round_done E t ts abort cts st st' \<Longrightarrow> answer_round E now t ans n (Ret () st') = Ret () st'"
  by (rule answer_round_end) (simp add: round_done_def)

lemma round_done_from:
  "round_done E t ts abort cts (set_pc k pc st) st' \<longleftrightarrow> round_done E t ts abort cts st st'"
  by (simp add: round_done_def set_pc_def)

lemma prepared_counts:
  assumes "ts_trans_stat r = TransStatePrepared" and "rv_i rv < length (rv_list rv)"
    and "rv_nHasTransStatePrepared rv = int (rv_i rv)"
  obtains rv' where "prepare_answer E now t rv (Some r) st = prepare_next E now t rv' st"
    "rv_nHasTransStatePrepared rv' = int (rv_i rv')" "rv_i rv' \<le> length (rv_list rv')"
    "rv_begin_ts rv' = rv_begin_ts rv" "rv_max_commit_ts rv' = max (ts_commit_ts r) (rv_max_commit_ts rv)"
    "drop (rv_i rv') (rv_list rv') = drop (Suc (rv_i rv)) (rv_list rv)"
  using assms(2,3)
  by (intro that [OF prepare_answer_prepared [OF assms(1)]])
    (auto simp: rv_list_def max_def not_le)

text \<open>
  From the turn of any host on: \<open>hs\<close> are the servers still to be asked, all of them prepared or
  rolled back; \<open>n\<close> questions are enough if they are no fewer.
\<close>

lemma round_settles:
  assumes "others (self_hash_id st) (drop (rv_i rv) (rv_list rv)) = hs" and "length hs \<le> n"
    and "rv_nHasTransStatePrepared rv = int (rv_i rv)" and "rv_i rv \<le> length (rv_list rv)"
    and "\<forall>h\<in>set hs. ts_trans_stat (ans h) \<in> {TransStatePrepared, TransStateRollback}"
  shows "\<exists>st'. answer_round E now t ans n (prepare_next E now t rv st) = Ret () st'
    \<and> round_done E t (rv_begin_ts rv) (rolled_back ans hs)
        (fold max (map (\<lambda>h. ts_commit_ts (ans h)) hs) (rv_max_commit_ts rv)) st st'"
  using assms
proof (induction hs arbitrary: rv st n)
  case Nil
  obtain st' where s: "prepare_next E now t rv st = Ret () st'"
    "round_done E t (rv_begin_ts rv) False (rv_max_commit_ts rv) st st'"
    using next_settles [OF Nil.prems(1,3,4)] by blast
  from round_done_stays [OF s(2)] s show ?case by (simp add: rolled_back_def)
next
  case (Cons h hs rv st n)
  from Cons.prems(2) obtain n' where n: "n = Suc n'" "length hs \<le> n'" by (cases n) auto
  obtain i where i: "i < length (rv_list rv)" "hash_id (tl_host (rv_list rv ! i)) = h"
    "others (self_hash_id st) (drop (Suc i) (rv_list rv)) = hs"
    and asks: "prepare_next E now t rv st
      = Ret () (set_pc t (Querying (rv\<lparr>rv_i := i, rv_nHasTransStatePrepared := int i\<rparr>)) st)"
    using prepare_next_asks [OF Cons.prems(1,3)] .
  define rv1 where "rv1 = rv\<lparr>rv_i := i, rv_nHasTransStatePrepared := int i\<rparr>"
  define st1 where "st1 = set_pc t (Querying rv1) st"
  have step: "answer_round E now t ans n (prepare_next E now t rv st)
      = answer_round E now t ans n' (prepare_answer E now t rv1 (Some (ans h)) st1)"
    using i(2) by (simp add: n(1) asks st1_def rv1_def set_pc_def rv_list_def)
  show ?case
  proof (cases "ts_trans_stat (ans h) = TransStateRollback")
    case True
    have begin_ts: "rv_begin_ts rv1 = rv_begin_ts rv" by (simp add: rv1_def)
    obtain st' where s: "prepare_answer E now t rv1 (Some (ans h)) st1 = Ret () st'"
      "round_done E t (rv_begin_ts rv) True (fold max (map (\<lambda>h. ts_commit_ts (ans h)) (h # hs))
        (rv_max_commit_ts rv)) st st'"
      using rollback_settles [OF True, where rv = rv1 and st = st1 and now = now and t = t]
      unfolding begin_ts st1_def round_done_from by blast
    with True round_done_stays [OF s(2)] show ?thesis by (simp add: step rolled_back_def)
  next
    case False
    with Cons.prems(5) have p: "ts_trans_stat (ans h) = TransStatePrepared" by simp
    from i(1) obtain rv2 where rv2:
      "prepare_answer E now t rv1 (Some (ans h)) st1 = prepare_next E now t rv2 st1"
      "rv_nHasTransStatePrepared rv2 = int (rv_i rv2)" "rv_i rv2 \<le> length (rv_list rv2)"
      "rv_begin_ts rv2 = rv_begin_ts rv"
      "rv_max_commit_ts rv2 = max (ts_commit_ts (ans h)) (rv_max_commit_ts rv)"
      "drop (rv_i rv2) (rv_list rv2) = drop (Suc i) (rv_list rv)"
      using prepared_counts [OF p, of rv1 now t st1] by (auto simp: rv1_def rv_list_def)
    have hs: "others (self_hash_id st1) (drop (rv_i rv2) (rv_list rv2)) = hs"
      using i(3) by (simp add: rv2(6) st1_def)
    have "round_done E t ts a cts st1 st' \<longleftrightarrow> round_done E t ts a cts st st'" for ts a cts st'
      by (simp add: st1_def round_done_from)
    with Cons.IH [OF hs n(2) rv2(2,3)] Cons.prems(5) show ?thesis
      by (simp add: step rv2(1,4,5) rolled_back_def p)
  qed
qed

text \<open>The same from the entry, where the clean-up resumes a resolver.\<close>

lemma clean_enters:
  assumes "fetch_Trans E st ts = Found tr" and "trans_state tr = TransStatePrepared"
    and "ts \<noteq> []" and "prepareTaskStack st = t # rest"
  obtains st1 where "startCleanTrans E (prepare_resume E now) ts st
      = prepare_next E now t (first_round now ts tr) st1"
    "self_hash_id st1 = self_hash_id st" "prepareTaskStack st1 = rest"
proof (rule that)
  have "fetch_Trans E (st\<lparr>prepareTaskStack := rest\<rparr>) ts = Found tr"
    using assms(1) by (simp add: fetch_Trans_def fetch_def Get_db_def)
  from prepare_resume_next [OF this assms(2,3)] assms
  show "startCleanTrans E (prepare_resume E now) ts st
      = prepare_next E now t (first_round now ts tr)
        (st\<lparr>prepareTaskStack := rest, node_tasks := (node_tasks st)
           (t := (node_tasks st t)\<lparr>pt_begin_ts := []\<rparr>)\<rparr>)"
    by (simp add: startCleanTrans_eq)
qed simp_all

lemma clean_decides:
  assumes "fetch_Trans E st ts = Found tr" and "trans_state tr = TransStatePrepared"
    and "ts \<noteq> []" and "prepareTaskStack st = t # rest"
    and "others (self_hash_id st) (trans_trans_list tr) = hs"
    and "\<forall>h\<in>set hs. ts_trans_stat (ans h) \<in> {TransStatePrepared, TransStateRollback}"
  shows "\<exists>st' u. answer_round E now t ans (length hs)
      (startCleanTrans E (prepare_resume E now) ts st) = Ret () st'
    \<and> fetch_Trans E st' ts = Found u
    \<and> (if \<exists>h\<in>set hs. ts_trans_stat (ans h) = TransStateRollback
        then trans_state u = TransStateRollback
        else trans_state u = TransStateCommited
          \<and> trans_commit_trans u = Max (insert (first_max now tr) ((\<lambda>h. ts_commit_ts (ans h)) ` set hs)))
    \<and> pt_pc (node_tasks st' t) = Yielded \<and> prepareTaskStack st' = prepareTaskStack st"
proof -
  obtain st1 where st1: "startCleanTrans E (prepare_resume E now) ts st
      = prepare_next E now t (first_round now ts tr) st1"
    "self_hash_id st1 = self_hash_id st" "prepareTaskStack st1 = rest"
    using clean_enters [OF assms(1-4)] .
  have "fold max (map (\<lambda>h. ts_commit_ts (ans h)) hs) (first_max now tr)
      = Max (insert (first_max now tr) ((\<lambda>h. ts_commit_ts (ans h)) ` set hs))"
    by (simp add: Max.set_eq_fold [symmetric] del: Max.set_eq_fold)
  moreover have "\<exists>st'. answer_round E now t ans (length hs)
        (prepare_next E now t (first_round now ts tr) st1) = Ret () st'
      \<and> round_done E t (rv_begin_ts (first_round now ts tr)) (rolled_back ans hs)
          (fold max (map (\<lambda>h. ts_commit_ts (ans h)) hs) (rv_max_commit_ts (first_round now ts tr))) st1 st'"
    by (rule round_settles) (use assms(5,6) st1(2) in \<open>simp_all add: first_round_def rv_list_def\<close>)
  ultimately show ?thesis
    using assms(4) st1(1,3)
    by (auto simp: round_done_def rolled_back_def first_round_def split: if_splits)
qed

end

text \<open>
  C9: a prepared transaction is decided. On a database that does not fail, the resolver that the
  clean-up starts on a prepared transaction decides it within one question to each of the other
  participants, when each of them has prepared or rolled back: it rolls back if one of them has,
  and otherwise commits with the greatest of their commit timestamps and its own. The resolver is
  idle afterwards, back on the stack it was taken from.
\<close>

theorem resolver_decides:
  assumes "reliable_env E" and "fetch_Trans E st ts = Found tr"
    and "trans_state tr = TransStatePrepared" and "ts \<noteq> []" and "prepareTaskStack st = t # rest"
    and "\<forall>h\<in>set (others (self_hash_id st) (trans_trans_list tr)).
      ts_trans_stat (ans h) \<in> {TransStatePrepared, TransStateRollback}"
  shows "\<exists>st' u. answer_round E now t ans (length (others (self_hash_id st) (trans_trans_list tr)))
      (startCleanTrans E (prepare_resume E now) ts st) = Ret () st'
    \<and> fetch_Trans E st' ts = Found u
    \<and> (if \<exists>h\<in>set (others (self_hash_id st) (trans_trans_list tr)).
            ts_trans_stat (ans h) = TransStateRollback
        then trans_state u = TransStateRollback
        else trans_state u = TransStateCommited
          \<and> trans_commit_trans u = Max (insert (first_max now tr)
              ((\<lambda>h. ts_commit_ts (ans h)) ` set (others (self_hash_id st) (trans_trans_list tr)))))
    \<and> pt_pc (node_tasks st' t) = Yielded \<and> prepareTaskStack st' = prepareTaskStack st"
  using reliable_env.clean_decides [OF assms(1-5) refl assms(6)] .

text \<open>A server with hash id 1 that has prepared \<open>ts9\<close> with the servers 2 and 3, which have too.\<close>

definition demo_voted :: Trans where
  "demo_voted = Trans_init\<lparr>trans_state := TransStatePrepared, trans_self_commit_ts := ''ts3'',
     trans_trans_list := map (\<lambda>h. TransList_init\<lparr>tl_host := Host_init\<lparr>hash_id := h\<rparr>\<rparr>) [2, 1, 3]\<rparr>"

definition demo_waiting :: "mem node" where
  "demo_waiting = snd (put_Trans mem_env \<lparr>db = RBT.empty, prepareTaskStack = [4, 5],
     self_hash_id = 1, node_tasks = (\<lambda>_. \<lparr>pt_begin_ts = [], pt_pc = Yielded\<rparr>)\<rparr> ''ts9'' demo_voted)"

definition demo_says :: "uint32 \<Rightarrow> TransStateRes" where
  "demo_says h = TransStateRes_init\<lparr>ts_trans_stat := TransStatePrepared,
     ts_commit_ts := (if h = 2 then ''ts8'' else ''ts5'')\<rparr>"

lemma demo_waiting_facts:
  "fetch_Trans mem_env demo_waiting ''ts9'' = Found demo_voted"
  "prepareTaskStack demo_waiting = [4, 5]" "self_hash_id demo_waiting = 1"
proof -
  let ?st = "\<lparr>db = RBT.empty, prepareTaskStack = [4, 5], self_hash_id = 1,
    node_tasks = (\<lambda>_. \<lparr>pt_begin_ts = [], pt_pc = Yielded\<rparr>)\<rparr> :: mem node"
  obtain st where p: "put_Trans mem_env ?st ''ts9'' demo_voted = (kOk, st)"
    using mem.put_Trans_ok by blast
  then have "demo_waiting = st" by (simp add: demo_waiting_def)
  with mem.fetch_put_Trans(1) [OF p, of "''ts9''"] mem.put_Trans_frame [OF p]
  show "fetch_Trans mem_env demo_waiting ''ts9'' = Found demo_voted"
    "prepareTaskStack demo_waiting = [4, 5]" "self_hash_id demo_waiting = 1"
    by (simp_all add: trans_frame_def)
qed

theorem resolver_decides_witness:
  "\<exists>st' u. answer_round mem_env ''ts7'' 4 demo_says 2
      (startCleanTrans mem_env (prepare_resume mem_env ''ts7'') ''ts9'' demo_waiting) = Ret () st'
    \<and> fetch_Trans mem_env st' ''ts9'' = Found u \<and> trans_state u = TransStateCommited
    \<and> trans_commit_trans u = ''ts8'' \<and> prepareTaskStack st' = [4, 5]"
proof -
  have o: "others (self_hash_id demo_waiting) (trans_trans_list demo_voted) = [2, 3]"
    by (simp add: demo_waiting_facts demo_voted_def others_def)
  have says: "ts_trans_stat (demo_says h) = TransStatePrepared" for h
    by (simp add: demo_says_def)
  have two: "length [2, 3 :: uint32] = 2" by simp
  have m: "Max (insert (first_max ''ts7'' demo_voted)
      ((\<lambda>h. ts_commit_ts (demo_says h)) ` set [2, 3])) = ''ts8''"
    by (simp add: first_max_def demo_voted_def demo_says_def)
  show ?thesis
    using resolver_decides [OF mem.reliable_env_axioms demo_waiting_facts(1), of 4 "[5]" demo_says "''ts7''"]
    unfolding o m two by (auto simp: says demo_waiting_facts(2) demo_voted_def simp del: answer_round.simps)
qed

end
