(* ===== verification/Chains.thy ===== *)
theory Chains
  imports Locking
begin

text \<open>
  The versions of the keys in a running cluster: as long as every transaction begins with a timestamp
  of its own, each key of each server has one well-formed list of versions, only the newest of
  which can belong to an undecided transaction, the one that holds the key's lock. So a read always
  returns, and no transaction is seen on one server and passed over on another.
\<close>

section \<open>One server\<close>

text \<open>The version list of a key: recorded transactions, decided but for the newest, which is locked.\<close>

definition chain_ok :: "('d, 'j) env \<Rightarrow> 'd node \<Rightarrow> string \<Rightarrow> bool" where
  "chain_ok E st key \<longleftrightarrow> (\<exists>vs. chain E st key vs \<and> stamps_ok vs \<and> recorded E st vs
     \<and> (\<forall>v\<in>set vs. decided E st (data_cur_version v)
          \<or> v = hd vs \<and> fetch_Lock E st key = Found \<lparr>lock_trans = data_cur_version v\<rparr>))"

definition chains_ok :: "('d, 'j) env \<Rightarrow> 'd node \<Rightarrow> bool" where
  "chains_ok E st \<longleftrightarrow> (\<forall>key. chain_ok E st key)"

definition open_trans :: "('d, 'j) env \<Rightarrow> string \<Rightarrow> 'd node \<Rightarrow> bool" where
  "open_trans E ts st \<longleftrightarrow> (\<exists>t. fetch_Trans E st ts = Found t \<and> trans_state t = TransStateBegin)"

text \<open>A transaction a connection may write for.\<close>

definition writing :: "('d, 'j) env \<Rightarrow> 'd node \<Rightarrow> string \<Rightarrow> bool" where
  "writing E st ts \<longleftrightarrow> ts \<noteq> [] \<and> plain_ts ts \<and> open_trans E ts st"

lemma chain_okI:
  assumes "chain E st key vs" and "stamps_ok vs" and "recorded E st vs"
    and "\<And>v. v \<in> set vs \<Longrightarrow> \<not> decided E st (data_cur_version v)
      \<Longrightarrow> v = hd vs \<and> fetch_Lock E st key = Found \<lparr>lock_trans = data_cur_version v\<rparr>"
  shows "chain_ok E st key"
  using assms unfolding chain_ok_def by blast

lemma chain_okE:
  assumes "chain_ok E st key"
  obtains vs where "chain E st key vs" "stamps_ok vs" "recorded E st vs"
    "\<And>v. v \<in> set vs \<Longrightarrow> \<not> decided E st (data_cur_version v)
      \<Longrightarrow> v = hd vs \<and> fetch_Lock E st key = Found \<lparr>lock_trans = data_cur_version v\<rparr>"
  using assms unfolding chain_ok_def by blast

lemma open_not_decided: "open_trans E ts st \<Longrightarrow> \<not> decided E st ts"
  by (auto simp: open_trans_def decided_def)

lemma open_same: "same_trans E st st' \<Longrightarrow> open_trans E ts st' = open_trans E ts st"
  by (simp add: open_trans_def same_trans_def)

lemma writing_same: "same_trans E st st' \<Longrightarrow> writing E st ts \<Longrightarrow> writing E st' ts"
  by (simp add: writing_def open_same)

text \<open>A chain is what is found under the keys of its versions.\<close>

lemma chain_cong:
  assumes "fetch_Entry E st' key = fetch_Entry E st key"
    and "\<And>vts. fetch_Version E st' key vts = fetch_Version E st key vts"
  shows "chain E st' key vs = chain E st key vs"
proof -
  have "chain_tail E st' key nx ws = chain_tail E st key nx ws" for nx ws
    using assms(2) by (intro chain_tail_cong)
  with assms(1) show ?thesis by (cases vs) simp_all
qed

text \<open>
  A change that keeps the versions and the records of their transactions, or decides some of them,
  and keeps the lock, or finds all of them decided.
\<close>

lemma chain_ok_keep:
  assumes ok: "chain_ok E st key" and chain: "\<And>vs. stamps_ok vs \<Longrightarrow> chain E st' key vs = chain E st key vs"
    and rec: "\<And>ts t. fetch_Trans E st ts = Found t \<Longrightarrow> \<exists>t'. fetch_Trans E st' ts = Found t'"
    and dec: "\<And>ts. decided E st ts \<Longrightarrow> decided E st' ts"
    and lock: "fetch_Lock E st' key = fetch_Lock E st key
      \<or> (\<forall>l. fetch_Lock E st key = Found l \<longrightarrow> decided E st (lock_trans l))"
  shows "chain_ok E st' key"
proof -
  from ok obtain vs where vs: "chain E st key vs" "stamps_ok vs" "recorded E st vs"
    "\<And>v. v \<in> set vs \<Longrightarrow> \<not> decided E st (data_cur_version v)
      \<Longrightarrow> v = hd vs \<and> fetch_Lock E st key = Found \<lparr>lock_trans = data_cur_version v\<rparr>"
    by (rule chain_okE) blast
  show ?thesis
  proof (rule chain_okI)
    show "chain E st' key vs" using vs(1) chain [OF vs(2)] by simp
    show "recorded E st' vs" using vs(3) rec unfolding recorded_def by blast
    show "v = hd vs \<and> fetch_Lock E st' key = Found \<lparr>lock_trans = data_cur_version v\<rparr>"
      if "v \<in> set vs" "\<not> decided E st' (data_cur_version v)" for v
    proof -
      have "\<not> decided E st (data_cur_version v)" using that(2) dec by blast
      with vs(4) [OF that(1)] lock show ?thesis by auto
    qed
  qed (rule vs(2))
qed

lemma chains_ok_same:
  assumes "chains_ok E st" and "same_store E st st'"
  shows "chains_ok E st'"
  unfolding chains_ok_def
proof
  fix key
  have f: "fetch_Trans E st' ts = fetch_Trans E st ts" "fetch_Lock E st' key = fetch_Lock E st key" for ts
    using assms(2) by (simp_all add: same_store_def same_trans_def)
  show "chain_ok E st' key"
  proof (rule chain_ok_keep)
    show "chain_ok E st key" using assms(1) by (simp add: chains_ok_def)
    show "chain E st' key vs = chain E st key vs" for vs
      by (intro chain_cong) (use assms(2) in \<open>simp_all add: same_store_def\<close>)
  qed (simp_all add: f decided_def)
qed

lemma chains_ok_set:
  assumes "chains_ok E st" and set: "trans_set E st st' ts t'"
    and "\<not> decided E st ts \<or> trans_state t' = TransStateCommited \<or> trans_state t' = TransStateRollback"
  shows "chains_ok E st'"
  unfolding chains_ok_def
proof
  fix key
  have frame: "trans_frame E st st' ts" and own: "fetch_Trans E st' ts = Found t'"
    using set by (simp_all add: trans_set_def)
  then have f: "fetch_Trans E st' u = (if u = ts then Found t' else fetch_Trans E st u)" for u
    by (simp add: trans_frame_def)
  show "chain_ok E st' key"
  proof (rule chain_ok_keep)
    show "chain_ok E st key" using assms(1) by (simp add: chains_ok_def)
    show "decided E st' u" if "decided E st u" for u
      using that assms(3) by (auto simp: decided_def f)
    show "fetch_Lock E st' key = fetch_Lock E st key
        \<or> (\<forall>l. fetch_Lock E st key = Found l \<longrightarrow> decided E st (lock_trans l))"
      using frame by (simp add: trans_frame_def)
  qed (simp_all add: chain_trans_frame [OF frame] f)
qed

context store_env
begin

lemma chains_ok_lock:
  assumes ok: "chains_ok E st" and free: "lock_free E st key" and p: "put_Lock E st key l = (s, st')"
  shows "chains_ok E st'"
  unfolding chains_ok_def
proof
  fix key'
  note f = fetch_put_Lock [OF p]
  show "chain_ok E st' key'"
  proof (rule chain_ok_keep)
    show "chain_ok E st key'" using ok by (simp add: chains_ok_def)
    show "chain E st' key' vs = chain E st key' vs" for vs by (intro chain_cong f)
    show "fetch_Lock E st' key' = fetch_Lock E st key'
        \<or> (\<forall>l. fetch_Lock E st key' = Found l \<longrightarrow> decided E st (lock_trans l))"
      using free by (cases "key' = key") (auto simp: f lock_free_def decided_def)
  qed (simp_all add: f decided_def)
qed

lemma push_version_hd [simp]: "data_cur_version (hd (push_version type val ts vs)) = ts"
  by (cases vs) auto

lemma push_version_tl:
  "ts \<notin> data_cur_version ` set (tl vs) \<Longrightarrow> v \<in> set (tl (push_version type val ts vs))
    \<Longrightarrow> v \<in> set vs \<and> data_cur_version v \<noteq> ts"
  by (cases vs) (auto simp: image_iff split: if_splits)

text \<open>The one that holds the lock replaces its own newest version or pushes a new one.\<close>

lemma chain_ok_push:
  assumes vs: "stamps_ok vs" "recorded E st vs"
    "\<And>v. v \<in> set vs \<Longrightarrow> \<not> decided E st (data_cur_version v)
      \<Longrightarrow> v = hd vs \<and> fetch_Lock E st key = Found \<lparr>lock_trans = data_cur_version v\<rparr>"
    and lock: "fetch_Lock E st key = Found \<lparr>lock_trans = ts\<rparr>" and w: "writing E st ts"
    and st': "\<And>u. fetch_Trans E st' u = fetch_Trans E st u" "fetch_Lock E st' key = fetch_Lock E st key"
      "chain E st' key (push_version type val ts vs)"
  shows "chain_ok E st' key"
proof -
  have ts: "ts \<noteq> []" "plain_ts ts" "\<not> decided E st ts" "\<exists>t. fetch_Trans E st ts = Found t"
    using w open_not_decided by (auto simp: writing_def open_trans_def)
  have dec: "decided E st' u \<longleftrightarrow> decided E st u" for u by (simp add: decided_def st'(1))
  have rest: "decided E st (data_cur_version v)" if "v \<in> set vs" "data_cur_version v \<noteq> ts" for v
    using vs(3) [OF that(1)] that(2) lock by auto
  have tl: "ts \<notin> data_cur_version ` set (tl vs)"
  proof (cases vs)
    case (Cons v us)
    have "u \<noteq> v" if "u \<in> set us" for u using that vs(1) by (auto simp: Cons stamps_ok_def)
    then have "decided E st (data_cur_version u)" if "u \<in> set us" for u
      using vs(3) [of u] that by (auto simp: Cons)
    with ts(3) show ?thesis by (auto simp: Cons)
  qed simp
  show ?thesis
  proof (rule chain_okI [OF st'(3)])
    show "stamps_ok (push_version type val ts vs)" using stamps_ok_push [OF vs(1) ts(1,2) tl] .
    show "recorded E st' (push_version type val ts vs)"
      using vs(2) ts(4) by (cases vs) (auto simp: recorded_def st'(1))
    show "v = hd (push_version type val ts vs)
        \<and> fetch_Lock E st' key = Found \<lparr>lock_trans = data_cur_version v\<rparr>"
      if "v \<in> set (push_version type val ts vs)" "\<not> decided E st' (data_cur_version v)" for v
    proof -
      have "v \<notin> set (tl (push_version type val ts vs))"
        using push_version_tl [OF tl] rest that(2) by (auto simp: dec)
      with that(1) have "v = hd (push_version type val ts vs)"
        by (cases "push_version type val ts vs") auto
      with lock st'(2) show ?thesis by simp
    qed
  qed
qed

end

context reliable_env
begin

lemma chains_ok_data:
  assumes ok: "chains_ok E st" and w: "writing E st ts" and held: "lock_held E st key ts"
  shows "keeps (chains_ok E) (addData E key val ts type st)"
proof -
  from ok obtain vs where vs: "chain E st key vs" "stamps_ok vs" "recorded E st vs"
    "\<And>v. v \<in> set vs \<Longrightarrow> \<not> decided E st (data_cur_version v)
      \<Longrightarrow> v = hd vs \<and> fetch_Lock E st key = Found \<lparr>lock_trans = data_cur_version v\<rparr>"
    unfolding chains_ok_def by (metis chain_okE)
  have lock: "fetch_Lock E st key = Found \<lparr>lock_trans = ts\<rparr>" using held by (simp add: lock_held_def)
  show ?thesis
  proof (cases "addData E key val ts type st")
    case (Abort c st')
    then show ?thesis
      using vs(1) by (cases vs) (auto simp: addData_eq split: prod.splits if_splits)
  next
    case (Ret r st')
    note effect = addData_effect [OF Ret vs(1,2)]
    have same: "fetch_Trans E st' u = fetch_Trans E st u" "fetch_Lock E st' k = fetch_Lock E st k" for u k
      using effect by (simp_all add: data_frame_def)
    have "chain_ok E st' k" for k
    proof (cases "k = key \<and> r = 0")
      case True
      with effect show ?thesis
        using chain_ok_push [OF vs(2,3,4) lock w same] by auto
    next
      case False
      have c: "chain E st' key vs" if "r \<noteq> 0" using effect that by simp
      show ?thesis
      proof (cases "k = key")
        case True
        with False c vs show ?thesis
          by (intro chain_okI [of E st' k vs]) (auto simp: recorded_def decided_def same)
      next
        case other: False
        show ?thesis
          by (rule chain_ok_keep [of E st])
            (use ok effect other in \<open>auto simp: chains_ok_def data_frame_def decided_def\<close>)
      qed
    qed
    with Ret show ?thesis by (simp add: chains_ok_def)
  qed
qed

end

sublocale reliable_env \<subseteq> chains: answer_contract E "chains_ok E" in_list "\<lambda>_. True" "writing E"
  "\<lambda>_. True" "\<lambda>_ _ _. True"
proof
  fix st st' :: "'d node" and u and t :: Trans and rq and st1 :: "'d node" and now and r and rv and task
    and s and a :: TransStateRes
  show "chains_ok E st'" if "chains_ok E st" "same_store E st st'"
    using that by (rule chains_ok_same)
  show "chains_ok E st'" if "chains_ok E st" "lock_free E st k"
    "put_Lock E st k \<lparr>lock_trans = u\<rparr> = (c, st')" for k c
    using that by (rule chains_ok_lock)
  show "writing E st' u" if "writing E st u" "same_trans E st st'"
    using that(2,1) by (rule writing_same)
  show "keeps (chains_ok E) (addData E k val u type st)" if "chains_ok E st" "writing E st u"
    "lock_held E st k u" for k val type
    using that by (rule chains_ok_data)
  show "chains_ok E st'" if "chains_ok E st" "fetch_Trans E st u = Missing" "trans_set E st st' u Trans_init"
    using that(2) by (intro chains_ok_set [OF that(1,3)]) (simp add: decided_def)
  show "chains_ok E st'" if I: "chains_ok E st" and f: "fetch_Trans E st u = Found t"
    "trans_state t = TransStateBegin" and set: "trans_set E st st1 u (prepared_record (self_hash_id st) rq t)"
    and call: "updateTransSelfCommitTs E u now st1 = Ret r st'" "r \<noteq> 0"
  proof -
    have "chains_ok E st1" using f by (intro chains_ok_set [OF I set]) (simp add: decided_def)
    then show ?thesis by (rule chains_ok_same [OF _ stamp_failed_same [OF store_env_axioms call]])
  qed
  show "chains_ok E st'" if "chains_ok E st" "fetch_Trans E st u = Found t"
    "trans_state t = TransStateBegin"
    "trans_set E st st' u (stamped now (prepared_record (self_hash_id st) rq t))"
    using that(2,3) by (intro chains_ok_set [OF that(1,4)]) (simp add: decided_def)
  show "chains_ok E st'" if "chains_ok E st" "trans_set E st st' u (t\<lparr>trans_state := TransStateRollback\<rparr>)"
    by (rule chains_ok_set [OF that]) simp
  show "chains_ok E (set_pc task (Querying rv) st)" if "chains_ok E st"
    unfolding chains_ok_def
  proof
    fix key
    show "chain_ok E (set_pc task (Querying rv) st) key"
    proof (rule chain_ok_keep)
      show "chain_ok E st key" using that by (simp add: chains_ok_def)
      show "chain E (set_pc task (Querying rv) st) key vs = chain E st key vs" for vs
        by (intro chain_cong) (simp_all add: fetch_defs)
    qed (simp_all add: fetch_defs decided_def)
  qed
  show "chains_ok E st'" if "chains_ok E st" "trans_set E st st' (rv_begin_ts rv) (committed rv)"
    by (rule chains_ok_set [OF that]) (simp add: committed_def)
  show "chains_ok E st'" if "chains_ok E st" "trans_set E st st' (rv_begin_ts rv)
      ((rv_trans rv)\<lparr>trans_state := TransStateCommited, trans_commit_trans := ts_commit_ts a\<rparr>)"
    by (rule chains_ok_set [OF that]) simp
  show "chains_ok E st'" if "chains_ok E st" "trans_set E st st' (rv_begin_ts rv)
      ((rv_trans rv)\<lparr>trans_state := TransStateRollback\<rparr>)"
    by (rule chains_ok_set [OF that]) simp
  show "in_list st (note_state s rv)" if "in_list st rv"
    using that by (simp add: in_list_def)
qed (auto simp: in_list_def first_round_def next_round_def pass_host_def count_host_def rv_list_def)

text \<open>
  The record of an open transaction, as long as no connection prepares or gives up that one: every
  other segment leaves it open. A resolver works on another transaction.
\<close>

definition elsewhere :: "('d, 'j) env \<Rightarrow> string \<Rightarrow> 'd node \<Rightarrow> resolving \<Rightarrow> bool" where
  "elsewhere E u st rv \<longleftrightarrow> in_list st rv \<and> rv_begin_ts rv \<noteq> u"

lemma open_set:
  "open_trans E u st \<Longrightarrow> trans_set E st st' ts t \<Longrightarrow> ts \<noteq> u \<Longrightarrow> open_trans E u st'"
  by (simp add: open_trans_def trans_set_def trans_frame_def)

sublocale store_env \<subseteq> opened: answer_contract E "open_trans E u" "elsewhere E u" "\<lambda>_. True"
  "\<lambda>_ _. True" "\<lambda>ts. ts \<noteq> u" "\<lambda>_ _ _. True" for u
proof
  fix st st' :: "'d node" and ts and t :: Trans and rq and st1 :: "'d node" and now and r and rv and task
    and s and a :: TransStateRes
  show "open_trans E u st'" if "open_trans E u st" "same_store E st st'"
    using that open_same same_store_trans_part by blast
  show "open_trans E u st'" if "open_trans E u st" "put_Lock E st k \<lparr>lock_trans = ts\<rparr> = (c, st')" for k c
    using that(1) open_same [OF put_same_trans(1) [OF that(2)]] by simp
  show "keeps (open_trans E u) (addData E k val ts type st)" if "open_trans E u st" for k val type
    unfolding keeps_def using that open_same [OF addData_same] by blast
  show "open_trans E u st'" if "open_trans E u st" "fetch_Trans E st ts = Missing"
    "trans_set E st st' ts Trans_init"
    using that by (intro open_set [OF that(1,3)]) (auto simp: open_trans_def)
  show "open_trans E u st'" if I: "open_trans E u st" "ts \<noteq> u"
    and set: "trans_set E st st1 ts (prepared_record (self_hash_id st) rq t)"
    and call: "updateTransSelfCommitTs E ts now st1 = Ret r st'" "r \<noteq> 0"
    using open_set [OF I(1) set I(2)]
      open_same [OF same_store_trans_part [OF stamp_failed_same [OF store_env_axioms call]]] by simp
  show "open_trans E u st'" if "open_trans E u st" "ts \<noteq> u"
    "trans_set E st st' ts (stamped now (prepared_record (self_hash_id st) rq t))"
    using that(1,3,2) by (rule open_set)
  show "open_trans E u st'" if "open_trans E u st" "ts \<noteq> u"
    "trans_set E st st' ts (t\<lparr>trans_state := TransStateRollback\<rparr>)"
    using that(1,3,2) by (rule open_set)
  show "elsewhere E u st (first_round now ts t)" if "open_trans E u st" "fetch_Trans E st ts = Found t"
    "trans_state t = TransStatePrepared"
    using that by (auto simp: elsewhere_def in_list_def first_round_def open_trans_def)
  show "open_trans E u (set_pc task (Querying rv) st)" if "open_trans E u st"
    using that by (simp add: open_trans_def fetch_defs)
  show "open_trans E u st'" if "open_trans E u st" "elsewhere E u st rv"
    "trans_set E st st' (rv_begin_ts rv) (committed rv)"
    using that(2) by (intro open_set [OF that(1,3)]) (simp add: elsewhere_def)
  show "open_trans E u st'" if "open_trans E u st" "elsewhere E u st rv" "trans_set E st st' (rv_begin_ts rv)
      ((rv_trans rv)\<lparr>trans_state := TransStateCommited, trans_commit_trans := ts_commit_ts a\<rparr>)"
    using that(2) by (intro open_set [OF that(1,3)]) (simp add: elsewhere_def)
  show "open_trans E u st'" if "open_trans E u st" "elsewhere E u st rv" "trans_set E st st' (rv_begin_ts rv)
      ((rv_trans rv)\<lparr>trans_state := TransStateRollback\<rparr>)"
    using that(2) by (intro open_set [OF that(1,3)]) (simp add: elsewhere_def)
  show "elsewhere E u st (note_state s rv)" if "elsewhere E u st rv"
    using that by (simp add: elsewhere_def in_list_def)
qed (auto simp: elsewhere_def in_list_def next_round_def pass_host_def count_host_def rv_list_def)

end
