(* ===== verification/Orderly.thy ===== *)
theory Orderly
  imports Chains
begin

text \<open>
  Runs in which every transaction begins with a timestamp of its own: the logic server takes it from
  the clock. The storage servers do not check it of a connection that goes on after a failed begin,
  so it is an assumption on the steps here. In such a run each connection's transaction is open, the
  versions of every key are well formed, and reads have an answer.
\<close>

section \<open>A connection and its transaction\<close>

definition session_ok :: "('d, 'j) env \<Rightarrow> 'd node \<Rightarrow> session \<Rightarrow> bool" where
  "session_ok E st s \<longleftrightarrow> (ss_begin_ts s \<noteq> [] \<longrightarrow> writing E st (ss_begin_ts s))
     \<and> (ss_pc s \<noteq> Reading \<longrightarrow> ss_begin_ts s \<noteq> [])"

text \<open>After a segment the connection is as it should be, and goes on with its transaction or has none.\<close>

definition goes_on :: "('d, 'j) env \<Rightarrow> session \<Rightarrow> (reply \<times> session, 'd node) outcome \<Rightarrow> bool" where
  "goes_on E s m \<longleftrightarrow> (\<forall>rep s' st'. m = Ret (rep, s') st' \<longrightarrow>
     session_ok E st' s' \<and> (ss_begin_ts s' = ss_begin_ts s \<or> ss_begin_ts s' = []))"

lemma session_ok_same: "session_ok E st s \<Longrightarrow> same_trans E st st' \<Longrightarrow> session_ok E st' s"
  using writing_same by (auto simp: session_ok_def)

lemma goes_on_simps [simp]:
  "session_ok E st s \<Longrightarrow> ss_begin_ts s = ss_begin_ts s0 \<Longrightarrow> goes_on E s0 (respond rs s st)"
  "session_ok E st s \<Longrightarrow> ss_begin_ts s = ss_begin_ts s0 \<Longrightarrow> goes_on E s0 (respond_err code e rs s st)"
  "session_ok E st s \<Longrightarrow> ss_begin_ts s = ss_begin_ts s0 \<Longrightarrow> ss_begin_ts s \<noteq> []
    \<Longrightarrow> goes_on E s0 (await w rq rs s st)"
  "goes_on E s0 (Abort c st)"
  by (simp_all add: goes_on_def respond_def respond_err_def await_def session_ok_def)

lemma goes_on_bind: "(\<And>a st1. m = Ret a st1 \<Longrightarrow> goes_on E s (k a st1)) \<Longrightarrow> goes_on E s (bind_out m k)"
  by (cases m) simp_all

context store_env
begin

lemma serve_read_goes_on:
  assumes "session_ok E st s" and "ss_begin_ts s \<noteq> []" and "serve_read E now rq rs s st = Some m"
  shows "goes_on E s m"
proof -
  obtain r where R: "ReadData E (if rq_get_for_update rq \<noteq> 0 then now else ss_begin_ts s)
      (rq_key rq) read_out_init st = Some r"
    using assms(3) by (auto simp: serve_read_def Let_def split: option.splits)
  with ReadData_state [OF R] assms show ?thesis
    by (cases r) (auto simp: serve_read_def Let_def split: prod.splits if_splits)
qed

lemma serve_lock_get_goes_on:
  assumes "session_ok E st s" and "ss_begin_ts s \<noteq> []" and "serve_lock_get E now rq rs s st = Some m"
  shows "goes_on E s m"
proof (cases "addLock E (rq_key rq) (ss_begin_ts s) st")
  case (Ret r st1)
  have "session_ok E st1 s"
    using session_ok_same [OF assms(1) addLock_same_trans [of st "rq_key rq" "ss_begin_ts s"]] Ret by simp
  with Ret assms(2,3) serve_read_goes_on show ?thesis
    by (auto simp: serve_lock_get_def split: if_splits)
qed (use assms(3) in \<open>auto simp: serve_lock_get_def\<close>)

lemma serve_lock_write_goes_on:
  assumes "session_ok E st s" and "ss_begin_ts s \<noteq> []"
  shows "goes_on E s (serve_lock_write E rq rs s st)"
  unfolding serve_lock_write_def
proof (rule goes_on_bind)
  fix r st1
  assume l: "addLock E (rq_key rq) (ss_begin_ts s) st = Ret r st1"
  have ok1: "session_ok E st1 s"
    using session_ok_same [OF assms(1) addLock_same_trans [of st "rq_key rq" "ss_begin_ts s"]] l by simp
  have "session_ok E st2 s" if "addData E key val ts type st1 = Ret q st2" for key val ts type q st2
    using session_ok_same [OF ok1 addData_same [of st1 key val ts type]] that by simp
  with ok1 assms(2) show "goes_on E s (if r \<noteq> 0 then await Lock_for_write rq rs s st1
      else bind_out (addData E (rq_key rq) (rq_value rq) (ss_begin_ts s) (rq_request_type rq) st1)
        (\<lambda>ret st. if ret \<noteq> 0 then respond_err ret ''addData err'' rs s st else respond rs s st))"
    by (auto intro!: goes_on_bind)
qed

lemma serve_prepare_goes_on:
  assumes "session_ok E st s"
  shows "goes_on E s (serve_prepare E now rq rs s st)"
proof -
  let ?s = "s\<lparr>ss_start_ts := rq_start_ts rq\<rparr>"
  have ok: "session_ok E st1 ?s"
    if "updateTransPrepared E (ss_begin_ts s) rq st = Ret r st1" "r \<noteq> 0" for r st1
  proof -
    note e = updateTransPrepared_effect [OF that(1)]
    from trans_frame_same [OF e(1) e(3) [OF that(2)]]
    have "session_ok E st1 s" by (rule session_ok_same [OF assms same_store_trans_part])
    then show ?thesis by (simp add: session_ok_def)
  qed
  have last: "goes_on E s (respond rs (?s\<lparr>ss_begin_ts := [], ss_start_ts := []\<rparr>) st1)" for st1
    by (simp add: goes_on_def respond_def session_ok_def)
  show ?thesis
    using assms ok last by (auto simp: serve_prepare_def Let_def intro!: goes_on_bind)
qed

end

context reliable_env
begin

lemma serve_begin_session:
  assumes "session_ok E st s" and "serve_begin E rq rs s st = Ret (rep, s') st'"
    and fresh: "ss_begin_ts s = [] \<Longrightarrow> ss_begin_ts s' \<noteq> [] \<Longrightarrow> plain_ts (ss_begin_ts s')
      \<and> fetch_Trans E st (ss_begin_ts s') = Missing"
  shows "session_ok E st' s'"
proof (cases "ss_begin_ts s = []")
  case False
  with assms(1,2) show ?thesis
    by (auto simp: serve_begin_def respond_err_def respond_def session_ok_def)
next
  case True
  obtain r where r: "addTrans E (rq_begin_ts rq) st = Ret r st'"
    and s': "ss_begin_ts s' = rq_begin_ts rq" "ss_pc s' = Reading"
    using assms(2) True by (cases "addTrans E (rq_begin_ts rq) st")
      (auto simp: serve_begin_def respond_err_def respond_def Let_def split: if_splits)
  show ?thesis
  proof (cases "rq_begin_ts rq = []")
    case False
    obtain st1 where p: "put_Trans E st (rq_begin_ts rq) Trans_init = (kOk, st1)" using put_Trans_ok by blast
    from False fresh True s' have f: "plain_ts (rq_begin_ts rq)" "fetch_Trans E st (rq_begin_ts rq) = Missing"
      by auto
    with r p have "st' = st1" by (simp add: addTrans_eq)
    with fetch_put_Trans(1) [OF p] f False s' show ?thesis
      by (simp add: session_ok_def writing_def open_trans_def Trans_init_def)
  qed (simp add: session_ok_def s')
qed

text \<open>A message: the connection's transaction stays open, or ends, or is a new one.\<close>

lemma serve_msg_session:
  assumes ok: "session_ok E st s" and call: "serve_msg E now m s st = Some (Ret (rep, s') st')"
    and fresh: "ss_begin_ts s = [] \<Longrightarrow> ss_begin_ts s' \<noteq> [] \<Longrightarrow> plain_ts (ss_begin_ts s')
      \<and> fetch_Trans E st (ss_begin_ts s') = Missing"
  shows "session_ok E st' s'
    \<and> (ss_begin_ts s \<noteq> [] \<longrightarrow> ss_begin_ts s' = ss_begin_ts s \<or> ss_begin_ts s' = [])"
proof -
  let ?rq = "mutable_rpc_request m"
  have goes: "?thesis" if "goes_on E s (Ret (rep, s') st')" using that by (simp add: goes_on_def)
  have begins: "?thesis" if "serve_begin E ?rq RpcRes_init s st = Ret (rep, s') st'"
  proof -
    have "ss_begin_ts s \<noteq> [] \<longrightarrow> ss_begin_ts s' = ss_begin_ts s"
      using that by (auto simp: serve_begin_def respond_err_def respond_def)
    with serve_begin_session [OF ok that fresh] show ?thesis by blast
  qed
  have wr: "goes_on E s (serve_write E ?rq RpcRes_init s st)"
    using ok serve_lock_write_goes_on by (simp add: serve_write_def)
  have get: "goes_on E s r" if "serve_get E now ?rq RpcRes_init s st = Some r" for r
    using that ok serve_read_goes_on serve_lock_get_goes_on
    by (auto simp: serve_get_def Let_def split: if_splits)
  have ts: "goes_on E s (serve_trans_state E tq s st)" for tq
    using ok by (auto simp: serve_trans_state_def goes_on_def parsed_eq Let_def
        split: prod.splits fetched.splits if_splits)
  have rest: "goes_on E s (serve_commit RpcRes_init s st)" "goes_on E s (respond RpcRes_init s st)"
    using ok by (simp_all add: serve_commit_def)
  show ?thesis
  proof (cases "msg_msg_type m")
    case MSG_Type_Rpc_Request
    then show ?thesis
      using call goes begins wr get rest serve_prepare_goes_on [OF ok, of now ?rq RpcRes_init]
      by (cases "rq_request_type ?rq")
        (auto simp: serve_msg_def Let_def simp del: mutable_rpc_request.simps)
  next
    case MSG_Type_TransState_Request
    then show ?thesis
      using call goes ts [of "mutable_trans_state_request m"]
      by (simp add: serve_msg_def del: mutable_trans_state_request.simps)
  qed (use call ok in \<open>auto simp: serve_msg_def\<close>)
qed

lemma serve_timeout_goes_on:
  assumes "session_ok E st s" and "serve_timeout E now s st = Some m" and "ss_pc s \<noteq> Reading"
  shows "goes_on E s m"
  using assms serve_lock_get_goes_on serve_read_goes_on serve_lock_write_goes_on
  by (auto simp: serve_timeout_def session_ok_def split: session_pc.splits wait_at.splits)

lemma serve_event_goes_on: "session_ok E st s \<Longrightarrow> goes_on E s (serve_event s st)"
  by (auto simp: serve_event_def goes_on_def respond_def session_ok_def split: session_pc.splits)

end

section \<open>Orderly runs\<close>

text \<open>A transaction that begins on a server has a timestamp the server has no record of.\<close>

definition fresh_begin :: "('d, 'j) env \<Rightarrow> 'd cluster \<Rightarrow> 'd cluster \<Rightarrow> bool" where
  "fresh_begin E c c' \<longleftrightarrow> (\<forall>h n s s'. conns c h n = Some s \<longrightarrow> conns c' h n = Some s'
     \<longrightarrow> ss_begin_ts s = [] \<longrightarrow> ss_begin_ts s' \<noteq> []
     \<longrightarrow> plain_ts (ss_begin_ts s') \<and> fetch_Trans E (nodes c h) (ss_begin_ts s') = Missing)"

inductive orderly :: "('d, 'j) env \<Rightarrow> (string \<Rightarrow> Host list) \<Rightarrow> 'd cluster \<Rightarrow> bool" for E plan where
  start: "initial E c \<Longrightarrow> (\<And>h key. fetch_Entry E (nodes c h) key = Missing) \<Longrightarrow> orderly E plan c"
| more: "orderly E plan c \<Longrightarrow> step E plan c c' \<Longrightarrow> fresh_begin E c c' \<Longrightarrow> orderly E plan c'"

lemma orderly_reachable: "orderly E plan c \<Longrightarrow> reachable E plan c"
  by (induction rule: orderly.induct) (auto intro: reachable.intros)

text \<open>The connections of a server: each one's transaction is open, and no two have the same.\<close>

definition sessions_ok :: "('d, 'j) env \<Rightarrow> 'd node \<Rightarrow> (nat \<Rightarrow> session option) \<Rightarrow> bool" where
  "sessions_ok E st cs \<longleftrightarrow> (\<forall>n s. cs n = Some s \<longrightarrow> session_ok E st s)
     \<and> (\<forall>n n' s s'. cs n = Some s \<longrightarrow> cs n' = Some s' \<longrightarrow> n \<noteq> n' \<longrightarrow> ss_begin_ts s \<noteq> []
          \<longrightarrow> ss_begin_ts s \<noteq> ss_begin_ts s')"

lemma sessions_ok_empty [simp]: "sessions_ok E st Map.empty"
  by (simp add: sessions_ok_def)

lemma sessions_ok_drop: "sessions_ok E st cs \<Longrightarrow> sessions_ok E st (cs(n := None))"
  by (auto simp: sessions_ok_def)

lemma sessions_ok_new: "sessions_ok E st cs \<Longrightarrow> sessions_ok E st (cs(n := Some session_init))"
  by (auto simp: sessions_ok_def session_ok_def session_init_def)

lemma session_ok_open:
  assumes "session_ok E st s" and "ss_begin_ts s \<noteq> [] \<Longrightarrow> open_trans E (ss_begin_ts s) st'"
  shows "session_ok E st' s"
  using assms by (auto simp: session_ok_def writing_def)

text \<open>A segment of no connection, or of connection \<open>n\<close>, keeps the other transactions open.\<close>

lemma sessions_ok_others:
  assumes "sessions_ok E st cs" and "\<And>u. open_trans E u st \<Longrightarrow> open_trans E u st'"
  shows "sessions_ok E st' cs"
  using assms unfolding sessions_ok_def session_ok_def writing_def by blast

lemma sessions_ok_own:
  assumes ok: "sessions_ok E st cs" and n: "cs n = Some s"
    and keep: "\<And>u. open_trans E u st \<Longrightarrow> u \<noteq> ss_begin_ts s \<or> ss_begin_ts s = [] \<Longrightarrow> open_trans E u st'"
    and own: "session_ok E st' s'"
    and ts: "ss_begin_ts s' = ss_begin_ts s \<or> ss_begin_ts s' = [] \<or> \<not> open_trans E (ss_begin_ts s') st"
  shows "sessions_ok E st' (cs(n := Some s'))"
proof -
  have other: "session_ok E st s1" "ss_begin_ts s1 \<noteq> [] \<Longrightarrow> ss_begin_ts s1 \<noteq> ss_begin_ts s"
    if "cs m = Some s1" "m \<noteq> n" for m s1
    using ok that n unfolding sessions_ok_def by blast+
  have "session_ok E st' s1" if "cs m = Some s1" "m \<noteq> n" for m s1
    by (rule session_ok_open [OF _ keep]) (use other [OF that] in \<open>auto simp: session_ok_def writing_def\<close>)
  moreover have "ss_begin_ts s1 \<noteq> ss_begin_ts s'" if "cs m = Some s1" "m \<noteq> n" "ss_begin_ts s1 \<noteq> []" for m s1
    using other [OF that(1,2)] that(3) ts by (auto simp: session_ok_def writing_def)
  ultimately show ?thesis
    using own ok unfolding sessions_ok_def by (auto split: if_splits) metis+
qed

lemma sessions_ok_end:
  assumes ok: "sessions_ok E st cs" and n: "cs n = Some s"
    and keep: "\<And>u. open_trans E u st \<Longrightarrow> u \<noteq> ss_begin_ts s \<or> ss_begin_ts s = [] \<Longrightarrow> open_trans E u st'"
  shows "sessions_ok E st' (cs(n := None))"
proof -
  have "sessions_ok E st' (cs(n := Some session_init))"
    by (rule sessions_ok_own [OF ok n keep]) (simp_all add: session_ok_def session_init_def)
  from sessions_ok_drop [OF this, of n] show ?thesis by simp
qed

definition orderly_inv :: "('d, 'j) env \<Rightarrow> 'd cluster \<Rightarrow> bool" where
  "orderly_inv E c \<longleftrightarrow> (\<forall>h. chains_ok E (nodes c h) \<and> sessions_ok E (nodes c h) (conns c h)
     \<and> (\<not> up c h \<longrightarrow> conns c h = Map.empty))"

text \<open>A segment of server \<open>h\<close> changes no other server; a death closes all its connections.\<close>

definition server_ok :: "('d, 'j) env \<Rightarrow> uint32 \<Rightarrow> 'd cluster \<Rightarrow> bool" where
  "server_ok E h c \<longleftrightarrow> sessions_ok E (nodes c h) (conns c h) \<and> (\<not> up c h \<longrightarrow> conns c h = Map.empty)"

lemma conns_simps [simp]:
  "conns (set_conn h n s c) h = (conns c h)(n := s)"
  "g \<noteq> h \<Longrightarrow> conns (set_conn h n s c) g = conns c g"
  "conns (set_down h c) h = Map.empty" "g \<noteq> h \<Longrightarrow> conns (set_down h c) g = conns c g"
  "up (set_down h c) h = False" "g \<noteq> h \<Longrightarrow> up (set_down h c) g = up c g"
  "conns (finish h n m r c) = conns (set_conn h n (snd r) c)" "up (finish h n m r c) = up c"
  by (simp_all add: set_conn_def set_down_def finish_def)

lemma server_ok_settle:
  assumes "g = h \<Longrightarrow> (\<And>a st. r = Ret a st \<Longrightarrow> server_ok E h (k a (set_node h st c)))"
    and "g \<noteq> h \<Longrightarrow> server_ok E g c"
    and "\<And>a st. g \<noteq> h \<Longrightarrow> server_ok E g (k a (set_node h st c)) = server_ok E g c"
  shows "server_ok E g (settle h r k c)"
  using assms by (cases "g = h"; cases r) (auto simp: server_ok_def)

lemma server_ok_finish [simp]:
  "g \<noteq> h \<Longrightarrow> server_ok E g (finish h n m x (set_node h st c)) = server_ok E g c"
  "g \<noteq> h \<Longrightarrow> server_ok E g (set_conn h n o' (set_node h st c)) = server_ok E g c"
  "g \<noteq> h \<Longrightarrow> server_ok E g (set_node h st c) = server_ok E g c"
  by (simp_all add: server_ok_def)

context reliable_env
begin

text \<open>A resolver works on a transaction that has been voted on, which is not open.\<close>

lemma resolver_elsewhere:
  assumes "protocol_inv E plan c" and "pt_pc (node_tasks (nodes c h) k) = Querying rv"
    and "open_trans E u (nodes c h)"
  shows "elsewhere E u (nodes c h) rv \<and> rv_i rv < length (rv_list rv)"
proof -
  have "evidence E plan c h rv" and i: "rv_i rv < length (rv_list rv)"
    using assms(1,2) unfolding protocol_inv_def by blast+
  then obtain t where t: "fetch_Trans E (nodes c h) (rv_begin_ts rv) = Found t" "has_voted t"
    unfolding evidence_def voted_def by blast
  then have "record_ok E plan c (rv_begin_ts rv) t" using assms(1) unfolding protocol_inv_def by blast
  with t have "trans_state t \<noteq> TransStateBegin" by (auto simp: record_ok_def has_voted_def)
  with t assms(3) i show ?thesis by (auto simp: elsewhere_def in_list_def open_trans_def)
qed

text \<open>A segment of connection \<open>n\<close>, up to the end of the connection if it leaves its loop.\<close>

lemma own_segment:
  assumes ok: "server_ok E h c" and n: "conns c h n = Some s"
    and keep: "\<And>u. open_trans E u (nodes c h) \<Longrightarrow> u \<noteq> ss_begin_ts s \<or> ss_begin_ts s = []
      \<Longrightarrow> keeps (open_trans E u) (hang_up E now r)"
    and own: "\<And>rep s' st'. r = Ret (rep, s') st' \<Longrightarrow> rep \<noteq> Hang_up \<Longrightarrow> session_ok E st' s'
      \<and> (ss_begin_ts s' = ss_begin_ts s \<or> ss_begin_ts s' = [] \<or> \<not> open_trans E (ss_begin_ts s') (nodes c h))"
    and x: "hang_up E now r = Ret x st" and up: "up c h"
  shows "server_ok E h (finish h n m x (set_node h st c))"
proof -
  have sess: "sessions_ok E (nodes c h) (conns c h)" using ok by (simp add: server_ok_def)
  have keep': "open_trans E u st" if "open_trans E u (nodes c h)" "u \<noteq> ss_begin_ts s \<or> ss_begin_ts s = []" for u
    using keep [OF that] x by simp
  have "sessions_ok E st ((conns c h)(n := snd x))"
  proof (cases "snd x")
    case None
    then show ?thesis using sessions_ok_end [OF sess n keep'] by simp
  next
    case (Some s')
    with x obtain rep where "r = Ret (rep, s') st" "rep \<noteq> Hang_up"
      by (cases r) (auto simp: hang_up_def bind_out_eq_Ret split: if_splits prod.splits)
    with own [OF this] Some show ?thesis using sessions_ok_own [OF sess n keep'] by auto
  qed
  with up show ?thesis by (simp add: server_ok_def)
qed

lemma step_server_ok:
  assumes "step E plan c c'" and fresh: "fresh_begin E c c'" and inv: "protocol_inv E plan c"
    and ok: "\<And>h. server_ok E h c"
  shows "server_ok E g c'"
  using assms(1)
proof cases
  case (connect h n)
  with ok [of g] show ?thesis by (cases "g = h") (auto simp: server_ok_def sessions_ok_new)
next
  case (request h n s m sec usec r)
  have s: "session_ok E (nodes c h) s" using ok [of h] request(3) by (simp add: server_ok_def sessions_ok_def)
  show ?thesis unfolding request(1)
  proof (rule server_ok_settle)
    fix x st
    assume x: "hang_up E (GetTS sec usec) r = Ret x st"
    show "server_ok E h (finish h n m x (set_node h st c))"
    proof (rule own_segment [OF ok request(3) _ _ x request(2)])
      show "keeps (open_trans E u) (hang_up E (GetTS sec usec) r)"
        if "open_trans E u (nodes c h)" "u \<noteq> ss_begin_ts s \<or> ss_begin_ts s = []" for u
        using that request(4,6)
        by (intro opened.hang_up_I opened.serve_msg_keeps [OF that(1) GetTS_not_empty TrueI])
          (auto dest: serve_msg_hangs_up)
      fix rep s' st'
      assume r: "r = Ret (rep, s') st'" "rep \<noteq> Hang_up"
      have "ss_begin_ts s = [] \<Longrightarrow> ss_begin_ts s' \<noteq> [] \<Longrightarrow> plain_ts (ss_begin_ts s')
          \<and> fetch_Trans E (nodes c h) (ss_begin_ts s') = Missing"
        using fresh request(1,3) r unfolding fresh_begin_def
        by (auto simp: hang_up_def dest!: spec [of _ h] spec [of _ n])
      with serve_msg_session [OF s request(6) [unfolded r] this]
      show "session_ok E st' s'
          \<and> (ss_begin_ts s' = ss_begin_ts s \<or> ss_begin_ts s' = [] \<or> \<not> open_trans E (ss_begin_ts s') (nodes c h))"
        by (auto simp: open_trans_def)
    qed
  qed (use ok in simp_all)
next
  case (timeout h n s sec usec r)
  have s: "session_ok E (nodes c h) s" using ok [of h] timeout(3) by (simp add: server_ok_def sessions_ok_def)
  show ?thesis unfolding timeout(1)
  proof (rule server_ok_settle)
    fix x st
    assume x: "hang_up E (GetTS sec usec) r = Ret x st"
    show "server_ok E h (finish h n Msg_init x (set_node h st c))"
    proof (rule own_segment [OF ok timeout(3) _ _ x timeout(2)])
      show "keeps (open_trans E u) (hang_up E (GetTS sec usec) r)"
        if "open_trans E u (nodes c h)" "u \<noteq> ss_begin_ts s \<or> ss_begin_ts s = []" for u
        using that timeout(4,5)
        by (intro opened.hang_up_I opened.serve_timeout_keeps [OF that(1) timeout(5) TrueI])
          (auto dest!: serve_timeout_stays_on)
    qed (use serve_timeout_goes_on [OF s timeout(5,4)] in \<open>auto simp: goes_on_def\<close>)
  qed (use ok in simp_all)
next
  case (event h n s sec usec)
  have s: "session_ok E (nodes c h) s" using ok [of h] event(3) by (simp add: server_ok_def sessions_ok_def)
  show ?thesis unfolding event(1)
  proof (rule server_ok_settle)
    fix x st
    assume x: "hang_up E (GetTS sec usec) (serve_event s (nodes c h)) = Ret x st"
    show "server_ok E h (finish h n Msg_init x (set_node h st c))"
    proof (rule own_segment [OF ok event(3) _ _ x event(2)])
      show "keeps (open_trans E u) (hang_up E (GetTS sec usec) (serve_event s (nodes c h)))"
        if "open_trans E u (nodes c h)" for u
        by (intro opened.hang_up_I opened.serve_event_keeps that) (metis serve_stays_on(6) stays_on_simps(6))
    qed (use serve_event_goes_on [OF s] in \<open>auto simp: goes_on_def\<close>)
  qed (use ok in simp_all)
next
  case (close h n s sec usec)
  show ?thesis unfolding close(1)
  proof (rule server_ok_settle)
    fix a :: unit and st
    assume x: "serve_close E (GetTS sec usec) s (nodes c h) = Ret a st"
    have "open_trans E u st" if "open_trans E u (nodes c h)" "u \<noteq> ss_begin_ts s \<or> ss_begin_ts s = []" for u
      using opened.serve_close_keeps [OF that(1), of s "GetTS sec usec"] that(2) x by auto
    with ok [of h] close(2,3) show "server_ok E h (set_conn h n None (set_node h st c))"
      by (auto simp: server_ok_def intro!: sessions_ok_end)
  qed (use ok in simp_all)
next
  case (answer h t rv res sec usec)
  show ?thesis unfolding answer(1)
  proof (rule server_ok_settle)
    fix a :: unit and st
    assume x: "prepare_answer E (GetTS sec usec) t rv res (nodes c h) = Ret a st"
    have "open_trans E u st" if "open_trans E u (nodes c h)" for u
      using opened.prepare_answer_keeps [OF that, of rv res "GetTS sec usec" t]
        resolver_elsewhere [OF inv answer(3) that] x by auto
    with ok [of h] answer(2) show "server_ok E h (set_node h st c)"
      by (auto simp: server_ok_def intro: sessions_ok_others)
  qed (use ok in simp_all)
next
  case (die h)
  with ok [of g] show ?thesis by (cases "g = h") (auto simp: server_ok_def)
next
  case (restart h sec usec)
  show ?thesis unfolding restart(1)
  proof (rule server_ok_settle)
    fix a :: unit and st
    show "server_ok E h ((\<lambda>_ c. c\<lparr>up := (up c)(h := True)\<rparr>) a (set_node h st c))"
      using ok [of h] restart(2) by (simp add: server_ok_def)
  qed (use ok in \<open>simp_all add: server_ok_def\<close>)
qed

lemma step_chains_ok:
  assumes "step E plan c c'" and inv: "protocol_inv E plan c"
    and ok: "\<And>h. server_ok E h c" and chains: "chains_ok E (nodes c g)"
  shows "chains_ok E (nodes c' g)"
proof (rule chains.step_keeps [OF assms(1) chains])
  show "in_list (nodes c g) rv \<and> rv_i rv < length (rv_list rv)"
    if "pt_pc (node_tasks (nodes c g) k) = Querying rv" for k rv
    using inv that unfolding protocol_inv_def in_list_def by fastforce
  show "writing E (nodes c g) (ss_begin_ts s) \<and> True"
    if "conns c g n = Some s" "ss_begin_ts s \<noteq> [] \<or> ss_pc s \<noteq> Reading" for n s
    using ok [of g] that by (auto simp: server_ok_def sessions_ok_def session_ok_def)
qed simp_all

lemma orderly_ok:
  assumes "orderly E plan c"
  shows "chains_ok E (nodes c h) \<and> server_ok E h c"
  using assms
proof (induction arbitrary: h rule: orderly.induct)
  case (start c)
  have "chain_ok E (nodes c h) key" for key
    by (rule chain_okI [where vs = "[]"]) (simp_all add: start stamps_ok_def recorded_def)
  with start(1) show ?case by (simp add: chains_ok_def server_ok_def initial_def)
next
  case (more c c')
  note inv = reachable_inv [OF orderly_reachable [OF more(1)]]
  show ?case
    using step_chains_ok [OF more(2) inv] step_server_ok [OF more(2,3) inv] more.IH by blast
qed

lemma chain_ok_reads:
  assumes "chains_ok E st"
  shows "\<exists>r out'. ReadData E ts key out st = Some (Ret (r, out') st) \<and> r \<in> {0, 33, 66, 99}"
proof -
  from assms obtain vs where "chain E st key vs" "recorded E st vs"
    unfolding chains_ok_def chain_ok_def by blast
  from ReadData_versions [OF this] show ?thesis
    by (auto simp: read_versions_def answer_def version_code_def Let_def split: list.splits)
qed

lemma serve_read_returns: "chains_ok E st \<Longrightarrow> \<exists>m. serve_read E now rq rs s st = Some m"
  using chain_ok_reads [of st "if rq_get_for_update rq \<noteq> 0 then now else ss_begin_ts s" "rq_key rq" read_out_init]
  by (auto simp: serve_read_def Let_def)

lemma serve_msg_returns:
  assumes "chains_ok E st"
  shows "\<exists>r. serve_msg E now m s st = Some r"
proof -
  have lock: "\<exists>r. serve_lock_get E now rq rs s st = Some r" for rq rs
  proof (cases "addLock E (rq_key rq) (ss_begin_ts s) st")
    case (Ret r st1)
    with chains.addLock_keeps [OF assms, of "rq_key rq" "ss_begin_ts s"] have "chains_ok E st1" by simp
    from serve_read_returns [OF this] Ret show ?thesis by (auto simp: serve_lock_get_def)
  qed (simp add: serve_lock_get_def)
  have "\<exists>r. serve_get E now rq rs s st = Some r" for rq rs
    using lock serve_read_returns [OF assms] by (auto simp: serve_get_def Let_def)
  then show ?thesis
    by (auto simp: serve_msg_def Let_def simp del: mutable_rpc_request.simps mutable_trans_state_request.simps
        split: MsgType.split RequestType.split)
qed

end

end
