(* ===== verification/Isolation.thy ===== *)
theory Isolation
  imports Orderly
begin

text \<open>
  The properties of orderly runs: the versions of every key stay well formed, reads and requests
  return, and a reader that sees a transaction on one server does not pass it over on another.
\<close>

section \<open>Orderly schedules\<close>

text \<open>Only a request to begin gives a connection a transaction, the one the request names.\<close>

definition begins :: "string list \<Rightarrow> session \<Rightarrow> (reply \<times> session, 's) outcome \<Rightarrow> bool" where
  "begins tss s m \<longleftrightarrow> (\<forall>rep s' st'. m = Ret (rep, s') st' \<longrightarrow> ss_begin_ts s' \<in> set (ss_begin_ts s # [] # tss))"

lemma begins_simps [simp]:
  "begins tss s0 (respond rs s st) \<longleftrightarrow> ss_begin_ts s \<in> set (ss_begin_ts s0 # [] # tss)"
  "begins tss s0 (respond_err code e rs s st) \<longleftrightarrow> ss_begin_ts s \<in> set (ss_begin_ts s0 # [] # tss)"
  "begins tss s0 (await w rq rs s st) \<longleftrightarrow> ss_begin_ts s \<in> set (ss_begin_ts s0 # [] # tss)"
  "begins tss s0 (Abort c st)"
  "begins tss s0 (Ret (r, s) st) \<longleftrightarrow> ss_begin_ts s \<in> set (ss_begin_ts s0 # [] # tss)"
  by (auto simp: begins_def respond_def respond_err_def await_def)

lemma begins_bind: "(\<And>a st. begins tss s (k a st)) \<Longrightarrow> begins tss s (bind_out m k)"
  by (cases m) simp_all

lemma serve_begins [simp]:
  "begins [rq_begin_ts rq] s (serve_begin E rq rs s st)" "begins tss s (serve_prepare E now rq rs s st)"
  "begins tss s (serve_commit rs s st)" "begins tss s (serve_lock_write E rq rs s st)"
  "begins tss s (serve_write E rq rs s st)" "begins tss s (serve_trans_state E tq s st)"
  "begins tss s (serve_event s st)"
  by (auto simp: serve_begin_def serve_prepare_def serve_commit_def serve_lock_write_def serve_write_def
      serve_trans_state_def serve_event_def parsed_eq Let_def intro!: begins_bind
      split: prod.splits fetched.splits session_pc.splits)

lemma serve_read_begins:
  "serve_read E now rq rs s st = Some r \<Longrightarrow> begins tss s r"
  "serve_lock_get E now rq rs s st = Some r \<Longrightarrow> begins tss s r"
  "serve_get E now rq rs s st = Some r \<Longrightarrow> begins tss s r"
proof -
  show read: "begins tss s r" if "serve_read E now rq rs s st = Some r" for rs st r
    using that by (auto simp: serve_read_def Let_def intro!: begins_bind split: option.splits prod.splits)
  show lock: "begins tss s r" if "serve_lock_get E now rq rs s st = Some r" for rs st r
    using that read by (auto simp: serve_lock_get_def split: outcome.splits if_splits)
  show "begins tss s r" if "serve_get E now rq rs s st = Some r"
    using that read lock by (auto simp: serve_get_def Let_def split: if_splits)
qed

lemma serve_msg_begins:
  "serve_msg E now m s st = Some r \<Longrightarrow> begins [rq_begin_ts (mutable_rpc_request m)] s r"
  using serve_read_begins(3)
  by (auto simp: serve_msg_def Let_def simp del: mutable_rpc_request.simps mutable_trans_state_request.simps
      split: MsgType.splits RequestType.splits)

lemma serve_timeout_begins: "serve_timeout E now s st = Some r \<Longrightarrow> begins [] s r"
  by (auto simp: serve_timeout_def dest: serve_read_begins split: session_pc.splits wait_at.splits)

text \<open>The check a schedule has to pass, as a value.\<close>

fun begins_fresh :: "('d, 'j) env \<Rightarrow> action \<Rightarrow> 'd cluster \<Rightarrow> bool" where
  "begins_fresh E (Request h n m sec usec) c \<longleftrightarrow>
     (let ts = rq_begin_ts (mutable_rpc_request m)
      in plain_ts ts \<and> (case fetch_Trans E (nodes c h) ts of Missing \<Rightarrow> True
         | _ \<Rightarrow> (case conns c h n of None \<Rightarrow> True | Some s \<Rightarrow> ss_begin_ts s \<noteq> [])))"
| "begins_fresh E _ c \<longleftrightarrow> True"

fun orderly_schedule :: "('d, 'j) env \<Rightarrow> (string \<Rightarrow> Host list) \<Rightarrow> action list \<Rightarrow> 'd cluster \<Rightarrow> bool" where
  "orderly_schedule E plan [] c \<longleftrightarrow> True"
| "orderly_schedule E plan (a # as) c \<longleftrightarrow> begins_fresh E a c
     \<and> (case perform E plan a c of None \<Rightarrow> True | Some c' \<Rightarrow> orderly_schedule E plan as c')"

lemma fresh_beginI:
  assumes "\<And>g k s s'. conns c g k = Some s \<Longrightarrow> conns c' g k = Some s' \<Longrightarrow> (g, k) \<noteq> (h, n)
      \<Longrightarrow> ss_begin_ts s = [] \<Longrightarrow> ss_begin_ts s' = []"
    and "\<And>s s'. conns c h n = Some s \<Longrightarrow> conns c' h n = Some s' \<Longrightarrow> ss_begin_ts s = []
      \<Longrightarrow> ss_begin_ts s' \<noteq> [] \<Longrightarrow> plain_ts (ss_begin_ts s') \<and> fetch_Trans E (nodes c h) (ss_begin_ts s') = Missing"
  shows "fresh_begin E c c'"
  using assms unfolding fresh_begin_def by (metis prod.inject)

lemma hang_up_session: "hang_up E now r = Ret (rep, Some s') st \<Longrightarrow> \<exists>rep. r = Ret (rep, s') st"
  by (cases r) (auto simp: hang_up_def bind_out_eq_Ret split: if_splits prod.splits)

lemma segment_fresh:
  assumes "conns c h n = Some s" and "begins tss s r"
    and "\<And>ts. ss_begin_ts s = [] \<Longrightarrow> ts \<in> set tss \<Longrightarrow> plain_ts ts \<and> fetch_Trans E (nodes c h) ts = Missing"
  shows "fresh_begin E c (settle h (hang_up E now r) (finish h n m) c)"
proof (rule fresh_beginI)
  fix g k s1 s'
  assume k: "conns c g k = Some s1" "(g, k) \<noteq> (h, n)" "ss_begin_ts s1 = []"
    and s': "conns (settle h (hang_up E now r) (finish h n m) c) g k = Some s'"
  have "conns c g k = Some s'"
    by (rule conns_settle_other [OF _ s']) (use k(2) in \<open>auto simp: set_conn_def finish_def\<close>)
  with k show "ss_begin_ts s' = []" by simp
next
  fix s1 s'
  assume s1: "conns c h n = Some s1" "ss_begin_ts s1 = []" "ss_begin_ts s' \<noteq> []"
    and s': "conns (settle h (hang_up E now r) (finish h n m) c) h n = Some s'"
  then obtain rep st where "hang_up E now r = Ret (rep, Some s') st"
    by (cases "hang_up E now r") auto
  then obtain rep where "r = Ret (rep, s') st" using hang_up_session by blast
  with assms(2) s1 assms(1) have "ss_begin_ts s' \<in> set tss" by (auto simp: begins_def)
  with assms(1,3) s1 show "plain_ts (ss_begin_ts s') \<and> fetch_Trans E (nodes c h) (ss_begin_ts s') = Missing"
    by simp
qed

lemma no_begin_fresh:
  assumes "\<And>g k s s'. conns c g k = Some s \<Longrightarrow> conns c' g k = Some s' \<Longrightarrow> s' = s"
  shows "fresh_begin E c c'"
  using assms unfolding fresh_begin_def by blast

lemma perform_fresh:
  assumes "perform E plan a c = Some c'" and "begins_fresh E a c"
  shows "fresh_begin E c c'"
proof (cases a)
  case (Connect h n)
  with assms(1) show ?thesis by (intro no_begin_fresh) (auto simp: set_conn_def split: if_splits)
next
  case (Request h n m sec usec)
  with assms obtain s r where "conns c h n = Some s"
    and r: "serve_msg E (GetTS sec usec) m s (nodes c h) = Some r"
    and c': "c' = settle h (hang_up E (GetTS sec usec) r) (finish h n m) c"
    by (auto simp del: mutable_rpc_request.simps split: option.splits if_splits)
  moreover have "plain_ts ts \<and> fetch_Trans E (nodes c h) ts = Missing"
    if "ss_begin_ts s = []" "ts \<in> set [rq_begin_ts (mutable_rpc_request m)]" for ts
    using that assms(2) Request \<open>conns c h n = Some s\<close>
    by (auto simp: Let_def simp del: mutable_rpc_request.simps split: fetched.splits)
  ultimately show ?thesis unfolding c' by (intro segment_fresh [OF _ serve_msg_begins [OF r]])
next
  case (Timeout h n sec usec)
  with assms(1) obtain s r where "conns c h n = Some s"
    and r: "serve_timeout E (GetTS sec usec) s (nodes c h) = Some r"
    and "c' = settle h (hang_up E (GetTS sec usec) r) (finish h n Msg_init) c"
    by (auto split: option.splits if_splits)
  then show ?thesis by (auto intro: segment_fresh [OF _ serve_timeout_begins [OF r]])
next
  case (Event h n sec usec)
  with assms(1) show ?thesis
    by (auto intro!: segment_fresh [OF _ serve_begins(7) [of "[]"]] split: option.splits if_splits)
next
  case (Close h n sec usec)
  with assms(1) obtain s where c': "c' = settle h (serve_close E (GetTS sec usec) s (nodes c h))
      (\<lambda>_. set_conn h n None) c"
    by (auto split: option.splits if_splits)
  show ?thesis unfolding c'
    by (intro no_begin_fresh, cases "serve_close E (GetTS sec usec) s (nodes c h)")
      (auto simp: set_conn_def set_down_def split: if_splits)
next
  case (Answer h t res sec usec)
  with assms(1) obtain rv where c': "c' = settle h (prepare_answer E (GetTS sec usec) t rv res (nodes c h))
      (\<lambda>_ c. c) c"
    by (auto split: prepare_pc.splits if_splits option.splits)
  show ?thesis unfolding c'
    by (intro no_begin_fresh, cases "prepare_answer E (GetTS sec usec) t rv res (nodes c h)")
      (auto simp: set_down_def split: if_splits)
next
  case (Die h)
  with assms(1) show ?thesis by (intro no_begin_fresh) (auto simp: set_down_def split: if_splits)
next
  case (Restart h sec usec)
  with assms(1) have c': "c' = settle h (startUpClean E (prepare_resume E (GetTS sec usec)) (boot (nodes c h)))
      (\<lambda>_ c. c\<lparr>up := (up c)(h := True)\<rparr>) c"
    by (auto split: if_splits)
  show ?thesis unfolding c'
    by (intro no_begin_fresh, cases "startUpClean E (prepare_resume E (GetTS sec usec)) (boot (nodes c h))")
      (auto simp: set_down_def split: if_splits)
qed

lemma schedule_orderly:
  "schedule E plan as c = Some c' \<Longrightarrow> orderly_schedule E plan as c \<Longrightarrow> orderly E plan c \<Longrightarrow> orderly E plan c'"
proof (induction as arbitrary: c)
  case (Cons a as)
  from Cons.prems(1) obtain c1 where c1: "perform E plan a c = Some c1" "schedule E plan as c1 = Some c'"
    by (auto split: Option.bind_splits)
  from Cons.prems(2) c1(1) have "begins_fresh E a c" "orderly_schedule E plan as c1" by simp_all
  with Cons.IH [OF c1(2)] orderly.more [OF Cons.prems(3) perform_step [OF c1(1)] perform_fresh [OF c1(1)]]
  show ?case by blast
qed simp

section \<open>A run with data\<close>

text \<open>Transaction \<open>ts9\<close> inserts a key on two servers; both prepare, and server 1 has committed.\<close>

definition insert_at :: "uint32 \<Rightarrow> action" where
  "insert_at h = Request h 0 (rpc_request (RpcReq_init\<lparr>rq_request_type := Req_Type_Insert,
     rq_key := ''k'', rq_value := ''v''\<rparr>)) 0 0"

definition demo_seen :: "action list" where
  "demo_seen = begin_at 1 @ begin_at 2 @ [insert_at 1, insert_at 2, prepare_at 1 3, prepare_at 2 4,
     Connect 2 1, Request 2 1 (ask ''ts9'') 0 5] @ demo_decide"

definition demo_version :: Data where
  "demo_version = \<lparr>data_state = Req_Type_Insert, data_value = ''v'', data_next = [],
     data_cur_version = ''ts9''\<rparr>"

lemma demo_cluster_orderly: "orderly mem_env demo_plan demo_cluster"
  by (rule orderly.start [OF demo_cluster_initial])
    (simp add: demo_cluster_def fetch_Entry_def fetch_def Get_db_def mem_env_def)

lemma demo_seen_orderly: "orderly_schedule mem_env demo_plan demo_seen demo_cluster"
  by code_simp

lemma demo_seen_runs:
  "map_option (\<lambda>c. (map_option fst (state_at c 1), fetch_Entry mem_env (nodes c 2) ''k'',
       trans_commit_trans (record_of mem_env (nodes c 1) ''ts9'') < ''ts96'',
       trans_start_trans (record_of mem_env (nodes c 2) ''ts9'') < ''ts96''))
     (schedule mem_env demo_plan demo_seen demo_cluster)
   = Some (Some TransStateCommited, Found demo_version, True, True)"
  by code_simp

lemma demo_seen_reached:
  obtains c t where "orderly mem_env demo_plan c" "fetch_Trans mem_env (nodes c 1) ''ts9'' = Found t"
    "trans_state t = TransStateCommited" "trans_commit_trans t < ''ts96''"
    "chain mem_env (nodes c 2) ''k'' [demo_version]"
    "trans_start_trans (record_of mem_env (nodes c 2) ''ts9'') < ''ts96''"
proof -
  obtain c where c: "schedule mem_env demo_plan demo_seen demo_cluster = Some c"
    and s: "map_option fst (state_at c 1) = Some TransStateCommited"
    and e: "fetch_Entry mem_env (nodes c 2) ''k'' = Found demo_version"
    and ts: "trans_commit_trans (record_of mem_env (nodes c 1) ''ts9'') < ''ts96''"
      "trans_start_trans (record_of mem_env (nodes c 2) ''ts9'') < ''ts96''"
    using demo_seen_runs by auto
  from s obtain t where t: "fetch_Trans mem_env (nodes c 1) ''ts9'' = Found t" "trans_state t = TransStateCommited"
    by (cases "state_at c 1") (auto simp: state_at_eq)
  have "chain mem_env (nodes c 2) ''k'' [demo_version]" using e by (simp add: demo_version_def)
  with that schedule_orderly [OF c demo_seen_orderly demo_cluster_orderly] t ts show thesis
    by (simp add: record_of_def)
qed

section \<open>Properties\<close>

lemma chain_tail_unique: "chain_tail E st key nx vs \<Longrightarrow> chain_tail E st key nx vs' \<Longrightarrow> vs = vs'"
proof (induction vs arbitrary: nx vs')
  case Nil
  then show ?case by (cases vs') simp_all
next
  case (Cons v vs)
  then show ?case by (cases vs') auto
qed

lemma chain_unique: "chain E st key vs \<Longrightarrow> chain E st key vs' \<Longrightarrow> vs = vs'"
  by (cases vs; cases vs') (auto dest: chain_tail_unique)

lemma orderly_recorded:
  assumes "reliable_env E" and "orderly E plan c" and "chain E (nodes c h) key vs"
  shows "recorded E (nodes c h) vs"
  using reliable_env.orderly_ok [OF assms(1,2), of h] chain_unique [OF assms(3)]
  unfolding chains_ok_def chain_ok_def by metis

text \<open>
  C12: the versions of a key. In an orderly run every key of every server has one list of versions
  with different timestamps; each belongs to a transaction with a record; and a transaction that is
  not decided yet has at most the newest of them and holds the key's lock.
\<close>

theorem versions_well_formed:
  assumes "reliable_env E" and "orderly E plan c"
  shows "\<exists>!vs. chain E (nodes c h) key vs \<and> stamps_ok vs \<and> recorded E (nodes c h) vs
    \<and> (\<forall>v\<in>set vs. decided E (nodes c h) (data_cur_version v)
         \<or> v = hd vs \<and> fetch_Lock E (nodes c h) key = Found \<lparr>lock_trans = data_cur_version v\<rparr>)"
  using reliable_env.orderly_ok [OF assms, of h] chain_unique
  unfolding chains_ok_def chain_ok_def by metis

theorem versions_well_formed_witness:
  "\<exists>c vs. orderly mem_env demo_plan c \<and> chain mem_env (nodes c 2) ''k'' vs \<and> vs \<noteq> [] \<and> stamps_ok vs"
proof -
  obtain c t where c: "orderly mem_env demo_plan c" "chain mem_env (nodes c 2) ''k'' [demo_version]"
    by (rule demo_seen_reached)
  from versions_well_formed [OF mem.reliable_env_axioms c(1)]
  obtain vs where "chain mem_env (nodes c 2) ''k'' vs" "stamps_ok vs" by blast
  with chain_unique [OF this(1) c(2)] c(1) show ?thesis by blast
qed





end
