(* ===== verification/Repeatable.thy ===== *)
theory Repeatable
  imports Isolation
begin

text \<open>
  What the run after a state adds to the versions of a key: versions of transactions that were not
  decided there, before the ones that were. A reader whose clock is not ahead of those that prepare later
  therefore reads the same again.
\<close>

section \<open>Versions grow at the front\<close>

text \<open>The versions of \<open>st0\<close> that are decided there, and what later states of the server look like.\<close>

definition old_versions :: "('d, 'j) env \<Rightarrow> 'd node \<Rightarrow> Data list \<Rightarrow> Data list" where
  "old_versions E st0 vs = dropWhile (\<lambda>v. \<not> decided E st0 (data_cur_version v)) vs"

definition grown :: "('d, 'j) env \<Rightarrow> 'd node \<Rightarrow> string \<Rightarrow> Data list \<Rightarrow> 'd node \<Rightarrow> bool" where
  "grown E st0 key ws st \<longleftrightarrow> chains_ok E st
     \<and> (\<forall>ts. decided E st0 ts \<longrightarrow> decided E st ts)
     \<and> (\<forall>w\<in>set ws. decided E st0 (data_cur_version w))
     \<and> (\<exists>us. chain E st key (us @ ws) \<and> (\<forall>u\<in>set us. \<not> decided E st0 (data_cur_version u)))"

lemma old_versions_decided:
  assumes "chain_ok E st key" and "chain E st key vs" and "v \<in> set (old_versions E st vs)"
  shows "decided E st (data_cur_version v)"
proof -
  from assms(1) obtain us where us: "chain E st key us" "stamps_ok us"
    "\<And>v. v \<in> set us \<Longrightarrow> \<not> decided E st (data_cur_version v) \<Longrightarrow> v = hd us
      \<and> fetch_Lock E st key = Found \<lparr>lock_trans = data_cur_version v\<rparr>"
    by (rule chain_okE) blast
  note vs = chain_unique [OF assms(2) us(1)]
  show ?thesis
  proof (cases vs)
    case (Cons w ws)
    have "w \<notin> set ws" using us(2) by (auto simp: vs [symmetric] Cons stamps_ok_def)
    then have ws: "decided E st (data_cur_version u)" if "u \<in> set ws" for u
      using us(3) [of u] that by (auto simp: vs [symmetric] Cons)
    show ?thesis
    proof (cases "decided E st (data_cur_version w)")
      case True
      then show ?thesis using assms(3) ws by (auto simp: old_versions_def Cons)
    next
      case False
      then show ?thesis
        using assms(3) ws set_dropWhileD [of v "\<lambda>v. \<not> decided E st (data_cur_version v)" ws]
        by (auto simp: old_versions_def Cons)
    qed
  qed (use assms(3) in \<open>simp add: old_versions_def\<close>)
qed

lemma grown_start:
  assumes "chains_ok E st" and "chain E st key vs"
  shows "grown E st key (old_versions E st vs) st"
proof -
  let ?us = "takeWhile (\<lambda>v. \<not> decided E st (data_cur_version v)) vs"
  have "chain E st key (?us @ old_versions E st vs)" using assms(2) by (simp add: old_versions_def)
  moreover have "\<forall>u\<in>set ?us. \<not> decided E st (data_cur_version u)" by (blast dest: set_takeWhileD)
  moreover have "\<forall>w\<in>set (old_versions E st vs). decided E st (data_cur_version w)"
    using old_versions_decided assms unfolding chains_ok_def by blast
  ultimately show ?thesis using assms(1) unfolding grown_def by blast
qed

text \<open>A decided transaction of \<open>st0\<close> is still decided, so one that is open now was not.\<close>

lemma grown_undecided:
  "grown E st0 key ws st \<Longrightarrow> \<not> decided E st ts \<Longrightarrow> \<not> decided E st0 ts"
  unfolding grown_def by blast

lemma grown_keep:
  assumes "grown E st0 key ws st" and "chains_ok E st'"
    and "\<And>us. stamps_ok (us @ ws) \<Longrightarrow> chain E st key (us @ ws) \<Longrightarrow> chain E st' key (us @ ws)"
    and "\<And>ts. decided E st ts \<Longrightarrow> decided E st' ts"
  shows "grown E st0 key ws st'"
proof -
  from assms(1) obtain us where us: "chain E st key (us @ ws)" "\<forall>u\<in>set us. \<not> decided E st0 (data_cur_version u)"
    by (auto simp: grown_def)
  have "chain_ok E st key" using assms(1) by (simp add: grown_def chains_ok_def)
  then have "stamps_ok (us @ ws)" by (rule chain_okE) (use chain_unique [OF us(1)] in metis)
  then have "chain E st' key (us @ ws)" using assms(3) us(1) by blast
  then show ?thesis using assms(1,2,4) us(2) unfolding grown_def by blast
qed

lemma grown_set:
  assumes I: "grown E st0 key ws st" and set: "trans_set E st st' ts t"
    and ok: "\<not> decided E st ts \<or> trans_state t = TransStateCommited \<or> trans_state t = TransStateRollback"
  shows "grown E st0 key ws st'"
proof (rule grown_keep [OF I])
  have frame: "trans_frame E st st' ts" using set by (simp add: trans_set_def)
  show "chains_ok E st'" using I by (intro chains_ok_set [OF _ set ok]) (simp add: grown_def)
  show "chain E st' key (us @ ws)" if "chain E st key (us @ ws)" for us
    using that by (simp add: chain_trans_frame [OF frame])
  show "decided E st' u" if "decided E st u" for u
    using that ok set by (cases "u = ts") (auto simp: trans_set_def trans_frame_def decided_def)
qed

text \<open>The transaction that writes is open, so it replaces no old version.\<close>

lemma push_version_grows:
  assumes "\<forall>u\<in>set us. \<not> D (data_cur_version u)" and "\<forall>w\<in>set ws. D (data_cur_version w)" and "\<not> D ts"
  obtains us' where "push_version type val ts (us @ ws) = us' @ ws" "\<forall>u\<in>set us'. \<not> D (data_cur_version u)"
proof (cases us)
  case Nil
  show thesis
  proof (cases ws)
    case (Cons w rest)
    with assms(2,3) have "data_cur_version w \<noteq> ts" by auto
    with that [of "[\<lparr>data_state = type, data_value = val, data_next = data_cur_version w, data_cur_version = ts\<rparr>]"]
      assms(3) show thesis by (simp add: Nil Cons)
  qed (use that [of "[_]"] assms(3) Nil in simp)
next
  case (Cons u rest)
  show thesis
  proof (cases "data_cur_version u = ts")
    case True
    with that [of "_ # rest"] assms(1,3) show thesis by (simp add: Cons)
  next
    case False
    with that [of "_ # u # rest"] assms(1,3) show thesis by (simp add: Cons)
  qed
qed

context reliable_env
begin

lemma grown_data:
  assumes I: "grown E st0 key ws st" and w: "writing E st ts" and held: "lock_held E st k ts"
  shows "keeps (grown E st0 key ws) (addData E k val ts type st)"
proof -
  have ok: "chains_ok E st" using I by (simp add: grown_def)
  have kept: "keeps (chains_ok E) (addData E k val ts type st)" by (rule chains_ok_data [OF ok w held])
  have ts: "\<not> decided E st0 ts"
    using w by (intro grown_undecided [OF I] open_not_decided) (simp add: writing_def)
  from ok obtain vs where vs: "chain E st k vs" "stamps_ok vs"
    unfolding chains_ok_def by (metis chain_okE)
  show ?thesis
  proof (cases "addData E k val ts type st")
    case (Abort c st')
    then show ?thesis
      using vs(1) by (cases vs) (auto simp: addData_eq split: prod.splits if_splits)
  next
    case (Ret r st')
    note effect = addData_effect [OF Ret vs]
    have ok': "chains_ok E st'" using kept Ret by simp
    have same: "fetch_Trans E st' u = fetch_Trans E st u" for u
      using effect by (simp add: data_frame_def)
    then have dec: "decided E st' u \<longleftrightarrow> decided E st u" for u by (simp add: decided_def)
    have "grown E st0 key ws st'"
    proof (cases "k = key \<and> r = 0")
      case False
      have "chain E st' key (us @ ws)" if us: "stamps_ok (us @ ws)" "chain E st key (us @ ws)" for us
      proof (cases "k = key")
        case True
        with chain_unique [OF vs(1)] us(2) have "us @ ws = vs" by simp
        with True False effect show ?thesis by simp
      next
        case other: False
        have "data_frame E st st' k" using effect by simp
        with other us show ?thesis by (simp add: data_frame_def)
      qed
      then show ?thesis by (rule grown_keep [OF I ok']) (simp_all add: dec)
    next
      case True
      from I obtain us where us: "chain E st key (us @ ws)" "\<forall>u\<in>set us. \<not> decided E st0 (data_cur_version u)"
        "\<forall>w\<in>set ws. decided E st0 (data_cur_version w)" by (auto simp: grown_def)
      then have "vs = us @ ws" using chain_unique vs(1) True by blast
      then obtain us' where "chain E st' key (us' @ ws)" "\<forall>u\<in>set us'. \<not> decided E st0 (data_cur_version u)"
        using push_version_grows [OF us(2,3) ts] effect True by metis
      with I us(3) ok' show ?thesis unfolding grown_def dec by blast
    qed
    with Ret show ?thesis by simp
  qed
qed

end

sublocale reliable_env \<subseteq> growing: answer_contract E "grown E st0 key ws" in_list "\<lambda>_. True"
  "writing E" "\<lambda>_. True" "\<lambda>_ _ _. True" for st0 key ws
proof
  fix st st' :: "'d node" and u and t :: Trans and rq and st1 :: "'d node" and now and r and rv and task
    and s and a :: TransStateRes
  have ok: "chains_ok E st" if "grown E st0 key ws st" for st using that by (simp add: grown_def)
  have same: "grown E st0 key ws st'" if I: "grown E st0 key ws st" and s: "same_store E st st'" for st st'
  proof (rule grown_keep [OF I chains_ok_same [OF ok [OF I] s]])
    have "chain E st' key vs = chain E st key vs" for vs
      by (intro chain_cong) (use s in \<open>simp_all add: same_store_def\<close>)
    then show "chain E st' key (us @ ws)" if "chain E st key (us @ ws)" for us using that by simp
  qed (use s in \<open>simp add: same_store_def same_trans_def decided_def\<close>)
  have undecided: "\<not> decided E st u" if "fetch_Trans E st u = Found t" "trans_state t = TransStateBegin"
    for t using that by (simp add: decided_def)
  show "grown E st0 key ws st'" if "grown E st0 key ws st" "same_store E st st'"
    using that by (rule same)
  show "grown E st0 key ws st'" if I: "grown E st0 key ws st" and free: "lock_free E st k"
    and p: "put_Lock E st k \<lparr>lock_trans = u\<rparr> = (c, st')" for k c
  proof (rule grown_keep [OF I chains_ok_lock [OF ok [OF I] free p]])
    have "chain E st' key vs = chain E st key vs" for vs by (intro chain_cong fetch_put_Lock [OF p])
    then show "chain E st' key (us @ ws)" if "chain E st key (us @ ws)" for us using that by simp
  qed (simp add: fetch_put_Lock [OF p] decided_def)
  show "writing E st' u" if "writing E st u" "same_trans E st st'"
    using that(2,1) by (rule writing_same)
  show "keeps (grown E st0 key ws) (addData E k val u type st)" if "grown E st0 key ws st" "writing E st u"
    "lock_held E st k u" for k val type
    using that by (rule grown_data)
  show "grown E st0 key ws st'" if "grown E st0 key ws st" "fetch_Trans E st u = Missing"
    "trans_set E st st' u Trans_init"
    using that(2) by (intro grown_set [OF that(1,3)]) (simp add: decided_def)
  show "grown E st0 key ws st'" if I: "grown E st0 key ws st" and f: "fetch_Trans E st u = Found t"
    "trans_state t = TransStateBegin" and set: "trans_set E st st1 u (prepared_record (self_hash_id st) rq t)"
    and call: "updateTransSelfCommitTs E u now st1 = Ret r st'" "r \<noteq> 0"
    by (rule same [OF grown_set [OF I set disjI1 [OF undecided [OF f]]]
          stamp_failed_same [OF store_env_axioms call]])
  show "grown E st0 key ws st'" if I: "grown E st0 key ws st" and f: "fetch_Trans E st u = Found t"
    "trans_state t = TransStateBegin"
    and set: "trans_set E st st' u (stamped now (prepared_record (self_hash_id st) rq t))"
    by (rule grown_set [OF I set disjI1 [OF undecided [OF f]]])
  show "grown E st0 key ws st'" if "grown E st0 key ws st" "trans_set E st st' u (t\<lparr>trans_state := TransStateRollback\<rparr>)"
    by (rule grown_set [OF that]) simp
  show "grown E st0 key ws (set_pc task (Querying rv) st)" if I: "grown E st0 key ws st"
    and ev: "in_list st rv" and i: "rv_i rv < length (rv_list rv)"
  proof (rule grown_keep [OF I chains.wait [OF ok [OF I] ev i]])
    have "chain E (set_pc task (Querying rv) st) key vs = chain E st key vs" for vs
      by (intro chain_cong) (simp_all add: fetch_defs)
    then show "chain E (set_pc task (Querying rv) st) key (us @ ws)" if "chain E st key (us @ ws)" for us
      using that by simp
  qed (simp add: fetch_defs decided_def)
  show "grown E st0 key ws st'" if "grown E st0 key ws st" "trans_set E st st' (rv_begin_ts rv) (committed rv)"
    by (rule grown_set [OF that]) (simp add: committed_def)
  show "grown E st0 key ws st'" if "grown E st0 key ws st" "trans_set E st st' (rv_begin_ts rv)
      ((rv_trans rv)\<lparr>trans_state := TransStateCommited, trans_commit_trans := ts_commit_ts a\<rparr>)"
    by (rule grown_set [OF that]) simp
  show "grown E st0 key ws st'" if "grown E st0 key ws st"
    "trans_set E st st' (rv_begin_ts rv) ((rv_trans rv)\<lparr>trans_state := TransStateRollback\<rparr>)"
    by (rule grown_set [OF that]) simp
  show "in_list st (note_state s rv)" if "in_list st rv"
    using that by (simp add: in_list_def)
qed (auto simp: in_list_def first_round_def next_round_def pass_host_def count_host_def rv_list_def)

section \<open>Timestamps of prepared transactions stay\<close>

definition stamped_as :: "('d, 'j) env \<Rightarrow> string \<Rightarrow> string \<Rightarrow> 'd node \<Rightarrow> bool" where
  "stamped_as E ts x st \<longleftrightarrow> (\<exists>t. fetch_Trans E st ts = Found t \<and> trans_state t \<noteq> TransStateBegin
     \<and> trans_self_commit_ts t = x)"

definition knows_stamp :: "string \<Rightarrow> string \<Rightarrow> 'd node \<Rightarrow> resolving \<Rightarrow> bool" where
  "knows_stamp ts x st rv \<longleftrightarrow> in_list st rv \<and> (rv_begin_ts rv = ts \<longrightarrow> trans_self_commit_ts (rv_trans rv) = x)"

lemma stamped_same: "same_trans E st st' \<Longrightarrow> stamped_as E ts x st \<Longrightarrow> stamped_as E ts x st'"
  by (simp add: stamped_as_def same_trans_def)

lemma stamped_set:
  assumes "stamped_as E ts x st" and "trans_set E st st' u t"
    and "u = ts \<Longrightarrow> trans_state t \<noteq> TransStateBegin \<and> trans_self_commit_ts t = x"
  shows "stamped_as E ts x st'"
  using assms by (cases "u = ts") (auto simp: stamped_as_def trans_set_def trans_frame_def)

sublocale store_env \<subseteq> stamping: answer_contract E "stamped_as E ts x" "knows_stamp ts x" "\<lambda>_. True"
  "\<lambda>_ _. True" "\<lambda>_. True" "\<lambda>_ _ _. True" for ts x
proof
  fix st st' :: "'d node" and u and t :: Trans and rq and st1 :: "'d node" and now and r and rv and task
    and s and a :: TransStateRes
  have other: "u \<noteq> ts" if "stamped_as E ts x st" "fetch_Trans E st u = Found t"
    "trans_state t = TransStateBegin"
    using that by (auto simp: stamped_as_def)
  show "stamped_as E ts x st'" if "stamped_as E ts x st" "same_store E st st'"
    using same_store_trans_part [OF that(2)] that(1) by (rule stamped_same)
  show "stamped_as E ts x st'" if "stamped_as E ts x st" "put_Lock E st k \<lparr>lock_trans = u\<rparr> = (c, st')" for k c
    using put_same_trans(1) [OF that(2)] that(1) by (rule stamped_same)
  show "keeps (stamped_as E ts x) (addData E k val u type st)" if "stamped_as E ts x st" for k val type
    unfolding keeps_def using addData_same that by (rule stamped_same)
  show "stamped_as E ts x st'" if "stamped_as E ts x st" "fetch_Trans E st u = Missing"
    "trans_set E st st' u Trans_init"
    using that(1,2) by (intro stamped_set [OF that(1,3)]) (auto simp: stamped_as_def)
  show "stamped_as E ts x st'" if I: "stamped_as E ts x st" and f: "fetch_Trans E st u = Found t"
    "trans_state t = TransStateBegin" and set: "trans_set E st st1 u (prepared_record (self_hash_id st) rq t)"
    and call: "updateTransSelfCommitTs E u now st1 = Ret r st'" "r \<noteq> 0"
    using same_store_trans_part [OF stamp_failed_same [OF store_env_axioms call]]
      stamped_set [OF I set] other [OF I f] by (blast intro: stamped_same)
  show "stamped_as E ts x st'" if I: "stamped_as E ts x st" and f: "fetch_Trans E st u = Found t"
    "trans_state t = TransStateBegin"
    and set: "trans_set E st st' u (stamped now (prepared_record (self_hash_id st) rq t))"
    using stamped_set [OF I set] other [OF I f] by blast
  show "stamped_as E ts x st'" if I: "stamped_as E ts x st" and f: "fetch_Trans E st u = Found t"
    "trans_state t = TransStateBegin" and set: "trans_set E st st' u (t\<lparr>trans_state := TransStateRollback\<rparr>)"
    using stamped_set [OF I set] other [OF I f] by blast
  show "knows_stamp ts x st (first_round now u t)" if "stamped_as E ts x st" "fetch_Trans E st u = Found t"
    using that by (auto simp: knows_stamp_def in_list_def first_round_def stamped_as_def)
  show "stamped_as E ts x (set_pc task (Querying rv) st)" if "stamped_as E ts x st"
    using that by (simp add: stamped_as_def fetch_defs)
  show "stamped_as E ts x st'" if "stamped_as E ts x st" "knows_stamp ts x st rv"
    "trans_set E st st' (rv_begin_ts rv) (committed rv)"
    using that(2) by (intro stamped_set [OF that(1,3)]) (simp_all add: knows_stamp_def committed_def)
  show "stamped_as E ts x st'" if "stamped_as E ts x st" "knows_stamp ts x st rv"
    "trans_set E st st' (rv_begin_ts rv)
      ((rv_trans rv)\<lparr>trans_state := TransStateCommited, trans_commit_trans := ts_commit_ts a\<rparr>)"
    using that(2) by (intro stamped_set [OF that(1,3)]) (simp_all add: knows_stamp_def)
  show "stamped_as E ts x st'" if "stamped_as E ts x st" "knows_stamp ts x st rv"
    "trans_set E st st' (rv_begin_ts rv) ((rv_trans rv)\<lparr>trans_state := TransStateRollback\<rparr>)"
    using that(2) by (intro stamped_set [OF that(1,3)]) (simp_all add: knows_stamp_def)
  show "knows_stamp ts x st (note_state s rv)" if "knows_stamp ts x st rv"
    using that by (simp add: knows_stamp_def in_list_def)
qed (auto simp: knows_stamp_def in_list_def next_round_def pass_host_def count_host_def rv_list_def)

section \<open>Orderly runs\<close>

definition orderly_step :: "('d, 'j) env \<Rightarrow> (string \<Rightarrow> Host list) \<Rightarrow> 'd cluster \<Rightarrow> 'd cluster \<Rightarrow> bool" where
  "orderly_step E plan c c' \<longleftrightarrow> step E plan c c' \<and> fresh_begin E c c'"

lemma orderly_steps: "(orderly_step E plan)\<^sup>*\<^sup>* c c' \<Longrightarrow> orderly E plan c \<Longrightarrow> orderly E plan c'"
  by (induction rule: rtranclp_induct) (auto simp: orderly_step_def intro: orderly.more)

context reliable_env
begin

lemma step_grown:
  assumes c: "orderly E plan c" and "step E plan c c'" and I: "grown E st0 key ws (nodes c h)"
  shows "grown E st0 key ws (nodes c' h)"
proof (rule growing.step_keeps [OF assms(2) I])
  note inv = reachable_inv [OF orderly_reachable [OF c]]
  show "in_list (nodes c h) rv \<and> rv_i rv < length (rv_list rv)"
    if "pt_pc (node_tasks (nodes c h) k) = Querying rv" for k rv
    using inv that unfolding protocol_inv_def in_list_def by fastforce
  show "writing E (nodes c h) (ss_begin_ts s) \<and> True"
    if "conns c h n = Some s" "ss_begin_ts s \<noteq> [] \<or> ss_pc s \<noteq> Reading" for n s
    using orderly_ok [OF c, of h] that by (auto simp: server_ok_def sessions_ok_def session_ok_def)
qed simp_all

lemma run_grown:
  assumes "(orderly_step E plan)\<^sup>*\<^sup>* c c'" and c: "orderly E plan c" and vs: "chain E (nodes c h) key vs"
  shows "grown E (nodes c h) key (old_versions E (nodes c h) vs) (nodes c' h)"
  using assms(1)
proof (induction rule: rtranclp_induct)
  case base
  show ?case using grown_start orderly_ok [OF c] vs by blast
next
  case (step c1 c2)
  from step.hyps(2) have "step E plan c1 c2" by (simp add: orderly_step_def)
  with step_grown [OF orderly_steps [OF step.hyps(1) c]] step.IH show ?case by blast
qed

lemma step_stamped:
  assumes c: "orderly E plan c" and "step E plan c c'" and I: "stamped_as E ts x (nodes c h)"
  shows "stamped_as E ts x (nodes c' h)"
proof (rule stamping.step_keeps [OF assms(2) I])
  note run = orderly_reachable [OF c]
  show "knows_stamp ts x (nodes c h) rv \<and> rv_i rv < length (rv_list rv)"
    if q: "pt_pc (node_tasks (nodes c h) k) = Querying rv" for k rv
  proof -
    have "rv_i rv < length (rv_list rv)" using reachable_inv [OF run] q unfolding protocol_inv_def by blast
    moreover have "exact_ev E plan c h rv" using reachable_exact [OF run] q unfolding exact_inv_def by blast
    ultimately show ?thesis using I by (auto simp: knows_stamp_def in_list_def exact_ev_def stamp_def stamped_as_def)
  qed
qed simp_all

lemma run_stamped:
  assumes "(orderly_step E plan)\<^sup>*\<^sup>* c c'" and c: "orderly E plan c" and I: "stamped_as E ts x (nodes c h)"
  shows "stamped_as E ts x (nodes c' h)"
  using assms(1)
proof (induction rule: rtranclp_induct)
  case base
  show ?case by (rule I)
next
  case (step c1 c2)
  from step.hyps(2) have "step E plan c1 c2" by (simp add: orderly_step_def)
  with step_stamped [OF orderly_steps [OF step.hyps(1) c]] step.IH show ?case by blast
qed

lemma run_progress:
  assumes "(orderly_step E plan)\<^sup>*\<^sup>* c c'" and c: "orderly E plan c"
  shows "progress E (nodes c h) (nodes c' h)"
  using assms(1)
proof (induction rule: rtranclp_induct)
  case (step c1 c2)
  from step.hyps(2) have "step E plan c1 c2" by (simp add: orderly_step_def)
  from step_next_ok [OF this reachable_inv [OF orderly_reachable [OF orderly_steps [OF step.hyps(1) c]]]]
  have "progress E (nodes c1 h) (nodes c2 h)" by (simp add: next_ok_def)
  with step.IH show ?case by (rule progress_trans)
qed simp

text \<open>A commit is for good, with its timestamp.\<close>

lemma run_commit:
  assumes run: "(orderly_step E plan)\<^sup>*\<^sup>* c c'" and c: "orderly E plan c"
    and t: "fetch_Trans E (nodes c h) ts = Found t" "trans_state t = TransStateCommited"
  shows "\<exists>t'. fetch_Trans E (nodes c' h) ts = Found t' \<and> trans_state t' = TransStateCommited
    \<and> trans_commit_trans t' = trans_commit_trans t"
proof -
  note r = orderly_reachable [OF c] orderly_reachable [OF orderly_steps [OF run c]]
  obtain t' where t': "fetch_Trans E (nodes c' h) ts = Found t'" "trans_state t' = TransStateCommited"
    using run_progress [OF run c, of h] t unfolding progress_def advances_def by blast
  have e: "exact_record E plan c h ts t" "exact_record E plan c' h ts t'"
    using reachable_exact [OF r(1)] reachable_exact [OF r(2)] t(1) t'(1) unfolding exact_inv_def by blast+
  have "stamp E c' ts p = stamp E c ts p" if p: "p \<in> parts plan ts" for p
  proof -
    obtain u where u: "fetch_Trans E (nodes c p) ts = Found u" "has_voted u"
      using e(1) t(2) p by (auto simp: exact_record_def all_voted_def voted_def)
    have "record_ok E plan c ts u" using reachable_inv [OF r(1)] u(1) unfolding protocol_inv_def by blast
    with u have "stamped_as E ts (stamp E c ts p) (nodes c p)"
      by (auto simp: record_ok_def has_voted_def stamped_as_def stamp_def)
    from run_stamped [OF run c this] show ?thesis by (auto simp: stamped_as_def stamp_def)
  qed
  then have "agreed_ts E plan c' ts = agreed_ts E plan c ts" by (simp add: agreed_ts_def)
  with e t(2) t' show ?thesis by (simp add: exact_record_def)
qed

lemma own_stamp_le:
  assumes c: "orderly E plan c" and t: "fetch_Trans E (nodes c h) ts = Found t" "trans_state t = TransStateCommited"
  shows "trans_self_commit_ts t \<le> trans_commit_trans t"
proof -
  have "exact_record E plan c h ts t"
    using reachable_exact [OF orderly_reachable [OF c]] t(1) unfolding exact_inv_def by blast
  with t(2) have "h \<in> parts plan ts" "trans_commit_trans t = Max (stamp E c ts ` parts plan ts)"
    by (auto simp: exact_record_def has_voted_def agreed_ts_def)
  moreover have "stamp E c ts h = trans_self_commit_ts t" using t(1) by (simp add: stamp_def)
  moreover have "finite (parts plan ts)" by (simp add: parts_def)
  ultimately show ?thesis by (metis Max_ge finite_imageI imageI)
qed

end

section \<open>Reading the same again\<close>

text \<open>Two reads of one list give the same where its transactions are decided in the same way.\<close>

definition same_decision :: "Trans \<Rightarrow> Trans \<Rightarrow> bool" where
  "same_decision t t' \<longleftrightarrow> trans_state t' = trans_state t
     \<and> (trans_state t = TransStateRollback
        \<or> trans_state t = TransStateCommited \<and> trans_commit_trans t' = trans_commit_trans t)"

definition same_answer :: "int \<times> read_out \<Rightarrow> int \<times> read_out \<Rightarrow> bool" where
  "same_answer a a' \<longleftrightarrow> fst a' = fst a \<and> out_value (snd a') = out_value (snd a)
     \<and> out_retBeginTs (snd a') = out_retBeginTs (snd a) \<and> out_retCommitTs (snd a') = out_retCommitTs (snd a)"

lemma read_versions_same:
  assumes "\<And>v. v \<in> set vs \<Longrightarrow> data_cur_version v \<noteq> b
      \<and> same_decision (rec (data_cur_version v)) (rec' (data_cur_version v))"
  shows "same_answer (read_versions b out rec vs) (read_versions b out rec' vs)"
  using assms
proof (induction vs)
  case Nil
  show ?case by (simp add: read_versions_def same_answer_def)
next
  case (Cons v vs)
  let ?ts = "data_cur_version v"
  have v: "?ts \<noteq> b" "same_decision (rec ?ts) (rec' ?ts)" using Cons.prems [of v] by simp_all
  then have "skipped b ?ts (rec' ?ts) = skipped b ?ts (rec ?ts)"
    by (auto simp: skipped_def same_decision_def)
  moreover have "same_answer (answer b out rec v) (answer b out rec' v)" if "\<not> skipped b ?ts (rec ?ts)"
    using v that by (auto simp: answer_def same_decision_def same_answer_def skipped_def Let_def)
  ultimately show ?case using Cons by (simp add: read_versions_Cons)
qed

lemma read_versions_skip:
  assumes "\<forall>u\<in>set us. skipped b (data_cur_version u) (rec (data_cur_version u))"
  shows "read_versions b out rec (us @ ws) = read_versions b out rec ws"
  using assms by (induction us) (simp_all add: read_versions_Cons)

text \<open>An undecided version that a read does not pass over makes it wait.\<close>

lemma undecided_skipped:
  assumes "fst (read_versions b out rec (us @ ws)) \<noteq> 66"
    and "\<And>u. u \<in> set us \<Longrightarrow> data_cur_version u \<noteq> b
      \<and> trans_state (rec (data_cur_version u)) \<in> {TransStateBegin, TransStatePrepared}"
  shows "\<forall>u\<in>set us. skipped b (data_cur_version u) (rec (data_cur_version u))"
  using assms
proof (induction us)
  case (Cons u us)
  let ?ts = "data_cur_version u"
  have u: "?ts \<noteq> b" "trans_state (rec ?ts) \<in> {TransStateBegin, TransStatePrepared}"
    using Cons.prems(2) [of u] by simp_all
  have s: "skipped b ?ts (rec ?ts)"
  proof (rule ccontr)
    assume n: "\<not> skipped b ?ts (rec ?ts)"
    with u have "trans_state (rec ?ts) = TransStatePrepared" by (auto simp: skipped_def)
    with u n Cons.prems(1) show False by (simp add: read_versions_Cons answer_def Let_def)
  qed
  with Cons show ?case by (simp add: read_versions_Cons)
qed simp

context reliable_env
begin

lemma decided_same:
  assumes run: "(orderly_step E plan)\<^sup>*\<^sup>* c c'" and c: "orderly E plan c"
    and d: "decided E (nodes c h) ts"
  shows "same_decision (record_of E (nodes c h) ts) (record_of E (nodes c' h) ts)"
proof -
  from d obtain t where t: "fetch_Trans E (nodes c h) ts = Found t"
    "trans_state t = TransStateCommited \<or> trans_state t = TransStateRollback" by (auto simp: decided_def)
  from t(2) show ?thesis
  proof
    assume "trans_state t = TransStateCommited"
    with run_commit [OF run c t(1)] t(1) show ?thesis by (auto simp: same_decision_def record_of_def)
  next
    assume r: "trans_state t = TransStateRollback"
    from run_progress [OF run c, of h] t(1) obtain t' where
      "fetch_Trans E (nodes c' h) ts = Found t'" "trans_state t \<le> trans_state t'"
      unfolding progress_def advances_def by blast
    with r t(1) show ?thesis
      by (cases "trans_state t'") (simp_all add: same_decision_def record_of_def less_eq_TransState_def)
  qed
qed

lemma late_skipped:
  assumes c: "orderly E plan c" and t: "fetch_Trans E (nodes c h) ts = Found t" and "ts \<noteq> b"
    and "trans_state t \<in> {TransStatePrepared, TransStateCommited}
      \<longrightarrow> b \<le> trans_start_trans t \<and> b \<le> trans_self_commit_ts t"
  shows "skipped b ts (record_of E (nodes c h) ts)"
proof -
  have "b \<le> trans_commit_trans t" if "trans_state t = TransStateCommited"
  proof -
    from that assms(4) have "b \<le> trans_self_commit_ts t" by simp
    with own_stamp_le [OF c t that] show ?thesis by (rule order_trans [rotated])
  qed
  with assms(3,4) t show ?thesis by (cases "trans_state t") (auto simp: skipped_def record_of_def)
qed

end

section \<open>The end of the commit\<close>

text \<open>Server 2 of the run with data learns of the commit and commits as well.\<close>

definition demo_learns :: "action list" where
  "demo_learns = [Connect 1 1, Request 1 1 (ask ''ts9'') 0 7, Answer 2 99 (said TransStateCommited ''ts4'') 0 8]"

lemma demo_learns_runs:
  "Option.bind (schedule mem_env demo_plan demo_seen demo_cluster) (\<lambda>c.
     map_option (\<lambda>c'. (map_option fst (state_at c 2), trans_start_trans (record_of mem_env (nodes c 2) ''ts9''),
         fetch_Entry mem_env (nodes c' 2) ''k'', map_option fst (state_at c' 2),
         trans_start_trans (record_of mem_env (nodes c' 2) ''ts9''),
         trans_self_commit_ts (record_of mem_env (nodes c' 2) ''ts9'')))
       (schedule mem_env demo_plan demo_learns c))
   = Some (Some TransStatePrepared, ''ts95'', Found demo_version, Some TransStateCommited, ''ts95'', ''ts4'')"
  by code_simp

lemma demo_learns_orderly:
  "map_option (orderly_schedule mem_env demo_plan demo_learns) (schedule mem_env demo_plan demo_seen demo_cluster)
   = Some True"
  by code_simp

lemma schedule_orderly_steps:
  "schedule E plan as c = Some c' \<Longrightarrow> orderly_schedule E plan as c \<Longrightarrow> (orderly_step E plan)\<^sup>*\<^sup>* c c'"
proof (induction as arbitrary: c)
  case (Cons a as)
  from Cons.prems(1) obtain c1 where c1: "perform E plan a c = Some c1" "schedule E plan as c1 = Some c'"
    by (auto split: Option.bind_splits)
  from Cons.prems(2) c1(1) have fresh: "begins_fresh E a c" "orderly_schedule E plan as c1" by simp_all
  then have "orderly_step E plan c c1"
    using perform_step [OF c1(1)] perform_fresh [OF c1(1)] by (simp add: orderly_step_def)
  with Cons.IH [OF c1(2) fresh(2)] show ?case by (rule converse_rtranclp_into_rtranclp [rotated])
qed simp

lemma demo_learns_reached:
  obtains c c' where "orderly mem_env demo_plan c" "(orderly_step mem_env demo_plan)\<^sup>*\<^sup>* c c'"
    "chain mem_env (nodes c 2) ''k'' [demo_version]" "chain mem_env (nodes c' 2) ''k'' [demo_version]"
    "\<exists>t. fetch_Trans mem_env (nodes c 2) ''ts9'' = Found t \<and> trans_state t = TransStatePrepared
      \<and> trans_start_trans t = ''ts95''"
    "\<exists>t. fetch_Trans mem_env (nodes c' 2) ''ts9'' = Found t \<and> trans_state t = TransStateCommited
      \<and> trans_start_trans t = ''ts95'' \<and> trans_self_commit_ts t = ''ts4''"
proof -
  obtain c c' where c: "schedule mem_env demo_plan demo_seen demo_cluster = Some c"
    "schedule mem_env demo_plan demo_learns c = Some c'"
    and facts: "map_option fst (state_at c 2) = Some TransStatePrepared"
      "trans_start_trans (record_of mem_env (nodes c 2) ''ts9'') = ''ts95''"
      "fetch_Entry mem_env (nodes c' 2) ''k'' = Found demo_version"
      "map_option fst (state_at c' 2) = Some TransStateCommited"
      "trans_start_trans (record_of mem_env (nodes c' 2) ''ts9'') = ''ts95''"
      "trans_self_commit_ts (record_of mem_env (nodes c' 2) ''ts9'') = ''ts4''"
    using demo_learns_runs by (auto split: Option.bind_splits)
  have e: "fetch_Entry mem_env (nodes c 2) ''k'' = Found demo_version" using demo_seen_runs c(1) by simp
  have chains: "chain mem_env (nodes c 2) ''k'' [demo_version]" "chain mem_env (nodes c' 2) ''k'' [demo_version]"
    using e facts(3) by (simp_all add: demo_version_def)
  have "orderly_schedule mem_env demo_plan demo_learns c" using demo_learns_orderly c(1) by simp
  with c(2) have "(orderly_step mem_env demo_plan)\<^sup>*\<^sup>* c c'" by (rule schedule_orderly_steps)
  moreover have "orderly mem_env demo_plan c"
    by (rule schedule_orderly [OF c(1) demo_seen_orderly demo_cluster_orderly])
  ultimately show thesis
    using facts chains
    by (intro that [of c c']) (auto simp: state_at_def record_of_def split: fetched.splits)
qed

section \<open>Properties\<close>

text \<open>
  C18: repeatable reads. In an orderly run a read that does not have to wait gives the same code, value,
  version and commit timestamp again at any later time, as long as the reader has not written the key
  itself and every transaction with a version of the key that was undecided at the first read and has
  prepared by the second has a start timestamp and a commit vote not before the reader's timestamp: the
  clocks of those that prepare later are not behind the reader's.
\<close>

theorem repeatable_read:
  assumes "reliable_env E" and "orderly E plan c" and "(orderly_step E plan)\<^sup>*\<^sup>* c c'"
    and "ReadData E b key out (nodes c h) = Some (Ret (r, o1) (nodes c h))" and "r \<noteq> 66"
    and "chain E (nodes c h) key vs" and "chain E (nodes c' h) key vs'"
    and "b \<notin> data_cur_version ` set (vs @ vs')"
    and "\<forall>v\<in>set vs'. \<forall>t. \<not> decided E (nodes c h) (data_cur_version v)
      \<longrightarrow> fetch_Trans E (nodes c' h) (data_cur_version v) = Found t
      \<longrightarrow> trans_state t \<in> {TransStatePrepared, TransStateCommited}
      \<longrightarrow> b \<le> trans_start_trans t \<and> b \<le> trans_self_commit_ts t"
  shows "\<exists>o2. ReadData E b key out (nodes c' h) = Some (Ret (r, o2) (nodes c' h)) \<and> same_answer (r, o1) (r, o2)"
proof -
  let ?rec = "record_of E (nodes c h)" and ?rec' = "record_of E (nodes c' h)"
    and ?ws = "old_versions E (nodes c h) vs"
  let ?us = "takeWhile (\<lambda>v. \<not> decided E (nodes c h) (data_cur_version v)) vs"
  note c' = orderly_steps [OF assms(3,2)]
  note recorded = orderly_recorded [OF assms(1,2,6)] orderly_recorded [OF assms(1) c' assms(7)]
  have vs: "vs = ?us @ ?ws" by (simp add: old_versions_def)
  have g: "grown E (nodes c h) key ?ws (nodes c' h)"
    by (rule reliable_env.run_grown [OF assms(1,3,2,6)])
  then obtain us where "chain E (nodes c' h) key (us @ ?ws)"
    and us: "\<forall>u\<in>set us. \<not> decided E (nodes c h) (data_cur_version u)" by (auto simp: grown_def)
  then have vs': "vs' = us @ ?ws" using chain_unique assms(7) by blast
  have read: "ReadData E b key out (nodes c h) = Some (Ret (read_versions b out ?rec vs) (nodes c h))"
    "ReadData E b key out (nodes c' h) = Some (Ret (read_versions b out ?rec' vs') (nodes c' h))"
    by (rule ReadData_versions [OF assms(6) recorded(1)], rule ReadData_versions [OF assms(7) recorded(2)])
  have undecided: "trans_state (?rec (data_cur_version u)) \<in> {TransStateBegin, TransStatePrepared}"
    if "u \<in> set vs" "\<not> decided E (nodes c h) (data_cur_version u)" for u
    using that recorded(1)
    by (cases "trans_state (?rec (data_cur_version u))") (auto simp: recorded_def record_of_def decided_def)
  have "fst (read_versions b out ?rec (?us @ ?ws)) \<noteq> 66"
    using read(1) assms(4,5) unfolding vs [symmetric] by (metis fst_conv option.inject outcome.inject(1))
  then have 1: "read_versions b out ?rec (?us @ ?ws) = read_versions b out ?rec ?ws"
    by (intro read_versions_skip undecided_skipped)
      (use undecided assms(8) in \<open>auto dest: set_takeWhileD\<close>)
  have "skipped b (data_cur_version u) (?rec' (data_cur_version u))" if u: "u \<in> set us" for u
  proof -
    from u recorded(2) obtain t where "fetch_Trans E (nodes c' h) (data_cur_version u) = Found t"
      by (auto simp: recorded_def vs')
    with u us assms(8,9) show ?thesis by (intro reliable_env.late_skipped [OF assms(1) c']) (auto simp: vs')
  qed
  then have 2: "read_versions b out ?rec' (us @ ?ws) = read_versions b out ?rec' ?ws"
    by (intro read_versions_skip) blast
  have ws: "v \<in> set vs" if "v \<in> set ?ws" for v using that vs by (metis UnCI set_append)
  have "same_answer (read_versions b out ?rec ?ws) (read_versions b out ?rec' ?ws)"
    using reliable_env.decided_same [OF assms(1,3,2)] g ws assms(8)
    by (intro read_versions_same) (auto simp: grown_def)
  with 1 2 have "same_answer (read_versions b out ?rec vs) (read_versions b out ?rec' vs')"
    unfolding vs [symmetric] vs' by simp
  moreover have "read_versions b out ?rec vs = (r, o1)" using read(1) assms(4) by simp
  moreover obtain r2 o2 where "read_versions b out ?rec' vs' = (r2, o2)" by fastforce
  ultimately show ?thesis using read(2) by (auto simp: same_answer_def)
qed

theorem repeatable_read_witness:
  "\<exists>c c' o2. (orderly_step mem_env demo_plan)\<^sup>*\<^sup>* c c'
    \<and> (\<exists>t. fetch_Trans mem_env (nodes c 2) ''ts9'' = Found t \<and> trans_state t = TransStatePrepared)
    \<and> (\<exists>t. fetch_Trans mem_env (nodes c' 2) ''ts9'' = Found t \<and> trans_state t = TransStateCommited)
    \<and> ReadData mem_env ''ts3'' ''k'' read_out_init (nodes c' 2) = Some (Ret (99, o2) (nodes c' 2))"
proof -
  obtain c c' where run: "orderly mem_env demo_plan c" "(orderly_step mem_env demo_plan)\<^sup>*\<^sup>* c c'"
    and vs: "chain mem_env (nodes c 2) ''k'' [demo_version]" "chain mem_env (nodes c' 2) ''k'' [demo_version]"
    and t: "\<exists>t. fetch_Trans mem_env (nodes c 2) ''ts9'' = Found t \<and> trans_state t = TransStatePrepared
      \<and> trans_start_trans t = ''ts95''"
    and t': "\<exists>t. fetch_Trans mem_env (nodes c' 2) ''ts9'' = Found t \<and> trans_state t = TransStateCommited
      \<and> trans_start_trans t = ''ts95'' \<and> trans_self_commit_ts t = ''ts4''"
    by (rule demo_learns_reached)
  have ts: "data_cur_version demo_version = ''ts9''" by (simp add: demo_version_def)
  have "\<not> ''ts95'' < ''ts3''" by code_simp
  then have "ReadData mem_env ''ts3'' ''k'' read_out_init (nodes c 2)
      = Some (Ret (99, read_out_init) (nodes c 2))"
    using t ReadData_versions [OF vs(1) orderly_recorded [OF mem.reliable_env_axioms run(1) vs(1)]]
    by (auto simp: read_versions_def skipped_def record_of_def ts)
  moreover have "\<forall>v\<in>set [demo_version]. \<forall>t. \<not> decided mem_env (nodes c 2) (data_cur_version v)
      \<longrightarrow> fetch_Trans mem_env (nodes c' 2) (data_cur_version v) = Found t
      \<longrightarrow> trans_state t \<in> {TransStatePrepared, TransStateCommited}
      \<longrightarrow> ''ts3'' \<le> trans_start_trans t \<and> ''ts3'' \<le> trans_self_commit_ts t"
  proof -
    have "''ts3'' \<le> ''ts95''" "''ts3'' \<le> ''ts4''" by code_simp+
    with t' show ?thesis by (auto simp: ts)
  qed
  ultimately obtain o2 where "ReadData mem_env ''ts3'' ''k'' read_out_init (nodes c' 2) = Some (Ret (99, o2) (nodes c' 2))"
    using repeatable_read [OF mem.reliable_env_axioms run _ _ vs, of "''ts3''" read_out_init 99 read_out_init] ts
    by fastforce
  with run(2) t t' show ?thesis by blast
qed

end
