(* ===== verification/Typed.thy ===== *)
theory Typed
  imports Locking
begin

text \<open>
  The values of the store as typed ones: under the key of a transaction, a lock or a version there is
  nothing or the JSON text of a message of its type. Every segment of a server keeps that, whatever
  clients send, and on such a store no segment dies of a value it cannot parse.
\<close>

section \<open>Typed stores\<close>

definition readable :: "('d, 'j) env \<Rightarrow> 'd node \<Rightarrow> bool" where
  "readable E st \<longleftrightarrow> (\<forall>ts. fetch_Trans E st ts \<noteq> Unreadable) \<and> (\<forall>key. fetch_Lock E st key \<noteq> Unreadable)
     \<and> (\<forall>key. fetch_Entry E st key \<noteq> Unreadable) \<and> (\<forall>key ts. fetch_Version E st key ts \<noteq> Unreadable)"

lemma readableD:
  assumes "readable E st"
  shows "fetch_Trans E st ts \<noteq> Unreadable" "fetch_Lock E st key \<noteq> Unreadable"
    "fetch_Entry E st key \<noteq> Unreadable" "fetch_Version E st key ts \<noteq> Unreadable"
  using assms by (simp_all add: readable_def)

lemma readable_same: "same_store E st st' \<Longrightarrow> readable E st \<Longrightarrow> readable E st'"
  unfolding same_store_def same_trans_def readable_def by simp

lemma readable_set: "trans_set E st st' ts t \<Longrightarrow> readable E st \<Longrightarrow> readable E st'"
proof -
  assume set: "trans_set E st st' ts t" and ok: "readable E st"
  from set have "fetch_Trans E st' u = (if u = ts then Found t else fetch_Trans E st u)" for u
    by (cases "u = ts") (simp_all add: trans_set_def trans_frame_def)
  moreover from set have "fetch_Lock E st' = fetch_Lock E st" "fetch_Entry E st' = fetch_Entry E st"
    "fetch_Version E st' = fetch_Version E st"
    by (simp_all add: trans_set_def trans_frame_def fun_eq_iff)
  ultimately show ?thesis using ok by (simp add: readable_def)
qed

context store_env
begin

lemma readable_put:
  "readable E st \<Longrightarrow> put_Trans E st key t = (s, st') \<Longrightarrow> readable E st'"
  "readable E st \<Longrightarrow> put_Lock E st key l = (s, st') \<Longrightarrow> readable E st'"
  "readable E st \<Longrightarrow> put_Entry E st key v = (s, st') \<Longrightarrow> readable E st'"
  "readable E st \<Longrightarrow> put_Version E st key vts v = (s, st') \<Longrightarrow> readable E st'"
  by (auto simp: readable_def fetch_defs put_defs fetch_Put decode_own codec_Trans codec_Lock codec_Data)

lemma addData_readable: "readable E st \<Longrightarrow> readable E (state_of (addData E key val ts type st))"
  by (auto simp: addData_eq dest: readable_put split: fetched.splits prod.splits)

end

sublocale store_env \<subseteq> typed: answer_contract E "readable E" in_list "\<lambda>_. True" "\<lambda>_ _. True"
  "\<lambda>_. True" "\<lambda>_ _ _. True"
proof
  fix st st' :: "'d node" and u and t :: Trans and rq and st1 :: "'d node" and now and r and rv and task
    and s and a :: TransStateRes
  show "readable E st'" if "readable E st" "same_store E st st'" using that(2,1) by (rule readable_same)
  show "readable E st'" if "readable E st" "put_Lock E st k \<lparr>lock_trans = u\<rparr> = (c, st')" for k c
    using that by (rule readable_put)
  show "keeps (readable E) (addData E k val u type st)" if "readable E st" for k val type
    unfolding keeps_def using that by (rule addData_readable)
  show "readable E st'" if "readable E st" "trans_set E st st' u Trans_init"
    using that(2,1) by (rule readable_set)
  show "readable E st'" if "readable E st" "trans_set E st st1 u (prepared_record (self_hash_id st) rq t)"
    "updateTransSelfCommitTs E u now st1 = Ret r st'" "r \<noteq> 0"
    by (rule readable_same [OF stamp_failed_same [OF store_env_axioms that(3,4)] readable_set [OF that(2,1)]])
  show "readable E st'" if "readable E st"
    "trans_set E st st' u (stamped now (prepared_record (self_hash_id st) rq t))"
    using that(2,1) by (rule readable_set)
  show "readable E st'" if "readable E st" "trans_set E st st' u (t\<lparr>trans_state := TransStateRollback\<rparr>)"
    using that(2,1) by (rule readable_set)
  show "readable E (set_pc task (Querying rv) st)" if "readable E st"
    using that by (simp add: readable_def fetch_defs)
  show "readable E st'" if "readable E st" "trans_set E st st' (rv_begin_ts rv) (committed rv)"
    using that(2,1) by (rule readable_set)
  show "readable E st'" if "readable E st" "trans_set E st st' (rv_begin_ts rv)
      ((rv_trans rv)\<lparr>trans_state := TransStateCommited, trans_commit_trans := ts_commit_ts a\<rparr>)"
    using that(2,1) by (rule readable_set)
  show "readable E st'" if "readable E st" "trans_set E st st' (rv_begin_ts rv)
      ((rv_trans rv)\<lparr>trans_state := TransStateRollback\<rparr>)"
    using that(2,1) by (rule readable_set)
  show "in_list st (note_state s rv)" if "in_list st rv" using that by (simp add: in_list_def)
qed (auto simp: in_list_def first_round_def next_round_def pass_host_def count_host_def rv_list_def)

section \<open>No value fails to parse\<close>

definition parses :: "('a, 's) outcome \<Rightarrow> bool" where
  "parses m \<longleftrightarrow> (\<forall>st. m \<noteq> Abort Json_exception st)"

lemma parses_simps [simp]:
  "parses (Ret a st)" "parses (Abort c st) \<longleftrightarrow> c \<noteq> Json_exception"
  "parses (respond rs s st0)" "parses (respond_err code e rs s st0)" "parses (await w rq rs s st0)"
  by (simp_all add: parses_def respond_def respond_err_def await_def)

lemma parses_bind: "parses m \<Longrightarrow> (\<And>a st. m = Ret a st \<Longrightarrow> parses (k a st)) \<Longrightarrow> parses (bind_out m k)"
  by (cases m) simp_all

lemma save_and_end_parses [simp]: "parses (save_and_end E t ts tr st)"
  by (auto simp: save_and_end_def split: prod.splits)

lemma prepare_next_parses [simp]: "parses (prepare_next E now t rv st)"
  by (auto simp: prepare_next_def prepare_commit_def Let_def split: prod.splits)

lemma prepare_answer_parses: "parses (prepare_answer E now t rv res st)"
  by (auto simp: prepare_answer_def Let_def split: option.split TransState.split)

lemma get_readable:
  "readable E st \<Longrightarrow> Get_db E st (makeTrans ts) = (kOk, v) \<Longrightarrow> decode E (pb_Trans E) Trans_init v \<noteq> Unreadable"
  using readableD(1) [of E st ts] by (simp add: fetch_Trans_def fetch_def)

lemma parsed_parses:
  "decode E c m0 v \<noteq> Unreadable \<Longrightarrow> (\<And>m. parses (k m)) \<Longrightarrow> parses (parsed E c m0 v st k)"
  by (auto simp: parsed_eq split: fetched.split)

lemma prepare_resume_parses:
  assumes "readable E st"
  shows "parses (prepare_resume E now t ts st)"
  using get_readable [OF assms, of ts]
  by (auto simp: prepare_resume_def prepare_enter_def Let_def intro!: parsed_parses split: prod.splits)

lemma startCleanTrans_parses:
  assumes "readable E st"
  shows "parses (startCleanTrans E (prepare_resume E now) ts st)"
proof -
  have "parses (prepare_resume E now t ts (st\<lparr>prepareTaskStack := rest\<rparr>))" for t rest
    by (rule prepare_resume_parses [OF readable_same [OF same_store_stack assms]])
  with readableD(1) [OF assms] show ?thesis
    by (auto simp: startCleanTrans_eq split: fetched.split TransState.split list.split prod.split)
qed

context store_env
begin

lemma startUpClean_turn_parses:
  assumes ok: "readable E st" and G: "Get_db E st (makeTrans ts) = (kOk, v)"
  shows "parses (startUpClean_turn E (prepare_resume E now) (makeTrans ts) v st)"
  unfolding startUpClean_turn_def
  by (rule parsed_parses [OF get_readable [OF ok G]])
    (auto simp: Let_def startCleanTrans_parses [OF ok] split: prod.splits)

lemma startUpClean_loop_parses:
  assumes "readable E st" and "snapshot E iter st"
  shows "parses (startUpClean_loop E (prepare_resume E now) iter st)"
  using assms
proof (induction iter arbitrary: st)
  case Nil
  then show ?case by simp
next
  case (Cons kv iter)
  obtain key v where kv: "kv = (key, v)" by fastforce
  note snap = Cons.prems(2) [unfolded kv]
  show ?case
  proof (cases "prefix (makeTrans []) key")
    case True
    then obtain ts where ts: "key = makeTrans ts" using makeTrans_cases by blast
    note G = snapshot_head [OF snap [unfolded ts]]
    note turn = typed.startUpClean_turn_keeps [OF Cons.prems(1) TrueI G, of now]
    have "parses (startUpClean_loop E (prepare_resume E now) iter st1)"
      if run: "startUpClean_turn E (prepare_resume E now) key v st = Ret a st1" for a st1
      by (rule Cons.IH [OF _ snapshot_tail [OF snap _ run]])
        (use turn run only_key_turn [of ts st now v] in \<open>simp_all add: ts\<close>)
    with startUpClean_turn_parses [OF Cons.prems(1) G, of now] True show ?thesis
      by (auto simp: kv ts intro!: parses_bind)
  qed (simp add: kv)
qed

lemma startUpClean_parses: "readable E st \<Longrightarrow> parses (startUpClean E (prepare_resume E now) st)"
  unfolding startUpClean_def by (rule startUpClean_loop_parses [OF _ snapshot_start])

end

section \<open>The segments of a connection\<close>

lemma addTrans_parses [simp]: "parses (addTrans E ts st)"
  by (auto simp: addTrans_eq split: prod.splits)

lemma addLock_parses: "readable E st \<Longrightarrow> parses (addLock E key ts st)"
  using readableD(1,2) [of E st]
  by (auto simp: addLock_eq Let_def split: fetched.splits prod.splits)

lemma addData_parses: "readable E st \<Longrightarrow> parses (addData E key val ts type st)"
  using readableD(3) [of E st] by (auto simp: addData_eq split: fetched.splits prod.splits)

lemma updateTransPrepared_parses: "readable E st \<Longrightarrow> parses (updateTransPrepared E ts rq st)"
  using readableD(1) [of E st]
  by (auto simp: updateTransPrepared_eq split: fetched.splits prod.splits)

lemma updateTransSelfCommitTs_parses: "readable E st \<Longrightarrow> parses (updateTransSelfCommitTs E ts now st)"
  using readableD(1) [of E st]
  by (auto simp: updateTransSelfCommitTs_eq split: fetched.splits prod.splits)

lemma ReadData_loop_parses:
  assumes run: "ReadData_loop E ts key out lts st = Some r" and ok: "readable E st"
  shows "parses r"
proof -
  have "readable E st \<longrightarrow> parses r"
  proof (rule ReadData_loop.raw_induct [OF _ run])
    fix rec E ts key out lts st r
    assume IH: "\<And>E ts key out lts st r. rec E ts key out lts st = Some r \<Longrightarrow> readable E st \<longrightarrow> parses r"
      and step: "(case ReadData_turn E ts key out lts st of Abort c st \<Rightarrow> Some (Abort c st)
        | Ret r st \<Rightarrow> (case r of Inl ret \<Rightarrow> Some (Ret ret st) | Inr l \<Rightarrow> rec E ts key out l st)) = Some r"
    show "readable E st \<longrightarrow> parses r"
    proof
      assume ok: "readable E st"
      have "parses (ReadData_turn E ts key out lts st)"
        using readableD [OF ok]
        by (auto simp: ReadData_turn_eq visit_def Let_def split: fetched.splits sum.splits if_splits)
      moreover have "ReadData_turn E ts key out lts st = Ret x st' \<Longrightarrow> st' = st" for x st'
        by (auto simp: ReadData_turn_eq split: fetched.splits sum.splits if_splits)
      ultimately show "parses r"
        using step ok IH by (auto simp: parses_def split: outcome.splits sum.splits)
    qed
  qed
  with ok show ?thesis by blast
qed

lemma serve_read_parses: "readable E st \<Longrightarrow> serve_read E now rq rs s st = Some r \<Longrightarrow> parses r"
  by (auto simp: serve_read_def ReadData_def Let_def dest: ReadData_loop_parses
      split: option.splits intro!: parses_bind)

lemma serve_trans_state_parses: "readable E st \<Longrightarrow> parses (serve_trans_state E tq s st)"
  using get_readable [of E st "tq_begin_ts tq"]
  by (auto simp: serve_trans_state_def Let_def intro!: parsed_parses split: prod.splits)

context store_env
begin

lemma updates_readable:
  assumes "readable E st"
  shows "updateTransPrepared E ts rq st = Ret r st' \<Longrightarrow> readable E st'"
    and "updateTransSelfCommitTs E ts now st = Ret r st' \<Longrightarrow> readable E st'"
  using assms
  by (auto simp: updateTransPrepared_eq updateTransSelfCommitTs_eq dest: readable_put(1)
      split: fetched.splits prod.splits if_splits)

lemma addLock_readable: "readable E st \<Longrightarrow> addLock E key ts st = Ret r st' \<Longrightarrow> readable E st'"
  by (auto simp: addLock_eq Let_def dest: readable_put(2) split: fetched.splits prod.splits if_splits)

lemma serve_prepare_parses:
  assumes ok: "readable E st"
  shows "parses (serve_prepare E now rq rs s st)"
proof -
  have "parses (updateTransSelfCommitTs E ts now st1)" "readable E st2"
    if "updateTransPrepared E ts rq st = Ret r st1" "updateTransSelfCommitTs E ts now st1 = Ret r' st2"
    for ts r r' st1 st2
    using that updates_readable ok by (metis updateTransSelfCommitTs_parses)+
  then show ?thesis
    by (auto simp: serve_prepare_def Let_def updateTransPrepared_parses [OF ok]
        updateTransSelfCommitTs_parses [OF updates_readable(1) [OF ok]]
        intro!: parses_bind startCleanTrans_parses)
qed

lemma serve_lock_get_parses:
  assumes "readable E st" and "serve_lock_get E now rq rs s st = Some r"
  shows "parses r"
proof (cases "addLock E (rq_key rq) (ss_begin_ts s) st")
  case (Ret ret st1)
  with assms addLock_readable [OF assms(1) Ret] show ?thesis
    by (auto simp: serve_lock_get_def dest: serve_read_parses split: if_splits)
next
  case (Abort c st1)
  with assms(2) addLock_parses [OF assms(1), of "rq_key rq" "ss_begin_ts s"] show ?thesis
    by (auto simp: serve_lock_get_def)
qed

lemma serve_lock_write_parses: "readable E st \<Longrightarrow> parses (serve_lock_write E rq rs s st)"
  by (auto simp: serve_lock_write_def addLock_parses intro!: parses_bind
      addData_parses dest: addLock_readable)

lemma serve_msg_parses:
  assumes ok: "readable E st" and run: "serve_msg E now m s st = Some r"
  shows "parses r"
proof (cases "msg_msg_type m")
  case MSG_Type_Rpc_Request
  then show ?thesis
    using run ok
    by (cases "rq_request_type (mutable_rpc_request m)")
      (auto simp: serve_msg_def Let_def serve_commit_def serve_begin_def serve_get_def serve_write_def
        simp del: mutable_rpc_request.simps split: if_splits
        intro: serve_prepare_parses serve_lock_get_parses serve_read_parses serve_lock_write_parses
        intro!: parses_bind)
qed (use run serve_trans_state_parses [OF ok] in \<open>auto simp: serve_msg_def
  simp del: mutable_rpc_request.simps mutable_trans_state_request.simps\<close>)

lemma serve_timeout_parses:
  "readable E st \<Longrightarrow> serve_timeout E now s st = Some r \<Longrightarrow> parses r"
  by (auto simp: serve_timeout_def intro: serve_lock_get_parses serve_read_parses serve_lock_write_parses
      split: session_pc.splits wait_at.splits)

lemma serve_close_parses: "readable E st \<Longrightarrow> parses (serve_close E now s st)"
  by (simp add: serve_close_def startCleanTrans_parses)

end

section \<open>Runs\<close>

lemma steps_reachable: "(step E plan)\<^sup>*\<^sup>* c0 c \<Longrightarrow> initial E c0 \<Longrightarrow> reachable E plan c"
  by (induction rule: rtranclp_induct) (blast intro: reachable.start, rule reachable.more)

lemma schedule_steps: "schedule E plan as c = Some c' \<Longrightarrow> (step E plan)\<^sup>*\<^sup>* c c'"
  by (induction as arbitrary: c)
    (auto split: Option.bind_splits dest!: perform_step intro: converse_rtranclp_into_rtranclp)

context store_env
begin

lemma step_readable:
  assumes "step E plan c c'" and "protocol_inv E plan c" and "readable E (nodes c h)"
  shows "readable E (nodes c' h)"
proof (rule typed.step_keeps [OF assms(1,3)])
  show "in_list (nodes c h) rv \<and> rv_i rv < length (rv_list rv)"
    if "pt_pc (node_tasks (nodes c h) k) = Querying rv" for k rv
    using assms(2) that unfolding protocol_inv_def in_list_def by fastforce
qed simp_all

lemma run_readable:
  assumes "(step E plan)\<^sup>*\<^sup>* c0 c" and "initial E c0" and "readable E (nodes c0 h)"
  shows "readable E (nodes c h)"
  using assms(1)
proof (induction rule: rtranclp_induct)
  case base
  show ?case by (rule assms(3))
next
  case (step c1 c2)
  have "protocol_inv E plan c1"
    by (rule reachable_inv [OF steps_reachable [OF step.hyps(1) assms(2)]])
  with step.IH step.hyps(2) show ?case by (rule step_readable [rotated -1])
qed

end

lemma demo_cluster_readable: "readable mem_env (nodes demo_cluster h)"
  by (simp add: readable_def demo_cluster_def fetch_defs fetch_def Get_db_def mem_env_def)

section \<open>Properties\<close>

text \<open>
  C21: the store stays typed. Whatever clients send and whatever fails, every value a server keeps
  under the key of a transaction, a lock or a version parses as a message of that type, so that no
  segment of a connection, of a resolver or of the start ends in the exception of the JSON parser.
\<close>

theorem store_stays_typed:
  assumes "store_env E" and "initial E c0" and "readable E (nodes c0 h)" and "(step E plan)\<^sup>*\<^sup>* c0 c"
  shows "readable E (nodes c h)
    \<and> (serve_msg E now m s (nodes c h) = Some r \<longrightarrow> parses r)
    \<and> (serve_timeout E now s (nodes c h) = Some r \<longrightarrow> parses r)
    \<and> parses (serve_close E now s (nodes c h))
    \<and> parses (prepare_answer E now t rv res (nodes c h))
    \<and> parses (startUpClean E (prepare_resume E now) (boot (nodes c h)))"
proof -
  have ok: "readable E (nodes c h)"
    using store_env.run_readable [OF assms(1,4,2,3)] .
  note [simp] = store_env.serve_msg_parses [OF assms(1) ok] store_env.serve_timeout_parses [OF assms(1) ok]
    store_env.serve_close_parses [OF assms(1) ok]
    store_env.startUpClean_parses [OF assms(1) readable_same [OF same_store_boot ok]]
  show ?thesis using ok by (simp add: prepare_answer_parses)
qed

theorem store_stays_typed_witness:
  "\<exists>c. schedule mem_env demo_plan demo_insert demo_cluster = Some c
    \<and> fetch_Lock mem_env (nodes c 1) ''k'' = Found \<lparr>lock_trans = ''ts9''\<rparr> \<and> readable mem_env (nodes c 1)
    \<and> parses (startUpClean mem_env (prepare_resume mem_env ''ts8'') (boot (nodes c 1)))"
proof -
  obtain c where c: "schedule mem_env demo_plan demo_insert demo_cluster = Some c"
    and l: "fetch_Lock mem_env (nodes c 1) ''k'' = Found \<lparr>lock_trans = ''ts9''\<rparr>"
    using demo_insert_runs by auto
  from store_stays_typed [OF mem.store_env_axioms demo_cluster_initial demo_cluster_readable
    schedule_steps [OF c], of 1 "''ts8''"] c l show ?thesis by blast
qed

end
