(* ===== verification/Os.thy ===== *)
theory Os
  imports Prelude "HOL-Library.Word"
begin

text \<open>
  The operating system and libco, as a parameter: the calls the program makes, over a state \<open>'k\<close> of
  everything outside the calling coroutine. Where libco suspends a coroutine in a call, what
  happens meanwhile is part of the call. The locales state what the program relies on.
\<close>

section \<open>The calls\<close>

text \<open>An IPv4 socket address; port and address are in network byte order.\<close>

record sockaddr_in =
  sin_port :: "16 word"
  sin_addr :: "32 word"

text \<open>
  \<open>os_read\<close> is \<open>None\<close> where \<open>read\<close> returns -1, and the bytes it put into the buffer otherwise.
  \<open>os_poll\<close> takes the descriptors and the time to wait, and returns the result and which of the
  descriptors have \<open>revents\<close>. \<open>os_time\<close> is \<open>gettimeofday\<close>.
\<close>

record 'k os =
  os_socket :: "'k \<Rightarrow> int \<times> 'k"
  os_reuse :: "int \<Rightarrow> 'k \<Rightarrow> int \<times> 'k"
  os_bind :: "int \<Rightarrow> sockaddr_in \<Rightarrow> 'k \<Rightarrow> int \<times> 'k"
  os_connect :: "int \<Rightarrow> sockaddr_in \<Rightarrow> 'k \<Rightarrow> int \<times> 'k"
  os_listen :: "int \<Rightarrow> 'k \<Rightarrow> int \<times> 'k"
  os_accept :: "int \<Rightarrow> 'k \<Rightarrow> int \<times> 'k"
  os_close :: "int \<Rightarrow> 'k \<Rightarrow> 'k"
  os_getfl :: "int \<Rightarrow> 'k \<Rightarrow> 32 word \<times> 'k"
  os_setfl :: "int \<Rightarrow> 32 word \<Rightarrow> 'k \<Rightarrow> int \<times> 'k"
  os_read :: "int \<Rightarrow> nat \<Rightarrow> 'k \<Rightarrow> string option \<times> 'k"
  os_write :: "int \<Rightarrow> string \<Rightarrow> 'k \<Rightarrow> int \<times> 'k"
  os_poll :: "int list \<Rightarrow> nat \<Rightarrow> 'k \<Rightarrow> int \<times> bool list \<times> 'k"
  os_time :: "'k \<Rightarrow> (nat \<times> nat) \<times> 'k"
  inet_addr :: "string \<Rightarrow> 32 word"

section \<open>What the program relies on\<close>

text \<open>
  The laws are about what the calling coroutine does: the descriptors it has open, what it has written,
  and what will arrive for it. Another coroutine that runs meanwhile changes none of these.

  A stream socket: \<open>arriving k fd\<close> is what reading \<open>fd\<close> gives before the first read that fails or
  finds the end, \<open>sent_on k fd\<close> what has been written to it. A read takes a piece of the front, a write
  may take a part of what it is given, and neither touches another descriptor.
\<close>

locale streams =
  fixes K :: "'k os"
    and arriving :: "'k \<Rightarrow> int \<Rightarrow> string"
    and sent_on :: "'k \<Rightarrow> int \<Rightarrow> string"
  assumes read_bound: "os_read K fd n k = (Some b, k') \<Longrightarrow> length b \<le> n"
    and read_some: "os_read K fd n k = (Some b, k') \<Longrightarrow> b \<noteq> [] \<Longrightarrow> arriving k fd = b @ arriving k' fd"
    and read_end: "os_read K fd n k = (r, k') \<Longrightarrow> 0 < n \<Longrightarrow> r = None \<or> r = Some [] \<Longrightarrow> arriving k fd = []"
    and read_frame: "os_read K fd n k = (r, k') \<Longrightarrow> g \<noteq> fd \<Longrightarrow> arriving k' g = arriving k g"
    and read_sent: "os_read K fd n k = (r, k') \<Longrightarrow> sent_on k' = sent_on k"
    and write_bound: "os_write K fd bs k = (w, k') \<Longrightarrow> - 1 \<le> w \<and> w \<le> int (length bs)"
    and write_some: "os_write K fd bs k = (w, k') \<Longrightarrow> sent_on k' fd = sent_on k fd @ take (nat w) bs"
    and write_frame: "os_write K fd bs k = (w, k') \<Longrightarrow> g \<noteq> fd \<Longrightarrow> sent_on k' g = sent_on k g"
    and write_arriving: "os_write K fd bs k = (w, k') \<Longrightarrow> arriving k' = arriving k"
    and poll_frame: "os_poll K fds ms k = (i, ev, k') \<Longrightarrow> arriving k' = arriving k \<and> sent_on k' = sent_on k"

text \<open>A write that is given bytes takes some or fails.\<close>

locale progressing = streams K arriving sent_on
  for K :: "'k os" and arriving :: "'k \<Rightarrow> int \<Rightarrow> string" and sent_on :: "'k \<Rightarrow> int \<Rightarrow> string" +
  assumes write_progress: "os_write K fd bs k = (w, k') \<Longrightarrow> bs \<noteq> [] \<Longrightarrow> w \<noteq> 0"

text \<open>
  The open descriptors: a socket is a new one, closing removes one, and binding, connecting and
  setting options keep them.
\<close>

locale descriptors =
  fixes K :: "'k os" and opened :: "'k \<Rightarrow> int set"
  assumes socket_new: "os_socket K k = (fd, k') \<Longrightarrow> 0 \<le> fd
      \<Longrightarrow> fd \<notin> opened k \<and> opened k' = insert fd (opened k)"
    and socket_failed: "os_socket K k = (fd, k') \<Longrightarrow> fd < 0 \<Longrightarrow> opened k' = opened k"
    and opened_pos: "fd \<in> opened k \<Longrightarrow> 0 \<le> fd"
    and close_opened: "opened (os_close K fd k) = opened k - {fd}"
    and reuse_opened: "os_reuse K fd k = (r, k') \<Longrightarrow> opened k' = opened k"
    and bind_opened: "os_bind K fd a k = (r, k') \<Longrightarrow> opened k' = opened k"
    and connect_opened: "os_connect K fd a k = (r, k') \<Longrightarrow> opened k' = opened k"
    and connect_result: "os_connect K fd a k = (r, k') \<Longrightarrow> r = 0 \<or> r = - 1"
    and connect_bad: "os_connect K fd a k = (r, k') \<Longrightarrow> fd < 0 \<Longrightarrow> r = - 1"

text \<open>Both together: what is written stays written, and moving bytes keeps the descriptors.\<close>

locale processes = progressing K arriving sent_on + descriptors K opened
  for K :: "'k os" and arriving and sent_on and opened +
  assumes socket_sent: "os_socket K k = (fd, k') \<Longrightarrow> sent_on k' = sent_on k"
    and connect_sent: "os_connect K fd a k = (c, k') \<Longrightarrow> sent_on k' = sent_on k"
    and close_sent: "sent_on (os_close K fd k) = sent_on k"
    and time_sent: "os_time K k = (t, k') \<Longrightarrow> sent_on k' = sent_on k"
    and read_opened: "os_read K fd n k = (r, k') \<Longrightarrow> opened k' = opened k"
    and write_opened: "os_write K fd bs k = (w, k') \<Longrightarrow> opened k' = opened k"
    and poll_opened: "os_poll K fds ms k = (i, ev, k') \<Longrightarrow> opened k' = opened k"
    and time_opened: "os_time K k = (t, k') \<Longrightarrow> opened k' = opened k"

end
