(* ===== verification/Network.thy ===== *)
theory Network
  imports Os Proto
begin

text \<open>
  \<open>Core/Network.cpp\<close>: addresses, sockets, and the two loops that move a given number of bytes over a
  connection. A C \<open>int\<close> is an \<open>int\<close> here, and what overflows or is undefined is written out.
\<close>

section \<open>The functions\<close>

unbundle bit_operations_syntax

definition O_NONBLOCK :: "32 word" where
  "O_NONBLOCK = 0x800"

text \<open>\<open>O_NDELAY\<close> is the same flag as \<open>O_NONBLOCK\<close> on Linux.\<close>

definition SetNonBlock :: "'k os \<Rightarrow> int \<Rightarrow> 'k \<Rightarrow> int \<times> 'k" where
  "SetNonBlock K iSock k =
     (let (iFlags, k) = os_getfl K iSock k;
          iFlags = iFlags OR O_NONBLOCK;
          iFlags = iFlags OR O_NONBLOCK
      in os_setfl K iSock iFlags k)"

text \<open>\<open>htons\<close> on a little-endian machine.\<close>

definition htons :: "16 word \<Rightarrow> 16 word" where
  "htons w = (push_bit 8 w) OR (drop_bit 8 w)"

text \<open>A C string is \<open>None\<close> for the null pointer. \<open>INADDR_ANY\<close> is 0 in either byte order.\<close>

definition SetAddr :: "'k os \<Rightarrow> string option \<Rightarrow> 16 word \<Rightarrow> sockaddr_in" where
  "SetAddr K pszIP shPort =
     \<lparr>sin_port = htons shPort,
      sin_addr =
        (case pszIP of
           None \<Rightarrow> 0
         | Some ip \<Rightarrow>
             if ip = [] \<or> ip = ''0'' \<or> ip = ''0.0.0.0'' \<or> ip = ''*'' then 0 else inet_addr K ip)\<rparr>"

definition CreateTcpSocket :: "'k os \<Rightarrow> 16 word \<Rightarrow> string option \<Rightarrow> bool \<Rightarrow> 'k \<Rightarrow> int \<times> 'k" where
  "CreateTcpSocket K shPort pszIP bReuse k =
     (let (fd, k) = os_socket K k
      in if fd \<ge> 0 \<and> shPort \<noteq> 0 then
           (let k = (if bReuse then snd (os_reuse K fd k) else k);
                (ret, k) = os_bind K fd (SetAddr K pszIP shPort) k
            in if ret \<noteq> 0 then (- 1, os_close K fd k) else (fd, k))
         else (fd, k))"

text \<open>The turns that are left after some of the bytes have been read.\<close>

function ReadBuff_loop :: "'k os \<Rightarrow> int \<Rightarrow> nat \<Rightarrow> string \<Rightarrow> 'k \<Rightarrow> string \<times> 'k" where
  "ReadBuff_loop K fd len retStr k =
     (if len = 0 then (retStr, k)
      else case os_read K fd len k of
             (None, k) \<Rightarrow> (retStr, k)
           | (Some buff, k) \<Rightarrow>
               if buff = [] then (retStr, k)
               else ReadBuff_loop K fd (len - length buff) (retStr @ buff) k)"
  by pat_completeness auto
termination
  by (relation "measure (\<lambda>(_, _, len, _, _). len)") auto

declare ReadBuff_loop.simps [simp del]

text \<open>
  \<open>new char[len+1]\<close> throws for a negative size; for the greatest \<open>int\<close> the sum overflows.
\<close>

definition ReadBuff :: "'k os \<Rightarrow> int \<Rightarrow> int \<Rightarrow> 'k \<Rightarrow> (string, 'k) outcome" where
  "ReadBuff K fd len k =
     (if len = 2 ^ 31 - 1 then Abort Integer_undefined k
      else if len + 1 < 0 then Abort Bad_array_new_length k
      else let (retStr, k) = ReadBuff_loop K fd (nat len) [] k in Ret retStr k)"

text \<open>
  \<open>buff\<close> is what \<open>buff+pos\<close> and \<open>len\<close> denote: the bytes still to send. The loop is \<open>None\<close> if it never
  ends, as it would with a \<open>write\<close> that keeps returning 0.
\<close>

partial_function (option) SendBuff :: "'k os \<Rightarrow> int \<Rightarrow> string \<Rightarrow> 'k \<Rightarrow> (int \<times> 'k) option" where
  "SendBuff K fd buff k =
     (if buff = [] then Some (0, k)
      else case os_write K fd buff k of
             (n, k) \<Rightarrow>
               if n < 0 then Some (n, k)
               else SendBuff K fd (drop (nat n) buff) k)"

declare SendBuff.simps [code]

text \<open>The port is an \<open>int\<close> that \<open>SetAddr\<close> takes as an \<open>unsigned short\<close>.\<close>

definition Connect :: "'k os \<Rightarrow> string \<Rightarrow> int \<Rightarrow> 'k \<Rightarrow> int \<times> 'k" where
  "Connect K host port k =
     (let (fd, k) = os_socket K k;
          (ret, k) = os_connect K fd (SetAddr K (Some host) (word_of_int port)) k
      in if ret \<noteq> 0 then (ret, os_close K fd k) else (fd, k))"

section \<open>Lemmas\<close>

context streams
begin

text \<open>\<open>ReadBuff\<close> gives the bytes that arrive, up to the number asked for, however they arrive.\<close>

lemma ReadBuff_loop_takes:
  assumes "ReadBuff_loop K fd len s k = (r, k')"
  shows "r = s @ take len (arriving k fd)
    \<and> (length (arriving k fd) \<ge> len \<longrightarrow> arriving k' fd = drop len (arriving k fd))
    \<and> (\<forall>g. g \<noteq> fd \<longrightarrow> arriving k' g = arriving k g) \<and> sent_on k' = sent_on k"
  using assms
proof (induction len arbitrary: s k rule: less_induct)
  case (less len)
  show ?case
  proof (cases "len = 0")
    case True
    with less.prems show ?thesis by (simp add: ReadBuff_loop.simps)
  next
    case False
    obtain b k1 where read: "os_read K fd len k = (b, k1)" by fastforce
    note frame = read_frame [OF read] read_sent [OF read]
    show ?thesis
    proof (cases "b = None \<or> b = Some []")
      case True
      with read_end [OF read] less.prems False read frame show ?thesis
        by (auto simp: ReadBuff_loop.simps [of K fd len])
    next
      case some: False
      then obtain c where b: "b = Some c" and c: "c \<noteq> []" by auto
      note arr = read_some [OF read [unfolded b] c]
      have len: "0 < length c" "length c \<le> len" using c read_bound [OF read [unfolded b]] by auto
      have rest: "ReadBuff_loop K fd (len - length c) (s @ c) k1 = (r, k')"
        using less.prems False read b c by (simp add: ReadBuff_loop.simps [of K fd len])
      from less.IH [OF _ rest] len False frame arr show ?thesis by auto
    qed
  qed
qed

lemma ReadBuff_takes:
  assumes "0 \<le> len" and "len < 2 ^ 31 - 1"
  shows "\<exists>k'. ReadBuff K fd len k = Ret (take (nat len) (arriving k fd)) k'
    \<and> (len \<le> int (length (arriving k fd)) \<longrightarrow> arriving k' fd = drop (nat len) (arriving k fd))
    \<and> (\<forall>g. g \<noteq> fd \<longrightarrow> arriving k' g = arriving k g) \<and> sent_on k' = sent_on k"
proof -
  obtain r k' where "ReadBuff_loop K fd (nat len) [] k = (r, k')" by fastforce
  with ReadBuff_loop_takes [OF this] assms show ?thesis
    by (auto simp: ReadBuff_def nat_le_iff)
qed

text \<open>\<open>SendBuff\<close> sends everything or reports -1 after a part.\<close>

lemma SendBuff_sends:
  assumes "SendBuff K fd buff k = Some r"
  shows "arriving (snd r) = arriving k \<and> (\<forall>g. g \<noteq> fd \<longrightarrow> sent_on (snd r) g = sent_on k g)
    \<and> (if fst r = 0 then sent_on (snd r) fd = sent_on k fd @ buff
       else fst r = - 1 \<and> (\<exists>s. strict_prefix s buff \<and> sent_on (snd r) fd = sent_on k fd @ s))"
proof -
  define post where "post buff k r \<longleftrightarrow> arriving (snd r) = arriving k
    \<and> (\<forall>g. g \<noteq> fd \<longrightarrow> sent_on (snd r) g = sent_on k g)
    \<and> (if fst r = 0 then sent_on (snd r) fd = sent_on k fd @ buff
       else fst r = - 1 \<and> (\<exists>s. strict_prefix s buff \<and> sent_on (snd r) fd = sent_on k fd @ s))"
    for buff k and r :: "int \<times> 'k"
  have "K = K \<and> fd = fd \<longrightarrow> post buff k r"
  proof (rule SendBuff.raw_induct [where P = "\<lambda>K' fd' buff k r. K' = K \<and> fd' = fd \<longrightarrow> post buff k r",
      OF _ assms], intro impI, elim conjE)
    fix loop K' fd' buff k r
    assume IH: "\<And>K' fd' buff k r. loop K' fd' buff k = Some r \<Longrightarrow> K' = K \<and> fd' = fd \<longrightarrow> post buff k r"
      and [simp]: "K' = K" "fd' = fd"
      and run: "(if buff = [] then Some (0, k)
        else case os_write K' fd' buff k of (n, k) \<Rightarrow>
          if n < 0 then Some (n, k) else loop K' fd' (drop (nat n) buff) k) = Some r"
    show "post buff k r"
    proof (cases "buff = []")
      case True
      with run show ?thesis by (auto simp: post_def)
    next
      case False
      obtain w k1 where call: "os_write K fd buff k = (w, k1)" by fastforce
      note sent = write_some [OF call] write_frame [OF call] write_arriving [OF call]
        write_bound [OF call]
      show ?thesis
      proof (cases "w < 0")
        case True
        with run False call sent show ?thesis by (auto simp: post_def strict_prefix_def)
      next
        case pos: False
        with run False call have "loop K fd (drop (nat w) buff) k1 = Some r" by simp
        with IH have post: "post (drop (nat w) buff) k1 r" by simp
        have "strict_prefix (take (nat w) buff @ s) buff" if "strict_prefix s (drop (nat w) buff)" for s
          using that by (metis append_take_drop_id same_append_eq same_prefix_prefix strict_prefix_def)
        with post sent show ?thesis by (fastforce simp: post_def split: if_splits)
      qed
    qed
  qed
  then show ?thesis by (simp add: post_def)
qed

end

context progressing
begin

lemma SendBuff_returns: "\<exists>n k'. SendBuff K fd buff k = Some (n, k')"
proof (induction buff arbitrary: k rule: length_induct)
  case (1 buff)
  show ?case
  proof (cases "buff = []")
    case True
    then show ?thesis by (simp add: SendBuff.simps)
  next
    case False
    obtain n k1 where call: "os_write K fd buff k = (n, k1)" by fastforce
    show ?thesis
    proof (cases "n < 0")
      case True
      with False call show ?thesis by (simp add: SendBuff.simps [of K fd buff])
    next
      case pos: False
      with write_progress [OF call False] have "length (drop (nat n) buff) < length buff"
        using False by simp
      with "1.IH" obtain m k' where "SendBuff K fd (drop (nat n) buff) k1 = Some (m, k')" by blast
      with False pos call show ?thesis by (simp add: SendBuff.simps [of K fd buff])
    qed
  qed
qed

end

context descriptors
begin

text \<open>A connection or a listening socket is one new descriptor; a failure leaves none behind.\<close>

lemma Connect_opens:
  assumes "Connect K host port k = (r, k')"
  shows "if r < 0 then opened k' = opened k else r \<notin> opened k \<and> opened k' = insert r (opened k)"
proof -
  obtain fd k1 where s: "os_socket K k = (fd, k1)" by fastforce
  obtain c k2 where c: "os_connect K fd (SetAddr K (Some host) (word_of_int port)) k1 = (c, k2)"
    by fastforce
  from assms s c have r: "(r, k') = (if c \<noteq> 0 then (c, os_close K fd k2) else (fd, k2))"
    by (simp add: Connect_def)
  note facts = r connect_opened [OF c] connect_result [OF c] close_opened [of fd k2]
  show ?thesis
  proof (cases "fd < 0")
    case True
    with facts connect_bad [OF c] socket_failed [OF s] opened_pos [of fd k] show ?thesis by auto
  next
    case False
    with facts socket_new [OF s] show ?thesis by (auto split: if_splits)
  qed
qed

lemma CreateTcpSocket_opens:
  assumes "CreateTcpSocket K port ip reuse k = (r, k')"
  shows "if r < 0 then opened k' = opened k else r \<notin> opened k \<and> opened k' = insert r (opened k)"
proof -
  obtain fd k1 where s: "os_socket K k = (fd, k1)" by fastforce
  show ?thesis
  proof (cases "0 \<le> fd \<and> port \<noteq> 0")
    case False
    with assms s socket_new [OF s] socket_failed [OF s] show ?thesis by (auto simp: CreateTcpSocket_def)
  next
    case True
    define k2 where "k2 = (if reuse then snd (os_reuse K fd k1) else k1)"
    have k2: "opened k2 = opened k1"
      using reuse_opened [of fd k1] by (cases "os_reuse K fd k1") (auto simp: k2_def)
    obtain c k3 where c: "os_bind K fd (SetAddr K ip port) k2 = (c, k3)" by fastforce
    from assms s c True have "(r, k') = (if c \<noteq> 0 then (- 1, os_close K fd k3) else (fd, k3))"
      by (simp add: CreateTcpSocket_def k2_def [symmetric])
    with bind_opened [OF c] close_opened [of fd k3] socket_new [OF s] True k2 show ?thesis
      by (auto split: if_splits)
  qed
qed

end

end
