(* ===== verification/Framing.thy ===== *)
theory Framing
  imports Network Utils
begin

text \<open>
  \<open>Core/Msg.cpp\<close> and \<open>Core/Config.cpp\<close>: a message travels as its JSON text after a header of four
  bytes with the length of the text; the configuration is a JSON file.
\<close>

section \<open>The header\<close>

text \<open>The bytes of the \<open>unsigned int\<close> in \<open>struct Msghead\<close>, least significant first.\<close>

definition head_bytes :: "uint32 \<Rightarrow> string" where
  "head_bytes msgLen =
     (let n = unat msgLen
      in [char_of n, char_of (n div 256), char_of (n div 65536), char_of (n div 16777216)])"

text \<open>
  \<open>((Msghead * )str.c_str())->msgLen\<close>: \<open>c_str()\<close> is the bytes of the string and a zero byte, and the
  access reads four of them.
\<close>

definition head_word :: "string \<Rightarrow> uint32 option" where
  "head_word str =
     (let b = str @ [CHR 0x00]
      in if length b < 4 then None else Some (word_of_nat (horner_sum of_char 256 (take 4 b))))"

section \<open>\<open>Msg\<close>\<close>

text \<open>
  \<open>ReadOneMsg\<close> on an object that holds \<open>m\<close>: the result, and what it holds then. The length, an
  \<open>unsigned int\<close>, is taken as an \<open>int\<close>. \<open>Json2Message\<close> fills the cleared message; its result is
  ignored.
\<close>

definition ReadOneMsg :: "'k os \<Rightarrow> ('d, 'j) env \<Rightarrow> int \<Rightarrow> Msg \<Rightarrow> 'k \<Rightarrow> (int \<times> Msg, 'k) outcome" where
  "ReadOneMsg K E fd m k =
     (let (_, _, k) = os_poll K [fd] (3 * 60 * 1000) k
      in bind_out (ReadBuff K fd 4 k) (\<lambda>str k.
        if length str \<le> 0 then Ret (- 1, m) k
        else case head_word str of
               None \<Rightarrow> Abort Buffer_overread k
             | Some w \<Rightarrow>
                 (let msgLen = sint w
                  in bind_out (ReadBuff K fd msgLen k) (\<lambda>strMsg k.
                    case Json_parse E strMsg of
                      None \<Rightarrow> Abort Json_exception k
                    | Some json \<Rightarrow>
                        (let m = snd (Json2Message (pb_Msg E) json Msg_init)
                         in Ret (MsgType_number (msg_msg_type m), m) k)))))"

text \<open>The static \<open>ReadOneMsg(fd, msg)\<close>: the caller's message is set only when one was read.\<close>

definition ReadOneMsg_to :: "'k os \<Rightarrow> ('d, 'j) env \<Rightarrow> int \<Rightarrow> Msg \<Rightarrow> 'k \<Rightarrow> (int \<times> Msg, 'k) outcome" where
  "ReadOneMsg_to K E fd msg k =
     bind_out (ReadOneMsg K E fd Msg_init k) (\<lambda>(ret, msg1) k.
       if ret < 0 then Ret (ret, msg) k else Ret (ret, msg1) k)"

definition frame :: "string \<Rightarrow> string" where
  "frame outStr = head_bytes (word_of_nat (length outStr)) @ outStr"

definition SendMsg :: "'k os \<Rightarrow> ('d, 'j) env \<Rightarrow> int \<Rightarrow> Msg \<Rightarrow> 'k \<Rightarrow> (int \<times> 'k) option" where
  "SendMsg K E fd msg k =
     (let outStr = Msg2JsonStr E (pb_Msg E) msg
      in case SendBuff K fd (frame outStr) k of
           None \<Rightarrow> None
         | Some (ret, k) \<Rightarrow> if ret \<noteq> 0 then Some (ret, k) else Some (0, k))"

section \<open>\<open>Config\<close>\<close>

text \<open>\<open>getConfig\<close> on the bytes of the file, \<open>None\<close> if it cannot be opened.\<close>

definition getConfig :: "('d, 'j) env \<Rightarrow> string option \<Rightarrow> crash + Config" where
  "getConfig E file =
     (case ReadWholeFile file of
        Inl e \<Rightarrow> Inl e
      | Inr jsonStr \<Rightarrow>
          (case Json_parse E jsonStr of
             None \<Rightarrow> Inl Json_exception
           | Some json \<Rightarrow> Inr (snd (Json2Message (pb_Config E) json Config_init))))"

section \<open>Lemmas\<close>

lemma length_head_bytes [simp]: "length (head_bytes w) = 4"
  by (simp add: head_bytes_def Let_def)

lemma base_256:
  fixes n :: nat
  shows "n mod 256 + 256 * (n div 256 mod 256 + 256 * (n div 65536 mod 256
    + 256 * (n div 16777216))) = n"
proof -
  have "n div 65536 = n div 256 div 256" "n div 16777216 = n div 256 div 256 div 256"
    by (simp_all add: div_mult2_eq [symmetric])
  then show ?thesis by simp
qed

lemma head_bytes_not_empty [simp]: "head_bytes w \<noteq> []"
  by (simp add: head_bytes_def Let_def)

lemma head_bytes_value: "horner_sum of_char 256 (head_bytes w) = unat w"
proof -
  have "unat w < 2 ^ 32" using unsigned_less [of w, where 'a = nat] by simp
  then have "unat w div 16777216 < 256" by (simp add: div_less_iff_less_mult)
  with base_256 [of "unat w"] show ?thesis by (simp add: head_bytes_def Let_def)
qed

lemma head_word_bytes: "head_word (head_bytes w) = Some w"
  by (simp add: head_word_def head_bytes_value)

lemma sint_length: "n < 2 ^ 31 \<Longrightarrow> sint (word_of_nat n :: uint32) = int n"
  using sint_small [of "word_of_nat n"] by (simp add: uint_nat unat_of_nat)

context pb2json
begin

lemma getConfig_text:
  assumes "length (Msg2JsonStr E (pb_Config E) cfg) < 1000"
    and "CHR 0x00 \<notin> set (Msg2JsonStr E (pb_Config E) cfg)"
  shows "getConfig E (Some (Msg2JsonStr E (pb_Config E) cfg)) = Inr cfg"
  using ReadWholeFile_short [OF assms] parse_dump codec_Config
  by (simp add: getConfig_def Msg2JsonStr_def lawful_codec_def)

end

text \<open>Both ends of a connection that carries messages.\<close>

locale wire = progressing K arriving sent_on + pb2json E
  for K :: "'k os" and arriving and sent_on and E :: "('d, 'j) env"
begin

text \<open>The bytes a message travels as, and the bound under which the receiver takes them.\<close>

lemma ReadOneMsg_frame:
  assumes "arriving k fd = frame (Msg2JsonStr E (pb_Msg E) m) @ rest"
    and "length (Msg2JsonStr E (pb_Msg E) m) < 2 ^ 31 - 1"
  shows "\<exists>k'. ReadOneMsg K E fd m0 k = Ret (MsgType_number (msg_msg_type m), m) k'
    \<and> arriving k' fd = rest \<and> (\<forall>g. g \<noteq> fd \<longrightarrow> arriving k' g = arriving k g) \<and> sent_on k' = sent_on k"
proof -
  let ?s = "Msg2JsonStr E (pb_Msg E) m"
  let ?h = "head_bytes (word_of_nat (length ?s))"
  obtain i ev k1 where poll: "os_poll K [fd] (3 * 60 * 1000) k = (i, ev, k1)" by (metis prod_cases3)
  note same = poll_frame [OF poll]
  have arr: "arriving k1 fd = ?h @ ?s @ rest" using assms(1) same by (simp add: frame_def)
  have l: "nat 4 = length ?h" by simp
  obtain k2 where k2: "ReadBuff K fd 4 k1 = Ret ?h k2" "arriving k2 fd = ?s @ rest"
    "\<forall>g. g \<noteq> fd \<longrightarrow> arriving k2 g = arriving k1 g" "sent_on k2 = sent_on k1"
    using ReadBuff_takes [of 4 fd k1] unfolding arr l by auto
  have len: "sint (word_of_nat (length ?s) :: uint32) = int (length ?s)"
    using assms(2) by (intro sint_length) simp
  obtain k3 where k3: "ReadBuff K fd (int (length ?s)) k2 = Ret ?s k3" "arriving k3 fd = rest"
    "\<forall>g. g \<noteq> fd \<longrightarrow> arriving k3 g = arriving k2 g" "sent_on k3 = sent_on k2"
    using ReadBuff_takes [of "int (length ?s)" fd k2] assms(2) unfolding k2(2) by auto
  have "Json_parse E ?s = Some (Message2Json (pb_Msg E) m)" by (simp add: Msg2JsonStr_def parse_dump)
  moreover have "Json2Message (pb_Msg E) (Message2Json (pb_Msg E) m) Msg_init = (True, m)"
    using codec_Msg by (simp add: lawful_codec_def)
  ultimately have "ReadOneMsg K E fd m0 k = Ret (MsgType_number (msg_msg_type m), m) k3"
    using k2(1) k3(1) unfolding ReadOneMsg_def poll by (simp add: head_word_bytes len)
  with k2 k3 same show ?thesis by auto
qed

lemma SendMsg_returns: "\<exists>r k'. SendMsg K E fd m k = Some (r, k')"
  using SendBuff_returns by (fastforce simp: SendMsg_def Let_def split: option.splits)

lemma SendMsg_sends:
  assumes "SendMsg K E fd m k = Some (r, k')"
  shows "arriving k' = arriving k \<and> (\<forall>g. g \<noteq> fd \<longrightarrow> sent_on k' g = sent_on k g)
    \<and> (if r = 0 then sent_on k' fd = sent_on k fd @ frame (Msg2JsonStr E (pb_Msg E) m)
       else r = - 1 \<and> (\<exists>s. strict_prefix s (frame (Msg2JsonStr E (pb_Msg E) m))
         \<and> sent_on k' fd = sent_on k fd @ s))"
  using assms SendBuff_sends [of fd "frame (Msg2JsonStr E (pb_Msg E) m)" k "(r, k')"]
  by (auto simp: SendMsg_def Let_def split: option.splits prod.splits if_splits)

end

end
