(* ===== verification/Mem_Os.thy ===== *)
theory Mem_Os
  imports Framing Mem_Env "HOL-Library.Multiset"
begin

text \<open>
  A concrete operating system: each descriptor has a script of the pieces its reads give and of how
  much its writes take. It shows that what the development assumes of the system can hold, and the
  witnesses of the properties run on it.
\<close>

section \<open>The system\<close>

text \<open>
  An empty piece is a read that fails. \<open>None\<close> in \<open>quotas\<close> is a write that fails, \<open>Some q\<close> one that
  takes up to \<open>q + 1\<close> bytes. \<open>listeners\<close> are the addresses that accept a connection, with what the
  connection then delivers. \<open>polls\<close> are the results of the next calls of \<open>co_poll\<close>; after them every
  descriptor is ready.
\<close>

record net =
  chunks :: "int \<Rightarrow> string list"
  written :: "int \<Rightarrow> string"
  quotas :: "int \<Rightarrow> nat option list"
  next_fd :: nat
  closed :: "int list"
  busy :: "sockaddr_in list"
  listeners :: "(sockaddr_in \<times> string list) list"
  accepts :: "int list"
  polls :: "(int \<times> bool list) list"
  ticks :: nat

definition net_init :: net where
  [init]: "net_init = \<lparr>chunks = (\<lambda>_. []), written = (\<lambda>_. []), quotas = (\<lambda>_. []), next_fd = 0,
    closed = [], busy = [], listeners = [], accepts = [], polls = [], ticks = 0\<rparr>"

definition net_socket :: "net \<Rightarrow> int \<times> net" where
  "net_socket k = (let fd = 3 + int (next_fd k)
     in (fd, k\<lparr>next_fd := Suc (next_fd k), closed := filter (\<lambda>g. g \<noteq> fd) (closed k)\<rparr>))"

definition net_bind :: "int \<Rightarrow> sockaddr_in \<Rightarrow> net \<Rightarrow> int \<times> net" where
  "net_bind fd a k = (if a \<in> set (busy k) then (- 1, k) else (0, k\<lparr>busy := a # busy k\<rparr>))"

definition net_connect :: "int \<Rightarrow> sockaddr_in \<Rightarrow> net \<Rightarrow> int \<times> net" where
  "net_connect fd a k =
     (case map_of (listeners k) a of
        None \<Rightarrow> (- 1, k)
      | Some cs \<Rightarrow> if fd < 0 then (- 1, k) else (0, k\<lparr>chunks := (chunks k)(fd := cs)\<rparr>))"

definition net_accept :: "int \<Rightarrow> net \<Rightarrow> int \<times> net" where
  "net_accept fd k =
     (case accepts k of [] \<Rightarrow> (- 1, k) | r # rs \<Rightarrow> (r, k\<lparr>accepts := rs\<rparr>))"

definition net_read :: "int \<Rightarrow> nat \<Rightarrow> net \<Rightarrow> string option \<times> net" where
  "net_read fd n k =
     (if n = 0 then (Some [], k)
      else case chunks k fd of
             [] \<Rightarrow> (Some [], k)
           | c # cs \<Rightarrow>
               if c = [] then (None, k\<lparr>chunks := (chunks k)(fd := cs)\<rparr>)
               else (Some (take n c),
                 k\<lparr>chunks := (chunks k)(fd := if length c \<le> n then cs else drop n c # cs)\<rparr>))"

definition net_write :: "int \<Rightarrow> string \<Rightarrow> net \<Rightarrow> int \<times> net" where
  "net_write fd bs k =
     (case quotas k fd of
        [] \<Rightarrow> (int (length bs), k\<lparr>written := (written k)(fd := written k fd @ bs)\<rparr>)
      | q # qs \<Rightarrow>
          (let k = k\<lparr>quotas := (quotas k)(fd := qs)\<rparr>
           in case q of
                None \<Rightarrow> (- 1, k)
              | Some m \<Rightarrow> (int (min (Suc m) (length bs)),
                  k\<lparr>written := (written k)(fd := written k fd @ take (Suc m) bs)\<rparr>)))"

definition net_poll :: "int list \<Rightarrow> nat \<Rightarrow> net \<Rightarrow> int \<times> bool list \<times> net" where
  "net_poll fds ms k =
     (case polls k of
        [] \<Rightarrow> (int (length fds), replicate (length fds) True, k)
      | (r, ev) # ps \<Rightarrow> (r, ev, k\<lparr>polls := ps\<rparr>))"

definition mem_os :: "net os" where
  "mem_os = \<lparr>os_socket = net_socket, os_reuse = (\<lambda>_ k. (0, k)), os_bind = net_bind,
     os_connect = net_connect, os_listen = (\<lambda>_ k. (0, k)), os_accept = net_accept,
     os_close = (\<lambda>fd k. k\<lparr>closed := fd # closed k\<rparr>), os_getfl = (\<lambda>_ k. (2, k)),
     os_setfl = (\<lambda>_ _ k. (0, k)), os_read = net_read, os_write = net_write, os_poll = net_poll,
     os_time = (\<lambda>k. ((0, ticks k), k\<lparr>ticks := Suc (ticks k)\<rparr>)),
     inet_addr = (\<lambda>ip. of_nat (length ip))\<rparr>"

definition net_arriving :: "net \<Rightarrow> int \<Rightarrow> string" where
  "net_arriving k fd = concat (takeWhile (\<lambda>c. c \<noteq> []) (chunks k fd))"

definition net_opened :: "net \<Rightarrow> int set" where
  "net_opened k = {fd. 3 \<le> fd \<and> fd < 3 + int (next_fd k) \<and> fd \<notin> set (closed k)}"

section \<open>It satisfies the laws\<close>

lemma take_min_length [simp]: "take (min n (length bs)) bs = take n bs"
  by (simp add: min_def)

lemma min_Suc_length [simp]: "bs \<noteq> [] \<Longrightarrow> min (Suc n) (length bs) \<noteq> 0"
  by (cases bs) simp_all

interpretation memory: progressing mem_os net_arriving written
proof
  fix fd n k b k'
  assume "os_read mem_os fd n k = (Some b, k')"
  then show "length b \<le> n"
    by (auto simp: mem_os_def net_read_def split: if_splits list.splits)
next
  fix fd n k b k'
  assume "os_read mem_os fd n k = (Some b, k')" "b \<noteq> []"
  then show "net_arriving k fd = b @ net_arriving k' fd"
    by (auto simp: mem_os_def net_read_def net_arriving_def split: if_splits list.splits)
next
  fix fd n k r k'
  assume "os_read mem_os fd n k = (r, k')" "0 < n" "r = None \<or> r = Some []"
  then show "net_arriving k fd = []"
    by (auto simp: mem_os_def net_read_def net_arriving_def split: if_splits list.splits)
next
  fix fd n k r k' g
  assume "os_read mem_os fd n k = (r, k')" "g \<noteq> fd"
  then show "net_arriving k' g = net_arriving k g"
    by (auto simp: mem_os_def net_read_def net_arriving_def split: if_splits list.splits)
next
  fix fd n k r k'
  assume "os_read mem_os fd n k = (r, k')"
  then show "written k' = written k"
    by (auto simp: mem_os_def net_read_def split: if_splits list.splits)
next
  fix fd bs k w k'
  assume "os_write mem_os fd bs k = (w, k')" "bs \<noteq> []"
  then show "w \<noteq> 0"
    by (auto simp: mem_os_def net_write_def Let_def split: list.splits option.splits)
qed (auto simp: mem_os_def net_write_def net_poll_def net_arriving_def Let_def
  split: list.splits option.splits)

interpretation memory: wire mem_os net_arriving written mem_env ..

interpretation memory: descriptors mem_os net_opened
  by unfold_locales (auto simp: mem_os_def net_socket_def net_bind_def net_connect_def net_opened_def
    Let_def split: if_splits option.splits)

interpretation memory: processes mem_os net_arriving written net_opened
proof
  fix fd n k r k'
  assume "os_read mem_os fd n k = (r, k')"
  then show "net_opened k' = net_opened k"
    by (auto simp: mem_os_def net_read_def net_opened_def split: if_splits list.splits)
next
  fix fd bs k w k'
  assume "os_write mem_os fd bs k = (w, k')"
  then show "net_opened k' = net_opened k"
    by (auto simp: mem_os_def net_write_def net_opened_def Let_def split: list.splits option.splits)
qed (auto simp: mem_os_def net_socket_def net_connect_def net_poll_def net_opened_def Let_def
  split: list.splits option.splits if_splits)

end
