(* ===== verification/Wire.thy ===== *)
theory Wire
  imports Mem_Os
begin

text \<open>
  The properties of the transport: a message goes through a connection whole or not at all, whatever
  pieces the bytes move in; sending always ends; no descriptor is leaked; and what the receiver does
  with a header that no sender of the program writes.
\<close>

section \<open>Headers that are not honest\<close>

context streams
begin

lemma read_head:
  assumes "arriving k fd = h @ rest" and "length h = 4 \<or> rest = [] \<and> length h < 4"
  obtains k' where "ReadBuff K fd 4 (snd (snd (os_poll K [fd] (3 * 60 * 1000) k))) = Ret h k'"
proof -
  obtain i ev k1 where poll: "os_poll K [fd] (3 * 60 * 1000) k = (i, ev, k1)" by (metis prod_cases3)
  have "take (nat 4) (arriving k1 fd) = h" using assms poll_frame [OF poll] by auto
  moreover have "snd (snd (os_poll K [fd] (3 * 60 * 1000) k)) = k1" by (simp only: poll snd_conv)
  ultimately show ?thesis using ReadBuff_takes [of 4 fd k1] that by auto
qed

lemma ReadOneMsg_head:
  assumes "ReadBuff K fd 4 (snd (snd (os_poll K [fd] (3 * 60 * 1000) k))) = Ret h k'" and "h \<noteq> []"
  shows "ReadOneMsg K E fd m k = (case head_word h of
      None \<Rightarrow> Abort Buffer_overread k'
    | Some w \<Rightarrow> bind_out (ReadBuff K fd (sint w) k') (\<lambda>strMsg k. case Json_parse E strMsg of
        None \<Rightarrow> Abort Json_exception k
      | Some json \<Rightarrow> (let m = snd (Json2Message (pb_Msg E) json Msg_init)
          in Ret (MsgType_number (msg_msg_type m), m) k)))"
  using assms by (cases "os_poll K [fd] (3 * 60 * 1000) k"; cases "head_word h")
    (simp_all add: ReadOneMsg_def Let_def)

end

lemma sint_negative:
  fixes w :: uint32
  assumes "2 ^ 31 \<le> uint w" and "uint w < 2 ^ 32 - 1"
  shows "sint w < - 1"
proof -
  have "(uint w + 2 ^ 31) mod 2 ^ 32 = (uint w - 2 ^ 31) mod (2 ^ 32 :: int)"
    using minus_mod_self2 [of "uint w + 2 ^ 31" "2 ^ 32 :: int"] by simp
  also have "\<dots> = uint w - 2 ^ 31" using assms by (intro mod_pos_pos_trivial) simp_all
  finally have "sint w = uint w - 2 ^ 32"
    by (simp add: sint_uint signed_take_bit_eq_take_bit_shift take_bit_eq_mod)
  with assms show ?thesis by simp
qed

section \<open>A connection of the concrete system\<close>

definition demo_text :: string where
  "demo_text = Msg2JsonStr mem_env (pb_Msg mem_env) Msg_init"

lemma demo_text_short: "length demo_text < 100"
  unfolding demo_text_def by code_simp

lemma frame_not_empty [simp]: "frame s \<noteq> []"
  by (simp add: frame_def)

lemma demo_send:
  "SendMsg mem_os mem_env fd m net_init
    = Some (0, net_init\<lparr>written := (\<lambda>_. [])(fd := frame (Msg2JsonStr mem_env (pb_Msg mem_env) m))\<rparr>)"
  by (simp add: SendMsg_def SendBuff.simps mem_os_def net_write_def net_init_def)

text \<open>A state in which \<open>fd\<close> delivers these bytes, the first three of them on their own.\<close>

definition demo_arriving :: "string \<Rightarrow> net" where
  "demo_arriving s = net_init\<lparr>chunks := (\<lambda>_. if length s \<le> 3 then [s] else [take 3 s, drop 3 s])\<rparr>"

lemma arriving_demo: "s \<noteq> [] \<Longrightarrow> net_arriving (demo_arriving s) fd = s"
  by (simp add: net_arriving_def demo_arriving_def)

section \<open>Properties\<close>

text \<open>
  C14: transport. A message that is sent without an error is received as it was, in one piece and
  before anything sent after it, however the system cuts the bytes into writes and reads.
\<close>

theorem message_transport:
  assumes "wire K arriving sent_on E"
    and "length (Msg2JsonStr E (pb_Msg E) m) < 2 ^ 31 - 1"
    and "SendMsg K E fd m k = Some (0, k1)"
    and "sent_on k1 fd = sent_on k fd @ bytes" and "arriving k2 fd2 = bytes @ rest"
  shows "\<exists>k3. ReadOneMsg K E fd2 m0 k2 = Ret (MsgType_number (msg_msg_type m), m) k3
    \<and> arriving k3 fd2 = rest"
proof -
  have "bytes = frame (Msg2JsonStr E (pb_Msg E) m)"
    using wire.SendMsg_sends [OF assms(1,3)] assms(4) by simp
  with wire.ReadOneMsg_frame [OF assms(1) _ assms(2)] assms(5) show ?thesis by blast
qed

theorem message_transport_witness:
  "\<exists>k1 k3. SendMsg mem_os mem_env 5 Msg_init net_init = Some (0, k1)
    \<and> ReadOneMsg mem_os mem_env 7 (Msg_init\<lparr>msg_group_id := ''g''\<rparr>) (demo_arriving (written k1 5 @ ''tail''))
        = Ret (1, Msg_init) k3
    \<and> net_arriving k3 7 = ''tail''"
proof -
  define k1 where "k1 = net_init\<lparr>written := (\<lambda>_. [])(5 := frame demo_text)\<rparr>"
  have send: "SendMsg mem_os mem_env 5 Msg_init net_init = Some (0, k1)"
    by (simp add: demo_send k1_def demo_text_def)
  have short: "length (Msg2JsonStr mem_env (pb_Msg mem_env) Msg_init) < 2 ^ 31 - 1"
    using demo_text_short by (simp add: demo_text_def)
  have w: "written k1 5 = frame demo_text" by (simp add: k1_def)
  have bytes: "written k1 5 = written net_init 5 @ frame demo_text"
    by (simp add: k1_def net_init_def)
  have arr: "net_arriving (demo_arriving (written k1 5 @ ''tail'')) 7 = frame demo_text @ ''tail''"
    by (simp add: arriving_demo w)
  from message_transport [OF memory.wire_axioms short send bytes arr] send
  show ?thesis by (force simp: Msg_init_def)
qed

text \<open>
  C30: sending ends. Under a system whose writes make progress \<open>SendMsg\<close> returns: 0 after the whole
  frame, or -1 after a proper part of it; nothing else is written and nothing is read.
\<close>

theorem SendMsg_total:
  assumes "wire K arriving sent_on E"
  shows "\<exists>r k'. SendMsg K E fd m k = Some (r, k') \<and> arriving k' = arriving k
    \<and> (\<forall>g. g \<noteq> fd \<longrightarrow> sent_on k' g = sent_on k g)
    \<and> (if r = 0 then sent_on k' fd = sent_on k fd @ frame (Msg2JsonStr E (pb_Msg E) m)
       else r = - 1 \<and> (\<exists>s. strict_prefix s (frame (Msg2JsonStr E (pb_Msg E) m))
         \<and> sent_on k' fd = sent_on k fd @ s))"
proof -
  obtain r k' where "SendMsg K E fd m k = Some (r, k')"
    using wire.SendMsg_returns [OF assms] by blast
  with wire.SendMsg_sends [OF assms this] show ?thesis by blast
qed

theorem SendMsg_total_witness:
  "\<exists>r k'. SendMsg mem_os mem_env 5 Msg_init (net_init\<lparr>quotas := (\<lambda>_. [Some 2, None])\<rparr>) = Some (r, k')
    \<and> (r = 0 \<or> r = - 1)"
  using SendMsg_total [OF memory.wire_axioms, of 5 Msg_init "net_init\<lparr>quotas := (\<lambda>_. [Some 2, None])\<rparr>"]
  by (metis (no_types))

text \<open>
  C40: a length the receiver cannot take. After a header whose length has its highest bit set,
  other than the greatest number, \<open>ReadOneMsg\<close> allocates a negative size: the process dies of the
  exception, whatever follows the header.
\<close>

theorem negative_length_kills:
  assumes "streams K arriving sent_on" and "arriving k fd = head_bytes w @ rest"
    and "2 ^ 31 \<le> uint w" and "uint w < 2 ^ 32 - 1"
  shows "\<exists>k'. ReadOneMsg K E fd m k = Abort Bad_array_new_length k'"
proof -
  obtain k' where head: "ReadBuff K fd 4 (snd (snd (os_poll K [fd] (3 * 60 * 1000) k)))
      = Ret (head_bytes w) k'"
    by (rule streams.read_head [OF assms(1,2)]) simp_all
  have "ReadBuff K fd (sint w) k' = Abort Bad_array_new_length k'"
    using sint_negative [OF assms(3,4)] by (simp add: ReadBuff_def)
  then show ?thesis
    by (simp add: streams.ReadOneMsg_head [OF assms(1) head] head_word_bytes)
qed

theorem negative_length_kills_witness:
  "\<exists>k'. ReadOneMsg mem_os mem_env 7 Msg_init (demo_arriving (head_bytes 0x80000000 @ ''x''))
    = Abort Bad_array_new_length k'"
  by (rule negative_length_kills [OF memory.streams_axioms arriving_demo]) simp_all

text \<open>
  A connection that ends inside a header. After one or two bytes and the end, \<open>ReadOneMsg\<close>
  reads past the end of the string that holds them.
\<close>

theorem short_header_overread:
  assumes "streams K arriving sent_on" and "arriving k fd = h" and "length h \<in> {1, 2}"
  shows "\<exists>k'. ReadOneMsg K E fd m k = Abort Buffer_overread k'"
proof -
  have "arriving k fd = h @ []" using assms(2) by simp
  then obtain k' where head: "ReadBuff K fd 4 (snd (snd (os_poll K [fd] (3 * 60 * 1000) k))) = Ret h k'"
    by (rule streams.read_head [OF assms(1)]) (use assms(3) in auto)
  moreover have "head_word h = None" using assms(3) by (auto simp: head_word_def Let_def)
  moreover have "h \<noteq> []" using assms(3) by auto
  ultimately show ?thesis by (simp add: streams.ReadOneMsg_head [OF assms(1) head])
qed

theorem short_header_overread_witness:
  "\<exists>k'. ReadOneMsg mem_os mem_env 7 Msg_init (demo_arriving ''ab'') = Abort Buffer_overread k'"
  by (rule short_header_overread [OF memory.streams_axioms arriving_demo]) simp_all

text \<open>
  Descriptors. \<open>Connect\<close> and \<open>CreateTcpSocket\<close> return one new open descriptor, or a negative
  number and leave none behind.
\<close>

theorem sockets_not_leaked:
  assumes "descriptors K opened"
    and "Connect K host port k = (r, k') \<or> CreateTcpSocket K shPort pszIP bReuse k = (r, k')"
  shows "if r < 0 then opened k' = opened k else r \<notin> opened k \<and> opened k' = insert r (opened k)"
  using assms(2) descriptors.Connect_opens [OF assms(1)] descriptors.CreateTcpSocket_opens [OF assms(1)]
  by blast

theorem sockets_not_leaked_witness:
  "\<exists>k'. Connect mem_os ''10.0.0.1'' 9000 net_init = (- 1, k') \<and> net_opened k' = net_opened net_init"
proof -
  obtain k' where run: "Connect mem_os ''10.0.0.1'' 9000 net_init = (- 1, k')"
    by (simp add: Connect_def mem_os_def net_socket_def net_connect_def net_init_def Let_def)
  with sockets_not_leaked [OF memory.descriptors_axioms disjI1 [OF run]] show ?thesis by simp
qed

end
