(* ===== verification/Naming.thy ===== *)
theory Naming
  imports Wire
begin

text \<open>
  The properties of the helpers that name and place things: timestamps, the hash of a key, the keys
  of the store and the configuration file.
\<close>

text \<open>
  C33: timestamps are ordered. While the seconds have ten digits, from 2001 to 2286, the strings of
  two timestamps compare as the times they were taken at.
\<close>

theorem GetTS_ordered:
  assumes "u < 1000000" and "u' < 1000000"
    and "10 ^ 9 \<le> s" and "s < 10 ^ 10" and "10 ^ 9 \<le> s'" and "s' < 10 ^ 10"
  shows "GetTS s u < GetTS s' u' \<longleftrightarrow> s < s' \<or> s = s' \<and> u < u'"
proof -
  have "length (decimal (t * 1000000 * 10 + v)) = Suc 16"
    if "v < 1000000" "10 ^ 9 \<le> t" "t < 10 ^ 10" for t v :: nat
    using that by (subst length_decimal) simp
  then have "length (decimal (s * 1000000 * 10 + u)) = length (decimal (s' * 1000000 * 10 + u'))"
    using assms by simp
  from decimal_order(1) [OF this] show ?thesis
    unfolding GetTS_def append_less_append using assms(1,2) by linarith
qed

theorem GetTS_ordered_witness: "GetTS 1575000000 999999 < GetTS 1575000001 0"
  using GetTS_ordered [of 999999 0 1575000000 1575000001] by simp

text \<open>
  The hash places a key. For a table of a positive size it is the sum of the key's bytes, as
  signed characters and modulo 2^32, modulo the size, so it is an index of the table; keys with the
  same bytes in another order have the same one.
\<close>

theorem GetHash_places:
  assumes "0 < n" and "n < 2 ^ 31"
  shows "GetHash key n = Inr ((\<Sum>c\<in>#mset key. char_int c) mod 2 ^ 32 mod n)
    \<and> (\<Sum>c\<in>#mset key. char_int c) mod 2 ^ 32 mod n \<in> {0..<n}"
proof -
  have "(\<Sum>c\<in>#mset key. char_int c) = (\<Sum>c\<leftarrow>key. char_int c)"
    by (metis mset_map sum_mset_sum_list)
  with GetHash_eq [OF assms, of key] pos_mod_bound [OF assms(1)] pos_mod_sign [OF assms(1)]
  show ?thesis by simp
qed

theorem GetHash_places_witness: "GetHash ''ab'' 3 = Inr 0 \<and> GetHash ''ba'' 3 = Inr 0"
  using GetHash_places [of 3 "''ab''"] GetHash_places [of 3 "''ba''"] by (simp add: char_int_def)

text \<open>
  C34: the keys of the store. The key of an older version made with a timestamp of \<open>GetTS\<close> is the key
  of only that user key and timestamp, and is never the key of a head, a lock or a transaction.
\<close>

theorem version_keys_unique:
  "(makeData a (GetTS s u) = makeData b (GetTS s' u') \<longleftrightarrow> a = b \<and> GetTS s u = GetTS s' u')
    \<and> makeData a (GetTS s u) \<noteq> makeDataEntry b \<and> makeData a (GetTS s u) \<noteq> makeLock b
    \<and> makeData a (GetTS s u) \<noteq> makeTrans b"
  by (simp add: makeData_inject makeData_not_Entry plain_ts_GetTS)

text \<open>
  C39: the configuration. A file shorter than 1000 bytes with the JSON text of a configuration gives
  that configuration.
\<close>

theorem getConfig_reads:
  assumes "pb2json E" and "length (Msg2JsonStr E (pb_Config E) cfg) < 1000"
    and "CHR 0x00 \<notin> set (Msg2JsonStr E (pb_Config E) cfg)"
  shows "getConfig E (Some (Msg2JsonStr E (pb_Config E) cfg)) = Inr cfg"
  by (rule pb2json.getConfig_text [OF assms])

theorem getConfig_reads_witness:
  "getConfig mem_env (Some (Msg2JsonStr mem_env (pb_Config mem_env) Config_init)) = Inr Config_init"
proof (rule getConfig_reads [OF mem.pb2json_axioms])
  show "length (Msg2JsonStr mem_env (pb_Config mem_env) Config_init) < 1000"
    and "CHR 0x00 \<notin> set (Msg2JsonStr mem_env (pb_Config mem_env) Config_init)"
    by code_simp+
qed

text \<open>
  A longer configuration. When the first 1000 bytes of the file hold no zero byte the first turn
  of \<open>ReadWholeFile\<close> already reads past its buffer, so no such file is ever read.
\<close>

theorem long_config_overreads:
  assumes "1000 \<le> length s" and "CHR 0x00 \<notin> set (take 1000 s)"
  shows "getConfig E (Some s) = Inl Buffer_overread"
  using ReadWholeFile_long [OF assms] by (simp add: getConfig_def)

theorem long_config_overreads_witness:
  "getConfig mem_env (Some (replicate 1000 (CHR '' ''))) = Inl Buffer_overread"
  by (rule long_config_overreads) simp_all

end
