(* ===== verification/LogicServ.thy ===== *)
theory LogicServ
  imports Mem_Os
begin

text \<open>
  \<open>logicServ.cpp\<close>: the coordinator. A connection of a client is one coroutine that shares nothing with
  the others, so it is a function on what it sees of the system and its own variables, with the
  suspensions inside the system calls. \<open>None\<close> is a coroutine that waits for ever.
\<close>

section \<open>State\<close>

record StorageCl =
  sc_fd :: int
  sc_stat :: int
  sc_host :: Host

definition StorageCl_init :: StorageCl where
  [init]: "StorageCl_init = \<lparr>sc_fd = - 1, sc_stat = 0, sc_host = Host_init\<rparr>"

text \<open>
  The variables of \<open>readwrite_routine\<close> that live from one request to the next, with the system.
  \<open>storageCl\<close> is \<open>None\<close> once the array it points to has been deleted.
\<close>

record 'k logic =
  lg_os :: 'k
  lg_begin_ts :: string
  lg_start_ts :: string
  lg_storageCl :: "StorageCl list option"
  lg_kill_trans :: bool

text \<open>The array, empty where there is none.\<close>

definition lg_cls :: "'k logic \<Rightarrow> StorageCl list" where
  "lg_cls s = (case lg_storageCl s of None \<Rightarrow> [] | Some cls \<Rightarrow> cls)"

text \<open>Running an operation of the system inside the coroutine.\<close>

definition in_os :: "('a, 'k) outcome \<Rightarrow> 'k logic \<Rightarrow> ('a, 'k logic) outcome option" where
  "in_os m s = Some (map_state (\<lambda>k. s\<lparr>lg_os := k\<rparr>) m)"

definition send_to :: "'k os \<Rightarrow> ('d, 'j) env \<Rightarrow> int \<Rightarrow> Msg \<Rightarrow> 'k logic
    \<Rightarrow> (int, 'k logic) outcome option" where
  "send_to K E fd m s =
     map_option (\<lambda>(ret, k). Ret ret (s\<lparr>lg_os := k\<rparr>)) (SendMsg K E fd m (lg_os s))"

definition clock :: "'k os \<Rightarrow> 'k logic \<Rightarrow> string \<times> 'k logic" where
  "clock K s = (let ((sec, usec), k) = os_time K (lg_os s) in (GetTS sec usec, s\<lparr>lg_os := k\<rparr>))"

section \<open>\<open>StorageCl\<close>\<close>

definition rpc_request_msg :: "RpcReq \<Rightarrow> Msg" where
  "rpc_request_msg rq =
     Msg_init\<lparr>msg_msg_type := MSG_Type_Rpc_Request, msg_content := Rpc_request rq\<rparr>"

definition begin_msg :: "string \<Rightarrow> Msg" where
  "begin_msg begin_ts = rpc_request_msg
     (RpcReq_init\<lparr>rq_request_type := Req_Type_Begin, rq_begin_ts := begin_ts\<rparr>)"

text \<open>What is made of the answer to it, and the exchange; the element is connected.\<close>

definition begin_answer :: "int \<times> Msg \<Rightarrow> StorageCl \<Rightarrow> int \<times> StorageCl" where
  "begin_answer r cl =
     (let (ret, resMsg) = r
      in if ret < 0 then (ret, cl)
         else if ret \<noteq> MsgType_number MSG_Type_Rpc_Response then (ret, cl)
         else if rs_result (mutable_rpc_response resMsg) \<noteq> 0 then (- 11, cl)
         else (sc_fd cl, cl\<lparr>sc_stat := 1\<rparr>))"

definition begin_on :: "'k os \<Rightarrow> ('d, 'j) env \<Rightarrow> string \<Rightarrow> StorageCl \<Rightarrow> 'k
    \<Rightarrow> (int \<times> StorageCl, 'k) outcome option" where
  "begin_on K E begin_ts cl k =
     (case SendMsg K E (sc_fd cl) (begin_msg begin_ts) k of
        None \<Rightarrow> None
      | Some (ret, k) \<Rightarrow>
          if ret \<noteq> 0 then Some (Ret (ret, cl) k)
          else Some (bind_out (ReadOneMsg K E (sc_fd cl) Msg_init k)
            (\<lambda>r k. Ret (begin_answer r cl) k)))"

text \<open>The port, an unsigned number, is passed as an \<open>int\<close>.\<close>

definition getFd :: "'k os \<Rightarrow> ('d, 'j) env \<Rightarrow> string \<Rightarrow> StorageCl \<Rightarrow> 'k
    \<Rightarrow> (int \<times> StorageCl, 'k) outcome option" where
  "getFd K E begin_ts cl k =
     (let (cl, k) =
        (if sc_fd cl < 0
         then let (fd, k) = Connect K (host_name (sc_host cl)) (sint (host_port (sc_host cl))) k
              in (cl\<lparr>sc_fd := fd\<rparr>, k)
         else (cl, k))
      in if sc_fd cl < 0 then Some (Ret (sc_fd cl, cl) k)
         else if sc_stat cl = 0 then begin_on K E begin_ts cl k
         else Some (Ret (sc_fd cl, cl) k))"

text \<open>The destructors of the elements of an array, the last one first.\<close>

definition delete_array :: "'k os \<Rightarrow> StorageCl list \<Rightarrow> 'k \<Rightarrow> 'k" where
  "delete_array K cls k = foldr (\<lambda>cl k. if sc_fd cl > 0 then os_close K (sc_fd cl) k else k) cls k"

section \<open>Events on the connections to the storage servers\<close>

text \<open>
  The loop over the servers after \<open>co_poll\<close>: a connection that is not in use is closed, an event on
  one in use ends the transaction.
\<close>

definition unused_closed :: "StorageCl \<Rightarrow> StorageCl" where
  "unused_closed cl = cl\<lparr>sc_fd := - 1, sc_stat := 0\<rparr>"

definition has_event :: "StorageCl \<Rightarrow> bool list \<Rightarrow> bool" where
  "has_event cl ev \<longleftrightarrow> sc_fd cl > 0 \<and> ev \<noteq> [] \<and> hd ev"

fun check_storage :: "'k os \<Rightarrow> StorageCl list \<Rightarrow> bool list \<Rightarrow> 'k \<Rightarrow> bool \<times> StorageCl list \<times> 'k" where
  "check_storage K [] ev k = (False, [], k)"
| "check_storage K (cl # cls) ev k =
     (if has_event cl ev then
        if sc_stat cl = 0 then
          (let (kill, cls, k) = check_storage K cls (tl ev) (os_close K (sc_fd cl) k)
           in (kill, unused_closed cl # cls, k))
        else (True, cl # cls, k)
      else
        (let (kill, cls, k) = check_storage K cls (tl ev) k
         in (kill, cl # cls, k)))"

text \<open>
  The same loop while the answers to the requests to prepare are awaited: \<open>False\<close> where reading one
  fails. An answer that reports an error is only logged.
\<close>

fun collect_prepared :: "'k os \<Rightarrow> ('d, 'j) env \<Rightarrow> StorageCl list \<Rightarrow> bool list \<Rightarrow> 'k
    \<Rightarrow> (bool \<times> StorageCl list, 'k) outcome" where
  "collect_prepared K E [] ev k = Ret (True, []) k"
| "collect_prepared K E (cl # cls) ev k =
     (if has_event cl ev then
        if sc_stat cl = 0 then
          bind_out (collect_prepared K E cls (tl ev) (os_close K (sc_fd cl) k))
            (\<lambda>(good, cls) k. Ret (good, unused_closed cl # cls) k)
        else
          bind_out (ReadOneMsg_to K E (sc_fd cl) Msg_init k) (\<lambda>(ret, resMsg) k.
            if ret < 0 then Ret (False, cl # cls) k
            else bind_out (collect_prepared K E cls (tl ev) k)
              (\<lambda>(good, cls) k. Ret (good, cl\<lparr>sc_stat := 0\<rparr> # cls) k))
      else
        bind_out (collect_prepared K E cls (tl ev) k) (\<lambda>(good, cls) k. Ret (good, cl # cls) k))"

section \<open>The requests\<close>

text \<open>What a request gives to answer the client with: the response, \<open>retCode\<close> and \<open>errMsg\<close>.\<close>

type_synonym 'k answered = "(CliRes \<times> int \<times> string, 'k logic) outcome"

definition give :: "CliRes \<Rightarrow> int \<Rightarrow> string \<Rightarrow> 'k logic \<Rightarrow> 'k answered option" where
  "give cliRes retCode errMsg s = Some (Ret (cliRes, retCode, errMsg) s)"

text \<open>The error answers after which the connection is closed.\<close>

definition give_killed :: "CliRes \<Rightarrow> string \<Rightarrow> 'k logic \<Rightarrow> 'k answered option" where
  "give_killed cliRes errMsg s = give cliRes 1 errMsg (s\<lparr>lg_kill_trans := True\<rparr>)"

definition logic_begin :: "'k os \<Rightarrow> CliRes \<Rightarrow> 'k logic \<Rightarrow> 'k answered option" where
  "logic_begin K cliRes s =
     (if length (lg_begin_ts s) \<noteq> 0
      then give (cliRes\<lparr>cs_begin_ts := lg_begin_ts s\<rparr>) 1 ''has begin trans!'' s
      else
        (let (ts, s) = clock K s; s = s\<lparr>lg_begin_ts := ts\<rparr>
         in give (cliRes\<lparr>cs_begin_ts := lg_begin_ts s\<rparr>) 0 [] s))"

text \<open>The servers that take part in the transaction, and the request they get.\<close>

definition takes_part :: "StorageCl \<Rightarrow> bool" where
  "takes_part cl \<longleftrightarrow> sc_fd cl > 0 \<and> sc_stat cl = 1"

definition prepare_request :: "'k logic \<Rightarrow> RpcReq" where
  "prepare_request s = RpcReq_init\<lparr>rq_request_type := Req_Type_Prepare,
     rq_start_ts := lg_start_ts s, rq_begin_ts := lg_begin_ts s,
     rq_trans_list := map sc_host (filter takes_part (lg_cls s))\<rparr>"

fun send_prepares :: "'k os \<Rightarrow> ('d, 'j) env \<Rightarrow> Msg \<Rightarrow> StorageCl list \<Rightarrow> 'k logic
    \<Rightarrow> (bool, 'k logic) outcome option" where
  "send_prepares K E m [] s = Some (Ret True s)"
| "send_prepares K E m (cl # cls) s =
     (if takes_part cl then
        bind_opt (send_to K E (sc_fd cl) m s) (\<lambda>ret s.
          if ret \<noteq> 0 then Some (Ret False s) else send_prepares K E m cls s)
      else send_prepares K E m cls s)"

text \<open>Waiting for the answers, on the array of servers; \<open>True\<close> when none is awaited any more.\<close>

partial_function (option) wait_prepared :: "'k os \<Rightarrow> ('d, 'j) env \<Rightarrow> int \<Rightarrow> StorageCl list \<Rightarrow> 'k
    \<Rightarrow> (bool \<times> StorageCl list, 'k) outcome option" where
  "wait_prepared K E fd cls k =
     (if \<forall>cl\<in>set cls. sc_stat cl \<noteq> 1 then Some (Ret (True, cls) k)
      else case os_poll K (map sc_fd cls @ [fd]) 1000 k of
             (ret, ev, k) \<Rightarrow>
               if ret = 0 then wait_prepared K E fd cls k
               else (case collect_prepared K E cls ev k of
                       Abort c k \<Rightarrow> Some (Abort c k)
                     | Ret r k \<Rightarrow>
                         (case r of (good, cls) \<Rightarrow>
                            if good then wait_prepared K E fd cls k
                            else Some (Ret (False, cls) k))))"

declare wait_prepared.simps [code]

definition wait_in :: "'k os \<Rightarrow> ('d, 'j) env \<Rightarrow> int \<Rightarrow> 'k logic \<Rightarrow> (bool, 'k logic) outcome option" where
  "wait_in K E fd s =
     (case wait_prepared K E fd (lg_cls s) (lg_os s) of
        None \<Rightarrow> None
      | Some (Abort c k) \<Rightarrow> Some (Abort c (s\<lparr>lg_os := k\<rparr>))
      | Some (Ret (good, cls) k) \<Rightarrow> Some (Ret good (s\<lparr>lg_os := k,
         lg_storageCl := map_option (\<lambda>_. cls) (lg_storageCl s)\<rparr>)))"

definition logic_commit :: "'k os \<Rightarrow> ('d, 'j) env \<Rightarrow> int \<Rightarrow> CliRes \<Rightarrow> 'k logic
    \<Rightarrow> 'k answered option" where
  "logic_commit K E fd cliRes s =
     (if length (lg_begin_ts s) = 0 then give cliRes 1 ''has no begin trans!'' s
      else
        (let (ts, s) = clock K s;
             s = s\<lparr>lg_start_ts := ts\<rparr>;
             cliRes = cliRes\<lparr>cs_start_ts := lg_start_ts s, cs_begin_ts := lg_begin_ts s\<rparr>
         in bind_opt (send_prepares K E (rpc_request_msg (prepare_request s)) (lg_cls s) s) (\<lambda>sent s.
              if \<not> sent then give_killed cliRes ''SendMsg storage  err'' s
              else bind_opt (wait_in K E fd s) (\<lambda>good s.
                if \<not> good then give_killed cliRes ''ReadOneMsg storage  err'' s
                else give cliRes 0 [] (s\<lparr>lg_begin_ts := [], lg_start_ts := []\<rparr>)))))"

text \<open>
  The array is deleted; the new one is assigned to a variable of the inner block, so \<open>storageCl\<close> of the
  routine still points to the deleted one.
\<close>

definition logic_rollback :: "'k os \<Rightarrow> CliRes \<Rightarrow> 'k logic \<Rightarrow> 'k answered option" where
  "logic_rollback K cliRes s =
     (if length (lg_begin_ts s) = 0 then give cliRes 1 ''has no begin trans!'' s
      else
        (let cliRes = cliRes\<lparr>cs_begin_ts := lg_begin_ts s\<rparr>;
             s = s\<lparr>lg_begin_ts := [], lg_start_ts := []\<rparr>
         in case lg_storageCl s of
              None \<Rightarrow> Some (Abort Use_after_delete s)
            | Some cls \<Rightarrow> give cliRes 0 []
                (s\<lparr>lg_os := delete_array K cls (lg_os s), lg_storageCl := None\<rparr>)))"

text \<open>
  The wait for the answer of a storage server: \<open>True\<close> when it is there, \<open>False\<close> on an event of the
  client.
\<close>

partial_function (option) wait_answer :: "'k os \<Rightarrow> int \<Rightarrow> int \<Rightarrow> 'k \<Rightarrow> (bool \<times> 'k) option" where
  "wait_answer K fd sfd k =
     (case os_poll K [fd, sfd] 1000 k of
        (ret, ev, k) \<Rightarrow>
          if ret = 0 then wait_answer K fd sfd k
          else if length ev > 1 \<and> ev ! 1 then Some (True, k)
          else if length ev > 0 \<and> ev ! 0 then Some (False, k)
          else wait_answer K fd sfd k)"

declare wait_answer.simps [code]

definition key_request :: "CliReq \<Rightarrow> string \<Rightarrow> RpcReq" where
  "key_request cliReq begin_ts = RpcReq_init\<lparr>rq_request_type := cq_request_type cliReq,
     rq_begin_ts := begin_ts, rq_key := cq_key cliReq, rq_value := cq_value cliReq,
     rq_get_for_update := cq_get_for_update cliReq\<rparr>"

text \<open>The response of the storage server becomes the client's.\<close>

definition relayed :: "RpcRes \<Rightarrow> CliRes \<Rightarrow> CliRes" where
  "relayed rs cliRes = cliRes\<lparr>cs_key := rs_key rs, cs_value := rs_value rs,
     cs_begin_ts := rs_begin_ts rs, cs_start_ts := rs_start_ts rs, cs_commit_ts := rs_commit_ts rs\<rparr>"

text \<open>From the request sent to the server on.\<close>

definition logic_relay :: "'k os \<Rightarrow> ('d, 'j) env \<Rightarrow> int \<Rightarrow> int \<Rightarrow> CliRes \<Rightarrow> 'k logic
    \<Rightarrow> 'k answered option" where
  "logic_relay K E fd sfd cliRes s =
     (case wait_answer K fd sfd (lg_os s) of
        None \<Rightarrow> None
      | Some (there, k) \<Rightarrow>
          (let s = s\<lparr>lg_os := k\<rparr>
           in if \<not> there then give cliRes 0 [] s
              else bind_opt (in_os (ReadOneMsg_to K E sfd Msg_init (lg_os s)) s) (\<lambda>(ret, resMsg) s.
                if ret < 0 then give_killed cliRes ''ReadOneMsg storage  err'' s
                else
                  (let rpcRes = mutable_rpc_response resMsg
                   in give (relayed rpcRes cliRes) (sint (rs_result rpcRes)) (rs_err_msg rpcRes) s))))"

text \<open>A request for a key goes to the server the hash of the key chooses.\<close>

definition logic_key :: "'k os \<Rightarrow> ('d, 'j) env \<Rightarrow> Config \<Rightarrow> int \<Rightarrow> CliReq \<Rightarrow> CliRes \<Rightarrow> 'k logic
    \<Rightarrow> 'k answered option" where
  "logic_key K E cfg fd cliReq cliRes s =
     (if length (lg_begin_ts s) = 0 then give cliRes 1 ''has no begin trans!'' s
      else case GetHash (cq_key cliReq) (int (length (config_host cfg))) of
             Inl e \<Rightarrow> Some (Abort e s)
           | Inr h \<Rightarrow>
               (let cls = lg_cls s; i = nat h
                in bind_opt (case getFd K E (lg_begin_ts s) (cls ! i) (lg_os s) of
                     None \<Rightarrow> None
                   | Some (Abort c k) \<Rightarrow> Some (Abort c (s\<lparr>lg_os := k\<rparr>))
                   | Some (Ret (sfd, cl) k) \<Rightarrow>
                       Some (Ret sfd (s\<lparr>lg_os := k,
                         lg_storageCl := map_option (\<lambda>_. cls[i := cl]) (lg_storageCl s)\<rparr>)))
                   (\<lambda>sfd s.
                      if sfd < 0 then give_killed cliRes ''get storage socket err'' s
                      else bind_opt (send_to K E sfd (rpc_request_msg (key_request cliReq (lg_begin_ts s))) s)
                        (\<lambda>ret s.
                           if ret \<noteq> 0 then give_killed cliRes ''SendMsg storage  err'' s
                           else logic_relay K E fd sfd cliRes s))))"

definition logic_request :: "'k os \<Rightarrow> ('d, 'j) env \<Rightarrow> Config \<Rightarrow> int \<Rightarrow> CliReq \<Rightarrow> 'k logic
    \<Rightarrow> 'k answered option" where
  "logic_request K E cfg fd cliReq s =
     (let cliRes = CliRes_init
      in case cq_request_type cliReq of
           Req_Type_Begin \<Rightarrow> logic_begin K cliRes s
         | Req_Type_Commit \<Rightarrow> logic_commit K E fd cliRes s
         | Req_Type_Rollback \<Rightarrow> logic_rollback K cliRes s
         | Req_Type_Get \<Rightarrow> logic_key K E cfg fd cliReq cliRes s
         | Req_Type_Update \<Rightarrow> logic_key K E cfg fd cliReq cliRes s
         | Req_Type_Delete \<Rightarrow> logic_key K E cfg fd cliReq cliRes s
         | Req_Type_Insert \<Rightarrow> logic_key K E cfg fd cliReq cliRes s
         | Req_Type_Prepare \<Rightarrow> give cliRes 0 [] s)"

section \<open>The connection\<close>

datatype loop_end = Again | Leave

text \<open>\<open>Respone\<close>: the answer is sent; after an error of a storage server the loop is left.\<close>

definition logic_respond :: "'k os \<Rightarrow> ('d, 'j) env \<Rightarrow> int \<Rightarrow> CliRes \<times> int \<times> string \<Rightarrow> 'k logic
    \<Rightarrow> (loop_end, 'k logic) outcome option" where
  "logic_respond K E fd a s =
     (let (cliRes, retCode, errMsg) = a;
          cliRes = cliRes\<lparr>cs_result := word_of_int retCode, cs_err_msg := errMsg\<rparr>
      in bind_opt (send_to K E fd (Msg_init\<lparr>msg_msg_type := MSG_Type_Cli_Response,
             msg_content := Cli_response cliRes\<rparr>) s) (\<lambda>ret s.
           if ret < 0 then Some (Ret Leave s)
           else if lg_kill_trans s then Some (Ret Leave s)
           else Some (Ret Again s)))"

text \<open>
  One turn of the loop. \<open>pf\<close> has 100 entries, one for each server and one for the client; an array that
  has been deleted is read first thing, if it has elements.
\<close>

definition logic_turn :: "'k os \<Rightarrow> ('d, 'j) env \<Rightarrow> Config \<Rightarrow> int \<Rightarrow> 'k logic
    \<Rightarrow> (loop_end, 'k logic) outcome option" where
  "logic_turn K E cfg fd s =
     (if length (config_host cfg) \<ge> 100 then Some (Abort Buffer_overrun s)
      else if lg_storageCl s = None \<and> config_host cfg \<noteq> [] then Some (Abort Use_after_delete s)
      else
        (let (ret, ev, k) = os_poll K (map sc_fd (lg_cls s) @ [fd]) 1000 (lg_os s);
             s = s\<lparr>lg_os := k\<rparr>
         in if ret = 0 then Some (Ret Again s)
            else
              (let (kill, cls, k) = check_storage K (lg_cls s) ev (lg_os s);
                   s = s\<lparr>lg_os := k, lg_storageCl := map_option (\<lambda>_. cls) (lg_storageCl s),
                          lg_kill_trans := lg_kill_trans s \<or> kill\<rparr>
               in if lg_kill_trans s then Some (Ret Leave s)
                  else bind_opt (in_os (ReadOneMsg K E fd Msg_init (lg_os s)) s) (\<lambda>(msgType, msg) s.
                    if msgType < 0 then Some (Ret Leave s)
                    else if msgType = MsgType_number MSG_Type_Cli_Request then
                      bind_opt (logic_request K E cfg fd (mutable_cli_request msg) s)
                        (logic_respond K E fd)
                    else Some (Ret Leave s)))))"

partial_function (option) logic_loop :: "'k os \<Rightarrow> ('d, 'j) env \<Rightarrow> Config \<Rightarrow> int \<Rightarrow> 'k logic
    \<Rightarrow> (unit, 'k logic) outcome option" where
  "logic_loop K E cfg fd s =
     (case logic_turn K E cfg fd s of
        None \<Rightarrow> None
      | Some r \<Rightarrow>
          (case r of
             Abort c s \<Rightarrow> Some (Abort c s)
           | Ret e s \<Rightarrow>
               (case e of Again \<Rightarrow> logic_loop K E cfg fd s | Leave \<Rightarrow> Some (Ret () s))))"

declare logic_loop.simps [code]

text \<open>The end of a connection: both it and the connections to the servers are closed.\<close>

definition logic_close :: "'k os \<Rightarrow> int \<Rightarrow> 'k logic \<Rightarrow> (unit, 'k logic) outcome" where
  "logic_close K fd s =
     (let s = s\<lparr>lg_os := os_close K fd (lg_os s)\<rparr>
      in case lg_storageCl s of
           None \<Rightarrow> Abort Use_after_delete s
         | Some cls \<Rightarrow> Ret () (s\<lparr>lg_os := delete_array K cls (lg_os s), lg_storageCl := None\<rparr>))"

definition logic_open :: "Config \<Rightarrow> 'k \<Rightarrow> 'k logic" where
  "logic_open cfg k = \<lparr>lg_os = k, lg_begin_ts = [], lg_start_ts = [],
     lg_storageCl = Some (map (\<lambda>h. StorageCl_init\<lparr>sc_host := h\<rparr>) (config_host cfg)),
     lg_kill_trans = False\<rparr>"

text \<open>What the coroutine does with the connection \<open>fd\<close>.\<close>

definition logic_serve :: "'k os \<Rightarrow> ('d, 'j) env \<Rightarrow> Config \<Rightarrow> int \<Rightarrow> 'k
    \<Rightarrow> (unit, 'k logic) outcome option" where
  "logic_serve K E cfg fd k =
     bind_opt (logic_loop K E cfg fd (logic_open cfg k)) (\<lambda>_ s. Some (logic_close K fd s))"

end
