(* ===== verification/Coordinator.thy ===== *)
theory Coordinator
  imports LogicServ Cluster
begin

text \<open>
  What the coordinator does for a transaction: which servers it asks to prepare and with which list,
  what it makes of their answers, where a request for a key goes, and what its own state keeps.
\<close>

section \<open>Moving messages\<close>

text \<open>Nothing written and no descriptor opened or closed from \<open>k\<close> to \<open>k'\<close>.\<close>

definition unmoved :: "('k \<Rightarrow> int \<Rightarrow> string) \<Rightarrow> ('k \<Rightarrow> int set) \<Rightarrow> 'k \<Rightarrow> 'k \<Rightarrow> bool" where
  "unmoved sent_on opened k k' \<longleftrightarrow> sent_on k' = sent_on k \<and> opened k' = opened k"

lemma unmoved_refl [simp]: "unmoved sent_on opened k k"
  by (simp add: unmoved_def)

lemma unmoved_trans [trans]:
  "unmoved sent_on opened k k' \<Longrightarrow> unmoved sent_on opened k' k'' \<Longrightarrow> unmoved sent_on opened k k''"
  by (simp add: unmoved_def)

locale coordinator = wire K arriving sent_on E + processes K arriving sent_on opened
  for K :: "'k os" and arriving and sent_on and E :: "('d, 'j) env" and opened
begin

lemma poll_unmoved: "os_poll K fds ms k = (i, ev, k') \<Longrightarrow> unmoved sent_on opened k k'"
  using poll_frame poll_opened unfolding unmoved_def by blast

lemma ReadBuff_loop_unmoved: "unmoved sent_on opened k (snd (ReadBuff_loop K fd n r k))"
proof (induction n arbitrary: r k rule: less_induct)
  case (less n)
  obtain b k1 where read: "os_read K fd n k = (b, k1)" by fastforce
  have one: "unmoved sent_on opened k k1"
    using read_sent [OF read] read_opened [OF read] by (simp add: unmoved_def)
  show ?case
  proof (cases "n = 0 \<or> b = None \<or> b = Some []")
    case True
    with one read show ?thesis by (auto simp: ReadBuff_loop.simps [of K fd n])
  next
    case False
    then obtain c where "b = Some c" "c \<noteq> []" "0 < n" by auto
    with read less.IH [of "n - length c" k1 "r @ c"] one show ?thesis
      by (auto simp: ReadBuff_loop.simps [of K fd n] intro: unmoved_trans)
  qed
qed

lemma ReadBuff_unmoved: "unmoved sent_on opened k (state_of (ReadBuff K fd len k))"
  using ReadBuff_loop_unmoved [of k fd "nat len" "[]"]
  by (auto simp: ReadBuff_def split: prod.splits)

lemma ReadOneMsg_unmoved: "unmoved sent_on opened k (state_of (ReadOneMsg K E fd m k))"
proof -
  obtain i ev k1 where poll: "os_poll K [fd] (3 * 60 * 1000) k = (i, ev, k1)" by (metis prod_cases3)
  have "keeps (unmoved sent_on opened k) (ReadBuff K fd len k1)" if "unmoved sent_on opened k k1" for k1 len
    unfolding keeps_def using that ReadBuff_unmoved by (rule unmoved_trans)
  then have "keeps (unmoved sent_on opened k) (ReadOneMsg K E fd m k)"
    using poll_unmoved [OF poll] unfolding ReadOneMsg_def poll
    by (auto intro!: keeps_bind simp: Let_def split: option.splits)
  then show ?thesis by (simp add: keeps_def)
qed

lemma ReadOneMsg_to_unmoved: "unmoved sent_on opened k (state_of (ReadOneMsg_to K E fd m k))"
  using ReadOneMsg_unmoved [of k fd Msg_init]
  by (cases "ReadOneMsg K E fd Msg_init k") (auto simp: ReadOneMsg_to_def)

lemma SendBuff_opened:
  assumes "SendBuff K fd buff k = Some r"
  shows "opened (snd r) = opened k"
proof -
  have "K = K \<longrightarrow> opened (snd r) = opened k"
  proof (rule SendBuff.raw_induct [where P = "\<lambda>K' fd buff k r. K' = K \<longrightarrow> opened (snd r) = opened k",
      OF _ assms], intro impI)
    fix loop K' fd buff k r
    assume IH: "\<And>K' fd buff k r. loop K' fd buff k = Some r \<Longrightarrow> K' = K \<longrightarrow> opened (snd r) = opened k"
      and [simp]: "K' = K"
      and run: "(if buff = [] then Some (0, k)
        else case os_write K' fd buff k of (n, k) \<Rightarrow>
          if n < 0 then Some (n, k) else loop K' fd (drop (nat n) buff) k) = Some r"
    obtain w k1 where call: "os_write K fd buff k = (w, k1)" by fastforce
    show "opened (snd r) = opened k"
    proof (cases "buff = [] \<or> w < 0")
      case True
      then consider "buff = []" | "buff \<noteq> []" "w < 0" by blast
      then show ?thesis
      proof cases
        case 1
        with run have "r = (0, k)" by simp
        then show ?thesis by simp
      next
        case 2
        with run call have "r = (w, k1)" by simp
        then show ?thesis using write_opened [OF call] by simp
      qed
    next
      case False
      with run call have "loop K fd (drop (nat w) buff) k1 = Some r" by simp
      with IH have "opened (snd r) = opened k1" by blast
      with write_opened [OF call] show ?thesis by simp
    qed
  qed
  then show ?thesis by simp
qed

lemma SendMsg_opened: "SendMsg K E fd m k = Some (r, k') \<Longrightarrow> opened k' = opened k"
  using SendBuff_opened [of fd "frame (Msg2JsonStr E (pb_Msg E) m)" k]
  by (auto simp: SendMsg_def Let_def split: option.splits prod.splits if_splits)

end

section \<open>Asking for the prepare\<close>

text \<open>What a message adds to the bytes written.\<close>

definition framed :: "('d, 'j) env \<Rightarrow> Msg \<Rightarrow> string" where
  "framed E m = frame (Msg2JsonStr E (pb_Msg E) m)"

text \<open>The two states differ only in the system.\<close>

definition same_vars :: "'k logic \<Rightarrow> 'k logic \<Rightarrow> bool" where
  "same_vars s s' \<longleftrightarrow> s' = s\<lparr>lg_os := lg_os s'\<rparr>"

lemma lg_cls_os [simp]: "lg_cls (s\<lparr>lg_os := k\<rparr>) = lg_cls s"
  by (simp add: lg_cls_def)

lemma same_vars_os [simp]: "same_vars s (s\<lparr>lg_os := k\<rparr>)"
  by (simp add: same_vars_def)

lemma same_varsD:
  "same_vars s s' \<Longrightarrow> lg_begin_ts s' = lg_begin_ts s \<and> lg_start_ts s' = lg_start_ts s
    \<and> lg_storageCl s' = lg_storageCl s \<and> lg_kill_trans s' = lg_kill_trans s \<and> lg_cls s' = lg_cls s"
  by (cases s; cases s') (simp add: same_vars_def lg_cls_def)

lemma same_vars_trans [trans]: "same_vars s t \<Longrightarrow> same_vars t u \<Longrightarrow> same_vars s u"
  by (cases s; cases t; cases u) (simp add: same_vars_def)

context coordinator
begin

lemma send_to_result:
  assumes "send_to K E fd m s = Some r"
  obtains ret k where "r = Ret ret (s\<lparr>lg_os := k\<rparr>)" "opened k = opened (lg_os s)"
    "\<And>g. g \<noteq> fd \<Longrightarrow> sent_on k g = sent_on (lg_os s) g"
    "ret = 0 \<Longrightarrow> sent_on k fd = sent_on (lg_os s) fd @ framed E m"
proof -
  from assms obtain ret k where *: "SendMsg K E fd m (lg_os s) = Some (ret, k)" "r = Ret ret (s\<lparr>lg_os := k\<rparr>)"
    by (auto simp: send_to_def)
  with SendMsg_sends [OF *(1)] SendMsg_opened [OF *(1)] that show thesis
    by (auto simp: framed_def)
qed

text \<open>Every server that takes part gets the request, once, and nobody else gets anything.\<close>

lemma send_prepares_sends:
  assumes "send_prepares K E m cls s = Some (Ret good s')"
    and "distinct (map sc_fd (filter takes_part cls))"
  shows "same_vars s s' \<and> opened (lg_os s') = opened (lg_os s)
    \<and> (good \<longrightarrow> (\<forall>g. sent_on (lg_os s') g = sent_on (lg_os s) g
         @ (if g \<in> sc_fd ` set (filter takes_part cls) then framed E m else [])))"
  using assms
proof (induction cls arbitrary: s)
  case Nil
  then show ?case by (simp add: same_vars_def)
next
  case (Cons cl cls)
  show ?case
  proof (cases "takes_part cl")
    case False
    with Cons show ?thesis by simp
  next
    case True
    with Cons.prems(1) obtain r where r: "send_to K E (sc_fd cl) m s = Some r"
      by (cases "send_to K E (sc_fd cl) m s") auto
    from r show ?thesis
    proof (cases rule: send_to_result)
      case (1 ret k)
      show ?thesis
      proof (cases "ret = 0")
        case False
        with Cons.prems(1) True r 1(1) have "good = False" "s' = s\<lparr>lg_os := k\<rparr>" by simp_all
        with 1(2) show ?thesis by simp
      next
        case ok: True
        with Cons.prems(1) True r 1(1)
        have rest: "send_prepares K E m cls (s\<lparr>lg_os := k\<rparr>) = Some (Ret good s')" by simp
        from Cons.prems(2) True have d: "distinct (map sc_fd (filter takes_part cls))"
          and fresh: "sc_fd cl \<notin> sc_fd ` set (filter takes_part cls)" by simp_all
        note IH = Cons.IH [OF rest d]
        have "same_vars s s'" by (rule same_vars_trans [OF same_vars_os conjunct1 [OF IH]])
        moreover have "sent_on (lg_os s') g = sent_on (lg_os s) g
            @ (if g \<in> sc_fd ` set (filter takes_part (cl # cls)) then framed E m else [])"
          if good for g
        proof -
          have "sent_on (lg_os s') g = sent_on k g
              @ (if g \<in> sc_fd ` set (filter takes_part cls) then framed E m else [])"
            using IH that by simp
          also have "sent_on k g = sent_on (lg_os s) g @ (if g = sc_fd cl then framed E m else [])"
            using 1(3) [of g] 1(4) [OF ok] by auto
          finally show ?thesis using fresh True by auto
        qed
        ultimately show ?thesis using IH 1(2) by simp
      qed
    qed
  qed
qed

end

section \<open>Waiting for the answers\<close>

text \<open>What a round of answers can do to an entry of the array.\<close>

definition served :: "StorageCl \<Rightarrow> StorageCl \<Rightarrow> bool" where
  "served cl cl' \<longleftrightarrow> cl' = cl \<or> cl' = unused_closed cl \<or> cl' = cl\<lparr>sc_stat := 0\<rparr>"

lemma served_refl [simp]: "served cl cl"
  by (simp add: served_def)

lemma served_host: "served cl cl' \<Longrightarrow> sc_host cl' = sc_host cl"
  by (auto simp: served_def unused_closed_def)

lemma served_trans: "served a b \<Longrightarrow> served b c \<Longrightarrow> served a c"
  by (auto simp: served_def unused_closed_def)

lemma list_served_host: "list_all2 served cls cls' \<Longrightarrow> map sc_host cls' = map sc_host cls"
  by (induction rule: list_all2_induct) (simp_all add: served_host)

text \<open>The descriptors of the array: different ones, and open.\<close>

definition fds :: "StorageCl list \<Rightarrow> int list" where
  "fds cls = filter (\<lambda>fd. 0 \<le> fd) (map sc_fd cls)"

definition holds :: "int set \<Rightarrow> StorageCl list \<Rightarrow> bool" where
  "holds os cls \<longleftrightarrow> distinct (fds cls) \<and> set (fds cls) \<subseteq> os"

lemma fds_Cons: "fds (cl # cls) = (if 0 \<le> sc_fd cl then sc_fd cl # fds cls else fds cls)"
  by (simp add: fds_def)

lemma in_fds: "fd \<in> set (fds cls) \<longleftrightarrow> 0 \<le> fd \<and> fd \<in> sc_fd ` set cls"
  by (auto simp: fds_def)

lemma holds_Nil [simp]: "holds os []"
  by (simp add: holds_def fds_def)

lemma holds_Cons:
  "holds os (cl # cls) \<longleftrightarrow> holds os cls \<and> (0 \<le> sc_fd cl \<longrightarrow> sc_fd cl \<in> os \<and> sc_fd cl \<notin> set (fds cls))"
  by (auto simp: holds_def fds_Cons)

lemma served_fds: "list_all2 served cls cls' \<Longrightarrow> set (fds cls') \<subseteq> set (fds cls)"
  by (induction rule: list_all2_induct) (auto simp: served_def unused_closed_def fds_Cons)

text \<open>
  What a loop over the array may do: nothing is written, and what is closed is no longer in the array.
\<close>

definition tidy :: "('k \<Rightarrow> int \<Rightarrow> string) \<Rightarrow> ('k \<Rightarrow> int set) \<Rightarrow> StorageCl list \<Rightarrow> 'k
    \<Rightarrow> StorageCl list \<Rightarrow> 'k \<Rightarrow> bool" where
  "tidy sent_on opened cls k cls' k' \<longleftrightarrow> list_all2 served cls cls' \<and> sent_on k' = sent_on k
     \<and> opened k - set (fds cls) \<subseteq> opened k' \<and> (holds (opened k) cls \<longrightarrow> holds (opened k') cls')"

lemma tidy_unmoved: "unmoved sent_on opened k k' \<Longrightarrow> tidy sent_on opened cls k cls k'"
  by (simp add: tidy_def unmoved_def list_all2_refl)

lemma tidy_trans:
  assumes "tidy sent_on opened cls k cls1 k1" and "tidy sent_on opened cls1 k1 cls2 k2"
  shows "tidy sent_on opened cls k cls2 k2"
  using assms served_fds [of cls cls1] list_all2_trans [of served served served cls cls1 cls2] served_trans
  by (auto simp: tidy_def)

lemma tidy_keep:
  assumes "unmoved sent_on opened k k1" and "tidy sent_on opened cls k1 cls' k'"
    and "served cl cl'" and "sc_fd cl' = sc_fd cl"
  shows "tidy sent_on opened (cl # cls) k (cl' # cls') k'"
  using assms served_fds [of cls cls'] by (auto simp: tidy_def unmoved_def holds_Cons fds_Cons)

context coordinator
begin

lemma tidy_close:
  assumes "tidy sent_on opened cls (os_close K (sc_fd cl) k) cls' k'" and "0 \<le> sc_fd cl"
  shows "tidy sent_on opened (cl # cls) k (unused_closed cl # cls') k'"
proof -
  have "holds (opened k - {sc_fd cl}) cls" if "holds (opened k) (cl # cls)"
    using that assms(2) by (auto simp: holds_def fds_Cons)
  with assms show ?thesis
    by (auto simp: tidy_def close_sent close_opened fds_Cons holds_Cons served_def)
      (auto simp: unused_closed_def)
qed

text \<open>A round keeps the array tidy, whether it is a check or waits for answers.\<close>

lemma check_storage_tidy:
  "check_storage K cls ev k = (kill, cls', k') \<Longrightarrow> tidy sent_on opened cls k cls' k'"
proof (induction cls arbitrary: ev k kill cls' k')
  case Nil
  then show ?case by (simp add: tidy_unmoved)
next
  case (Cons cl cls)
  consider (close) "has_event cl ev" "sc_stat cl = 0" | (kill) "has_event cl ev" "sc_stat cl \<noteq> 0"
    | (none) "\<not> has_event cl ev" by blast
  then show ?case
  proof cases
    case close
    obtain g cls1 k1 where rest: "check_storage K cls (tl ev) (os_close K (sc_fd cl) k) = (g, cls1, k1)"
      by (metis prod_cases3)
    with Cons.prems close have "cls' = unused_closed cl # cls1" "k' = k1" by simp_all
    with tidy_close [OF Cons.IH [OF rest]] close show ?thesis by (simp add: has_event_def)
  next
    case kill
    with Cons.prems have "cls' = cl # cls" "k' = k" by simp_all
    then show ?thesis by (simp add: tidy_unmoved)
  next
    case none
    obtain g cls1 k1 where rest: "check_storage K cls (tl ev) k = (g, cls1, k1)"
      by (metis prod_cases3)
    with Cons.prems none have "cls' = cl # cls1" "k' = k1" by simp_all
    with tidy_keep [OF unmoved_refl Cons.IH [OF rest]] show ?thesis by simp
  qed
qed

lemma collect_prepared_tidy:
  "collect_prepared K E cls ev k = Ret (good, cls') k' \<Longrightarrow> tidy sent_on opened cls k cls' k'"
proof (induction cls arbitrary: ev k good cls' k')
  case Nil
  then show ?case by (simp add: tidy_unmoved)
next
  case (Cons cl cls)
  show ?case
  proof (cases "has_event cl ev")
    case False
    with Cons.prems obtain cls1 where rest: "collect_prepared K E cls (tl ev) k = Ret (good, cls1) k'"
      and cls': "cls' = cl # cls1"
      by (auto simp: bind_out_eq_Ret)
    show ?thesis unfolding cls' by (rule tidy_keep [OF unmoved_refl Cons.IH [OF rest]]) simp_all
  next
    case ev: True
    then have pos: "0 \<le> sc_fd cl" by (simp add: has_event_def)
    show ?thesis
    proof (cases "sc_stat cl = 0")
      case True
      with ev Cons.prems obtain cls1 where
        rest: "collect_prepared K E cls (tl ev) (os_close K (sc_fd cl) k) = Ret (good, cls1) k'"
        and cls': "cls' = unused_closed cl # cls1"
        by (auto simp: bind_out_eq_Ret)
      show ?thesis unfolding cls' by (rule tidy_close [OF Cons.IH [OF rest] pos])
    next
      case False
      obtain r where r: "ReadOneMsg_to K E (sc_fd cl) Msg_init k = r" by blast
      show ?thesis
      proof (cases r)
        case (Ret a k1)
        obtain ret m where a: "a = (ret, m)" by fastforce
        have same: "unmoved sent_on opened k k1"
          using ReadOneMsg_to_unmoved [of k "sc_fd cl" Msg_init] by (simp add: r Ret)
        show ?thesis
        proof (cases "ret < 0")
          case True
          with Cons.prems ev False r Ret a have "cls' = cl # cls" "k' = k1" by simp_all
          with tidy_unmoved [OF same] show ?thesis by simp
        next
          case good: False
          with Cons.prems ev False r Ret a obtain cls1 where
            rest: "collect_prepared K E cls (tl ev) k1 = Ret (good, cls1) k'"
            and cls': "cls' = cl\<lparr>sc_stat := 0\<rparr> # cls1"
            by (auto simp: bind_out_eq_Ret)
          show ?thesis unfolding cls'
            by (rule tidy_keep [OF same Cons.IH [OF rest]]) (simp_all add: served_def)
        qed
      next
        case (Abort c k1)
        with Cons.prems ev False r show ?thesis by simp
      qed
    qed
  qed
qed

lemma wait_prepared_tidy:
  assumes "wait_prepared K E fd cls k = Some (Ret (good, cls') k')"
  shows "tidy sent_on opened cls k cls' k' \<and> (good \<longrightarrow> (\<forall>cl\<in>set cls'. sc_stat cl \<noteq> 1))"
proof -
  define post where "post cls k r \<longleftrightarrow> (\<forall>good cls' k'. r = Ret (good, cls') k' \<longrightarrow>
      tidy sent_on opened cls k cls' k' \<and> (good \<longrightarrow> (\<forall>cl\<in>set cls'. sc_stat cl \<noteq> 1)))"
    for cls k and r :: "(bool \<times> StorageCl list, 'k) outcome"
  have "K = K \<and> E = E \<longrightarrow> post cls k (Ret (good, cls') k')"
  proof (rule wait_prepared.raw_induct
      [where P = "\<lambda>K' E' fd cls k r. K' = K \<and> E' = E \<longrightarrow> post cls k r", OF _ assms], intro impI, elim conjE)
    fix loop K' fd cls k r and E' :: "('d, 'j) env"
    assume IH: "\<And>K' E' fd cls k r. loop K' E' fd cls k = Some r \<Longrightarrow> K' = K \<and> E' = E \<longrightarrow> post cls k r"
      and eq: "K' = K" "E' = E"
      and run: "(if \<forall>cl\<in>set cls. sc_stat cl \<noteq> 1 then Some (Ret (True, cls) k)
        else case os_poll K' (map sc_fd cls @ [fd]) 1000 k of (ret, ev, k) \<Rightarrow>
          if ret = 0 then loop K' E' fd cls k
          else case collect_prepared K' E' cls ev k of
            Ret r k \<Rightarrow> (case r of (good, cls) \<Rightarrow> if good then loop K' E' fd cls k else Some (Ret (False, cls) k))
          | Abort c k \<Rightarrow> Some (Abort c k)) = Some r"
    obtain i ev k1 where poll: "os_poll K (map sc_fd cls @ [fd]) 1000 k = (i, ev, k1)" by (metis prod_cases3)
    note first = tidy_unmoved [OF poll_unmoved [OF poll]]
    have loop: "post cls k r" if "loop K E fd cls1 k2 = Some r" "tidy sent_on opened cls k cls1 k2" for cls1 k2
    proof -
      have "post cls1 k2 r" using IH [OF that(1)] by simp
      with tidy_trans [OF that(2)] show ?thesis unfolding post_def by blast
    qed
    show "post cls k r"
    proof (cases "\<forall>cl\<in>set cls. sc_stat cl \<noteq> 1")
      case True
      with run show ?thesis by (auto simp: post_def tidy_unmoved)
    next
      case waiting: False
      show ?thesis
      proof (cases "i = 0")
        case True
        with run waiting have "loop K E fd cls k1 = Some r" unfolding eq poll by simp
        then show ?thesis using loop first by blast
      next
        case False
        show ?thesis
        proof (cases "collect_prepared K E cls ev k1")
          case (Ret a k2)
          obtain g cls1 where a: "a = (g, cls1)" by fastforce
          have both: "tidy sent_on opened cls k cls1 k2"
            by (rule tidy_trans [OF first collect_prepared_tidy [OF Ret [unfolded a]]])
          show ?thesis
          proof (cases g)
            case True
            with run waiting False Ret a have "loop K E fd cls1 k2 = Some r" unfolding eq poll by simp
            then show ?thesis using loop both by blast
          next
            case bad: False
            with run waiting False Ret a have "r = Ret (False, cls1) k2" unfolding eq poll by simp
            with both show ?thesis by (simp add: post_def)
          qed
        next
          case (Abort c k2)
          with run waiting False have "r = Abort c k2" unfolding eq poll by simp
          then show ?thesis by (simp add: post_def)
        qed
      qed
    qed
  qed
  then show ?thesis by (simp add: post_def)
qed

lemma clock_result:
  assumes "clock K s = (ts, s')"
  shows "same_vars s s' \<and> sent_on (lg_os s') = sent_on (lg_os s) \<and> opened (lg_os s') = opened (lg_os s)
    \<and> (\<exists>sec usec. ts = GetTS sec usec)"
proof -
  obtain sec usec k where t: "os_time K (lg_os s) = ((sec, usec), k)" by (metis prod_cases3 surj_pair)
  with assms have "ts = GetTS sec usec" "s' = s\<lparr>lg_os := k\<rparr>" by (simp_all add: clock_def)
  with time_sent [OF t] time_opened [OF t] show ?thesis by auto
qed

lemma wait_in_result:
  assumes "wait_in K E fd s = Some (Ret good s')"
  shows "tidy sent_on opened (lg_cls s) (lg_os s) (lg_cls s') (lg_os s')
    \<and> (good \<longrightarrow> (\<forall>cl\<in>set (lg_cls s'). sc_stat cl \<noteq> 1))
    \<and> lg_begin_ts s' = lg_begin_ts s \<and> lg_kill_trans s' = lg_kill_trans s
    \<and> (lg_storageCl s' = None \<longleftrightarrow> lg_storageCl s = None)"
proof -
  from assms obtain cls k where w: "wait_prepared K E fd (lg_cls s) (lg_os s) = Some (Ret (good, cls) k)"
    and s': "s' = s\<lparr>lg_os := k, lg_storageCl := map_option (\<lambda>_. cls) (lg_storageCl s)\<rparr>"
    by (auto simp: wait_in_def split: option.splits outcome.splits)
  note t = wait_prepared_tidy [OF w]
  have "lg_cls s' = cls"
  proof (cases "lg_storageCl s")
    case None
    with t have "list_all2 served [] cls" by (simp add: tidy_def lg_cls_def)
    with s' None show ?thesis by (simp add: lg_cls_def)
  qed (use s' in \<open>simp add: lg_cls_def\<close>)
  with t s' show ?thesis by simp
qed

text \<open>The two ways a commit of an open transaction ends.\<close>

lemma logic_commit_result:
  assumes run: "logic_commit K E fd cliRes s = Some (Ret (rs, code, err) s')"
    and ts: "lg_begin_ts s \<noteq> []" and d: "distinct (map sc_fd (filter takes_part (lg_cls s)))"
  obtains (killed) k where "code = 1" "lg_kill_trans s'" "lg_begin_ts s' = lg_begin_ts s"
      "tidy sent_on opened (lg_cls s) k (lg_cls s') (lg_os s')" "opened k = opened (lg_os s)"
      "lg_storageCl s' = None \<longleftrightarrow> lg_storageCl s = None"
  | (finished) rq k where "code = 0" "lg_begin_ts s' = []" "lg_kill_trans s' = lg_kill_trans s"
      "\<forall>cl\<in>set (lg_cls s'). sc_stat cl \<noteq> 1"
      "rq_request_type rq = Req_Type_Prepare" "rq_begin_ts rq = lg_begin_ts s"
      "rq_trans_list rq = map sc_host (filter takes_part (lg_cls s))"
      "\<forall>g. sent_on (lg_os s') g = sent_on (lg_os s) g
         @ (if g \<in> sc_fd ` set (filter takes_part (lg_cls s)) then framed E (rpc_request_msg rq) else [])"
      "tidy sent_on opened (lg_cls s) k (lg_cls s') (lg_os s')" "opened k = opened (lg_os s)"
      "lg_storageCl s' = None \<longleftrightarrow> lg_storageCl s = None"
proof -
  obtain t s1 where c: "clock K s = (t, s1)" by fastforce
  define s2 where "s2 = s1\<lparr>lg_start_ts := t\<rparr>"
  note v1 = clock_result [OF c] same_varsD [OF conjunct1 [OF clock_result [OF c]]]
  have s2: "lg_cls s2 = lg_cls s" "lg_begin_ts s2 = lg_begin_ts s" "lg_storageCl s2 = lg_storageCl s"
    "lg_kill_trans s2 = lg_kill_trans s" "opened (lg_os s2) = opened (lg_os s)"
    "sent_on (lg_os s2) = sent_on (lg_os s)"
    using v1 by (simp_all add: s2_def lg_cls_def)
  let ?rq = "prepare_request s2" let ?m = "rpc_request_msg ?rq"
  from run ts c obtain good s3 where send: "send_prepares K E ?m (lg_cls s2) s2 = Some (Ret good s3)"
    by (auto simp: logic_commit_def Let_def s2_def bind_opt_eq_Ret give_def)
  note v3 = send_prepares_sends [OF send] s2 d
  have same: "lg_cls s3 = lg_cls s" "lg_begin_ts s3 = lg_begin_ts s" "lg_storageCl s3 = lg_storageCl s"
    "lg_kill_trans s3 = lg_kill_trans s" "opened (lg_os s3) = opened (lg_os s)"
    using v3 same_varsD [of s2 s3] by simp_all
  show thesis
  proof (cases good)
    case False
    with run ts c send have "code = 1" "s' = s3\<lparr>lg_kill_trans := True\<rparr>"
      by (auto simp: logic_commit_def Let_def s2_def [symmetric] give_def give_killed_def)
    with same tidy_unmoved [OF unmoved_refl] show thesis
      by (intro killed [of "lg_os s3"]) (auto simp: lg_cls_def)
  next
    case True
    with run ts c send obtain good2 s4 where w: "wait_in K E fd s3 = Some (Ret good2 s4)"
      by (auto simp: logic_commit_def Let_def s2_def [symmetric] bind_opt_eq_Ret)
    note w4 = wait_in_result [OF w]
    show thesis
    proof (cases good2)
      case False
      with run ts c send True w have "code = 1" "s' = s4\<lparr>lg_kill_trans := True\<rparr>"
        by (auto simp: logic_commit_def Let_def s2_def [symmetric] give_def give_killed_def)
      with same w4 show thesis by (intro killed [of "lg_os s3"]) (auto simp: lg_cls_def)
    next
      case True
      with run ts c send \<open>good\<close> w have "code = 0" "s' = s4\<lparr>lg_begin_ts := [], lg_start_ts := []\<rparr>"
        by (auto simp: logic_commit_def Let_def s2_def [symmetric] give_def)
      moreover have "sent_on (lg_os s4) = sent_on (lg_os s3)" using w4 by (simp add: tidy_def)
      ultimately show thesis using same w4 True v3 \<open>good\<close>
        by (intro finished [of ?rq "lg_os s3"]) (auto simp: lg_cls_def prepare_request_def)
    qed
  qed
qed

end

section \<open>A request for a key\<close>

context coordinator
begin

lemma Connect_sent: "Connect K host port k = (r, k') \<Longrightarrow> sent_on k' = sent_on k"
  by (auto simp: Connect_def close_sent split: prod.splits if_splits dest!: socket_sent connect_sent)

text \<open>
  Beginning a transaction on a server writes the request to it and to nobody else.
\<close>

lemma begin_on_result:
  assumes "begin_on K E ts cl k = Some (Ret (r, cl') k')"
  shows "opened k' = opened k \<and> (\<forall>g. g \<noteq> sc_fd cl \<longrightarrow> sent_on k' g = sent_on k g)
    \<and> (cl' = cl \<or> r = sc_fd cl \<and> cl' = cl\<lparr>sc_stat := 1\<rparr>
         \<and> sent_on k' (sc_fd cl) = sent_on k (sc_fd cl) @ framed E (begin_msg ts))"
proof -
  from assms obtain ret k1 where send: "SendMsg K E (sc_fd cl) (begin_msg ts) k = Some (ret, k1)"
    by (auto simp: begin_on_def split: option.splits)
  note s = SendMsg_sends [OF send] SendMsg_opened [OF send]
  show ?thesis
  proof (cases "ret = 0")
    case False
    with assms send have "cl' = cl" "k' = k1" by (auto simp: begin_on_def)
    with s show ?thesis by simp
  next
    case True
    with assms send obtain a where read: "ReadOneMsg K E (sc_fd cl) Msg_init k1 = Ret a k'"
      and a: "(r, cl') = begin_answer a cl"
      by (auto simp: begin_on_def bind_out_eq_Ret)
    have "unmoved sent_on opened k1 k'"
      using ReadOneMsg_unmoved [of k1 "sc_fd cl" Msg_init] by (simp add: read)
    moreover have "cl' = cl \<or> r = sc_fd cl \<and> cl' = cl\<lparr>sc_stat := 1\<rparr>"
      using a by (auto simp: begin_answer_def split: prod.splits if_splits)
    ultimately show ?thesis using s True by (auto simp: unmoved_def framed_def)
  qed
qed

text \<open>
  \<open>getFd\<close> connects a server that is not connected and begins the transaction on one that has not begun
  it, and touches nothing else.
\<close>

lemma getFd_result:
  assumes "getFd K E ts cl k = Some (Ret (r, cl') k')"
  shows "sc_host cl' = sc_host cl
    \<and> (if 0 \<le> sc_fd cl then sc_fd cl' = sc_fd cl \<and> opened k' = opened k
       else if 0 \<le> sc_fd cl' then sc_fd cl' \<notin> opened k \<and> opened k' = insert (sc_fd cl') (opened k)
       else opened k' = opened k)
    \<and> (sc_stat cl' = sc_stat cl \<or> sc_stat cl = 0 \<and> sc_stat cl' = 1 \<and> 0 \<le> sc_fd cl')
    \<and> (\<forall>g. g \<noteq> sc_fd cl' \<longrightarrow> sent_on k' g = sent_on k g)
    \<and> (sc_stat cl' = 1 \<and> 0 \<le> r \<longrightarrow> r = sc_fd cl' \<and> sent_on k' (sc_fd cl') = sent_on k (sc_fd cl')
         @ (if sc_stat cl = 0 then framed E (begin_msg ts) else []))"
proof -
  let ?conn = "Connect K (host_name (sc_host cl)) (sint (host_port (sc_host cl))) k"
  define cl1 where "cl1 = (if sc_fd cl < 0 then cl\<lparr>sc_fd := fst ?conn\<rparr> else cl)"
  define k1 where "k1 = (if sc_fd cl < 0 then snd ?conn else k)"
  have cl1: "sc_host cl1 = sc_host cl" "sc_stat cl1 = sc_stat cl"
    by (simp_all add: cl1_def)
  have one: "sent_on k1 = sent_on k"
    "if 0 \<le> sc_fd cl then sc_fd cl1 = sc_fd cl \<and> opened k1 = opened k
      else if 0 \<le> sc_fd cl1 then sc_fd cl1 \<notin> opened k \<and> opened k1 = insert (sc_fd cl1) (opened k)
      else opened k1 = opened k"
    using Connect_sent [of "host_name (sc_host cl)" "sint (host_port (sc_host cl))" k "fst ?conn" "snd ?conn"]
      Connect_opens [of "host_name (sc_host cl)" "sint (host_port (sc_host cl))" k "fst ?conn" "snd ?conn"]
    by (simp_all add: cl1_def k1_def)
  have run: "(if sc_fd cl1 < 0 then Some (Ret (sc_fd cl1, cl1) k1)
      else if sc_stat cl1 = 0 then begin_on K E ts cl1 k1
      else Some (Ret (sc_fd cl1, cl1) k1)) = Some (Ret (r, cl') k')"
    using assms by (auto simp: getFd_def Let_def cl1_def k1_def split: prod.splits if_splits)
  show ?thesis
  proof (cases "sc_fd cl1 < 0 \<or> sc_stat cl \<noteq> 0")
    case True
    with run cl1 have "cl' = cl1" "k' = k1" "r = sc_fd cl1" by (auto split: if_splits)
    with True one cl1 show ?thesis by auto
  next
    case False
    with run cl1 have "begin_on K E ts cl1 k1 = Some (Ret (r, cl') k')" by simp
    from begin_on_result [OF this] False one cl1 show ?thesis by auto
  qed
qed

lemma wait_answer_unmoved:
  assumes "wait_answer K fd sfd k = Some r"
  shows "unmoved sent_on opened k (snd r)"
proof -
  have "K = K \<longrightarrow> unmoved sent_on opened k (snd r)"
  proof (rule wait_answer.raw_induct [where P = "\<lambda>K' fd sfd k r. K' = K \<longrightarrow> unmoved sent_on opened k (snd r)",
      OF _ assms], intro impI)
    fix loop K' fd sfd k r
    assume IH: "\<And>K' fd sfd k r. loop K' fd sfd k = Some r
        \<Longrightarrow> K' = K \<longrightarrow> unmoved sent_on opened k (snd r)"
      and eq: "K' = K"
      and run: "(case os_poll K' [fd, sfd] 1000 k of (ret, ev, k) \<Rightarrow>
          if ret = 0 then loop K' fd sfd k
          else if length ev > 1 \<and> ev ! 1 then Some (True, k)
          else if length ev > 0 \<and> ev ! 0 then Some (False, k)
          else loop K' fd sfd k) = Some r"
    obtain i ev k1 where poll: "os_poll K [fd, sfd] 1000 k = (i, ev, k1)" by (metis prod_cases3)
    have "loop K fd sfd k1 = Some r \<or> snd r = k1"
      using run unfolding eq poll by (auto split: if_splits)
    then have "unmoved sent_on opened k1 (snd r)" using IH [of K fd sfd k1 r] by auto
    with poll_unmoved [OF poll] show "unmoved sent_on opened k (snd r)" by (rule unmoved_trans)
  qed
  then show ?thesis by simp
qed

text \<open>From here on the request only listens.\<close>

lemma logic_relay_result:
  assumes "logic_relay K E fd sfd cliRes s = Some (Ret a s')"
  shows "unmoved sent_on opened (lg_os s) (lg_os s') \<and> lg_storageCl s' = lg_storageCl s
    \<and> lg_begin_ts s' = lg_begin_ts s"
proof -
  from assms obtain there k where w: "wait_answer K fd sfd (lg_os s) = Some (there, k)"
    by (auto simp: logic_relay_def split: option.splits)
  note w1 = wait_answer_unmoved [OF w]
  show ?thesis
  proof (cases there)
    case False
    with assms w w1 show ?thesis by (auto simp: logic_relay_def give_def)
  next
    case True
    with assms w obtain ret m k1 where read: "ReadOneMsg_to K E sfd Msg_init k = Ret (ret, m) k1"
      and s': "s' = s\<lparr>lg_os := k1\<rparr> \<or> s' = s\<lparr>lg_os := k1, lg_kill_trans := True\<rparr>"
      by (cases "ReadOneMsg_to K E sfd Msg_init k")
        (auto simp: logic_relay_def in_os_def give_killed_def give_def Let_def split: if_splits)
    have "unmoved sent_on opened k k1" using ReadOneMsg_to_unmoved [of k sfd Msg_init] by (simp add: read)
    with unmoved_trans w1 s' show ?thesis by fastforce
  qed
qed

text \<open>
  A key request reaches the server of its hash, after a request to begin if it is the first there, and
  nobody else; or the connection is given up.
\<close>

lemma logic_key_result:
  assumes run: "logic_key K E cfg fd cliReq cliRes s = Some (Ret a s')"
    and ts: "lg_begin_ts s \<noteq> []" and h: "GetHash (cq_key cliReq) (int (length (config_host cfg))) = Inr h"
  obtains cl' k1 r where
    "getFd K E (lg_begin_ts s) (lg_cls s ! nat h) (lg_os s) = Some (Ret (r, cl') k1)"
    "lg_storageCl s' = map_option (\<lambda>_. (lg_cls s)[nat h := cl']) (lg_storageCl s)"
    "lg_begin_ts s' = lg_begin_ts s" "opened (lg_os s') = opened k1"
    "\<forall>g. g \<noteq> r \<longrightarrow> sent_on (lg_os s') g = sent_on k1 g"
    "lg_kill_trans s' \<or> 0 \<le> r \<and> sent_on (lg_os s') r = sent_on k1 r
       @ framed E (rpc_request_msg (key_request cliReq (lg_begin_ts s)))"
proof -
  let ?cls = "lg_cls s" and ?m = "rpc_request_msg (key_request cliReq (lg_begin_ts s))"
  from run ts h obtain r cl' k1 where
    get: "getFd K E (lg_begin_ts s) (?cls ! nat h) (lg_os s) = Some (Ret (r, cl') k1)"
    by (auto simp: logic_key_def Let_def bind_opt_eq_Ret split: option.splits outcome.splits)
  define s1 where "s1 = s\<lparr>lg_os := k1, lg_storageCl := map_option (\<lambda>_. ?cls[nat h := cl']) (lg_storageCl s)\<rparr>"
  have s1: "lg_os s1 = k1" "lg_begin_ts s1 = lg_begin_ts s"
    "lg_storageCl s1 = map_option (\<lambda>_. ?cls[nat h := cl']) (lg_storageCl s)" by (simp_all add: s1_def)
  have rest: "(if r < 0 then give_killed cliRes ''get storage socket err'' s1
      else bind_opt (send_to K E r ?m s1) (\<lambda>ret s.
        if ret \<noteq> 0 then give_killed cliRes ''SendMsg storage  err'' s
        else logic_relay K E fd r cliRes s)) = Some (Ret a s')"
    using run ts h get by (cases "r < 0") (simp_all add: logic_key_def Let_def s1_def)
  show thesis
  proof (cases "r < 0")
    case True
    with rest have "s' = s1\<lparr>lg_kill_trans := True\<rparr>" by (simp add: give_killed_def give_def)
    with get s1 show thesis by (intro that [of r cl' k1]) simp_all
  next
    case False
    with rest obtain ret where send: "send_to K E r ?m s1 = Some ret"
      by (cases "send_to K E r ?m s1") simp_all
    from send show thesis
    proof (cases rule: send_to_result)
      case (1 ret k2)
      show thesis
      proof (cases "ret = 0")
        case False
        with rest \<open>\<not> r < 0\<close> send 1(1) have "s' = s1\<lparr>lg_os := k2, lg_kill_trans := True\<rparr>"
          by (simp add: give_killed_def give_def)
        with get s1 1(2,3) show thesis by (intro that [of r cl' k1]) simp_all
      next
        case True
        with rest \<open>\<not> r < 0\<close> send 1(1) have "logic_relay K E fd r cliRes (s1\<lparr>lg_os := k2\<rparr>) = Some (Ret a s')"
          by simp
        from logic_relay_result [OF this] get s1 1(2,3) 1(4) [OF True] False \<open>\<not> r < 0\<close> show thesis
          by (intro that [of r cl' k1]) (simp_all add: unmoved_def)
      qed
    qed
  qed
qed

end

section \<open>What the connection's state keeps\<close>

text \<open>
  The array has an entry for each configured server, in their order. The descriptors in it are different
  and open. An entry is marked as begun only while a transaction is open, and then it is connected.
\<close>

definition array_ok :: "int set \<Rightarrow> Host list \<Rightarrow> bool \<Rightarrow> StorageCl list \<Rightarrow> bool" where
  "array_ok os hosts begun cls \<longleftrightarrow> map sc_host cls = hosts \<and> holds os cls
     \<and> (\<forall>cl\<in>set cls. sc_stat cl = 0 \<or> sc_stat cl = 1 \<and> 0 \<le> sc_fd cl \<and> begun)"

definition coord_inv :: "('k \<Rightarrow> int set) \<Rightarrow> Config \<Rightarrow> 'k logic \<Rightarrow> bool" where
  "coord_inv opened cfg s \<longleftrightarrow> (\<forall>cls. lg_storageCl s = Some cls
     \<longrightarrow> array_ok (opened (lg_os s)) (config_host cfg) (lg_begin_ts s \<noteq> []) cls)"

lemma tidy_array:
  assumes "tidy sent_on opened cls k cls' k'" and "array_ok (opened k) hosts b cls"
  shows "array_ok (opened k') hosts b cls'"
proof -
  from assms(1) have l: "list_all2 served cls cls'" by (simp add: tidy_def)
  have "sc_stat cl' = 0 \<or> sc_stat cl' = 1 \<and> 0 \<le> sc_fd cl' \<and> b" if cl': "cl' \<in> set cls'" for cl'
  proof -
    from l cl' obtain cl where "cl \<in> set cls" "served cl cl'"
      by (metis list_all2_conv_all_nth in_set_conv_nth)
    with assms(2) show ?thesis by (auto simp: array_ok_def served_def unused_closed_def)
  qed
  with assms list_served_host [OF l] show ?thesis by (simp add: array_ok_def tidy_def)
qed

lemma array_begun: "array_ok os hosts b cls \<Longrightarrow> b \<le> b' \<Longrightarrow> array_ok os hosts b' cls"
  by (auto simp: array_ok_def)

lemma array_not_begun: "array_ok os hosts b cls \<Longrightarrow> \<forall>cl\<in>set cls. sc_stat cl \<noteq> 1 \<Longrightarrow> array_ok os hosts b' cls"
  by (auto simp: array_ok_def)

lemma fds_append [simp]: "fds (xs @ ys) = fds xs @ fds ys"
  by (simp add: fds_def)

lemma holds_update:
  assumes "holds os cls" and i: "i < length cls"
    and "if 0 \<le> sc_fd (cls ! i) then sc_fd cl' = sc_fd (cls ! i) \<and> os' = os
      else if 0 \<le> sc_fd cl' then sc_fd cl' \<notin> os \<and> os' = insert (sc_fd cl') os else os' = os"
  shows "holds os' (cls[i := cl'])"
proof -
  obtain xs x ys where cls: "cls = xs @ x # ys" and xs: "length xs = i"
    using i id_take_nth_drop [OF i] by (metis length_take min.absorb4)
  have at: "cls ! i = x" "cls[i := cl'] = xs @ cl' # ys" using xs by (auto simp: cls)
  show ?thesis using assms(1,3) unfolding at unfolding cls
    by (auto simp: holds_def fds_Cons split: if_splits)
qed

lemma participants_distinct:
  assumes "array_ok os hosts b cls"
  shows "distinct (map sc_fd (filter takes_part cls))"
proof -
  have "distinct (fds xs) \<Longrightarrow> distinct (map sc_fd (filter takes_part xs))" for xs
    by (induction xs) (auto simp: fds_Cons takes_part_def in_fds split: if_splits)
  with assms show ?thesis by (simp add: array_ok_def holds_def)
qed

context coordinator
begin

lemma clock_inv: "clock K s = (ts, s') \<Longrightarrow> coord_inv opened cfg s \<Longrightarrow> coord_inv opened cfg s'"
  using clock_result [of s ts s'] same_varsD [of s s'] by (simp add: coord_inv_def)

lemma logic_begin_inv:
  assumes "logic_begin K cliRes s = Some (Ret a s')" and inv: "coord_inv opened cfg s"
  shows "coord_inv opened cfg s'"
proof (cases "lg_begin_ts s = []")
  case True
  obtain ts s1 where c: "clock K s = (ts, s1)" by fastforce
  with assms(1) True have s': "s' = s1\<lparr>lg_begin_ts := ts\<rparr>" by (simp add: logic_begin_def give_def)
  have "lg_begin_ts s1 = []" using clock_result [OF c] same_varsD [of s s1] True by simp
  with clock_inv [OF c inv] s' show ?thesis
    by (auto simp: coord_inv_def intro: array_begun)
qed (use assms in \<open>auto simp: logic_begin_def give_def\<close>)

lemma logic_commit_inv:
  assumes run: "logic_commit K E fd cliRes s = Some (Ret a s')" and inv: "coord_inv opened cfg s"
  shows "coord_inv opened cfg s'"
proof (cases "lg_begin_ts s = []")
  case True
  with assms show ?thesis by (simp add: logic_commit_def give_def)
next
  case False
  obtain rs code err where a: "a = (rs, code, err)" by (cases a)
  have d: "distinct (map sc_fd (filter takes_part (lg_cls s)))"
  proof (cases "lg_storageCl s")
    case (Some cls)
    with inv show ?thesis by (auto simp: coord_inv_def lg_cls_def intro: participants_distinct)
  qed (simp add: lg_cls_def)
  have ok: "array_ok (opened (lg_os s)) (config_host cfg) True (lg_cls s)" if "lg_storageCl s \<noteq> None"
    using that inv False by (auto simp: coord_inv_def lg_cls_def)
  from run [unfolded a] False d show ?thesis
  proof (cases rule: logic_commit_result)
    case (killed k)
    have "array_ok (opened (lg_os s')) (config_host cfg) True (lg_cls s')" if "lg_storageCl s' \<noteq> None"
      using tidy_array [OF killed(4)] ok that killed(5,6) by simp
    with killed(3) False show ?thesis by (auto simp: coord_inv_def lg_cls_def)
  next
    case (finished rq k)
    have "array_ok (opened (lg_os s')) (config_host cfg) True (lg_cls s')" if "lg_storageCl s' \<noteq> None"
      using tidy_array [OF finished(9)] ok that finished(10,11) by simp
    with finished(4) show ?thesis by (auto simp: coord_inv_def lg_cls_def intro: array_not_begun)
  qed
qed

lemma array_update:
  assumes "array_ok (opened k) hosts b cls" and i: "i < length cls" and "b"
    and get: "getFd K E ts (cls ! i) k = Some (Ret (r, cl') k')"
  shows "array_ok (opened k') hosts b (cls[i := cl'])"
proof -
  note g = getFd_result [OF get]
  have "sc_stat (cls ! i) = 0 \<or> sc_stat (cls ! i) = 1 \<and> 0 \<le> sc_fd (cls ! i)"
    using assms(1) i by (auto simp: array_ok_def)
  then have "sc_stat cl' = 0 \<or> sc_stat cl' = 1 \<and> 0 \<le> sc_fd cl'" using g by auto
  moreover have "map sc_host (cls[i := cl']) = map sc_host cls"
    using g i by (simp add: map_update list_update_same_conv)
  moreover have "holds (opened k') (cls[i := cl'])"
    using holds_update [OF _ i, of "opened k" cl' "opened k'"] assms(1) g by (auto simp: array_ok_def)
  ultimately show ?thesis using assms(1,3) set_update_subset_insert [of cls i cl']
    by (auto simp: array_ok_def)
qed

lemma logic_key_inv:
  assumes run: "logic_key K E cfg fd cliReq cliRes s = Some (Ret a s')" and inv: "coord_inv opened cfg s"
    and n: "length (config_host cfg) < 100"
  shows "coord_inv opened cfg s'"
proof (cases "lg_begin_ts s = []")
  case True
  with run inv show ?thesis by (simp add: logic_key_def give_def)
next
  case False
  with run obtain h where h: "GetHash (cq_key cliReq) (int (length (config_host cfg))) = Inr h"
    by (auto simp: logic_key_def split: sum.splits)
  from run False h show ?thesis
  proof (cases rule: logic_key_result)
    case (1 cl' k1 r)
    show ?thesis
    proof (cases "lg_storageCl s")
      case None
      with 1(2) show ?thesis by (simp add: coord_inv_def)
    next
      case (Some cls)
      with inv False have ok: "array_ok (opened (lg_os s)) (config_host cfg) True cls"
        by (auto simp: coord_inv_def)
      then have len: "length cls = length (config_host cfg)"
        by (auto simp: array_ok_def dest: arg_cong [of _ _ length])
      have "nat h < length cls"
      proof (cases "config_host cfg")
        case Nil
        with h show ?thesis by (simp add: GetHash_def)
      next
        case (Cons x xs)
        then have "0 < int (length (config_host cfg))" by simp
        with GetHash_eq [OF this, of "cq_key cliReq"] h n
          pos_mod_bound [OF this] pos_mod_sign [OF this] show ?thesis
          by (simp add: len nat_less_iff)
      qed
      from array_update [OF ok this _ 1(1) [unfolded lg_cls_def Some option.case]] 1(2-4) Some False
      show ?thesis by (simp add: coord_inv_def lg_cls_def)
    qed
  qed
qed

lemma logic_rollback_inv:
  assumes "logic_rollback K cliRes s = Some (Ret a s')" and "coord_inv opened cfg s"
  shows "coord_inv opened cfg s'"
  using assms by (auto simp: logic_rollback_def give_def Let_def coord_inv_def split: if_splits option.splits)

lemma logic_request_inv:
  assumes "logic_request K E cfg fd rq s = Some (Ret a s')" and "coord_inv opened cfg s"
    and "length (config_host cfg) < 100"
  shows "coord_inv opened cfg s'"
  using assms
  by (auto simp: logic_request_def Let_def give_def split: RequestType.splits
      intro: logic_begin_inv logic_commit_inv logic_rollback_inv logic_key_inv)

text \<open>The state of a connection keeps its invariant over the turns of the loop.\<close>

lemma coord_inv_os: "coord_inv opened cfg s \<Longrightarrow> opened k = opened (lg_os s) \<Longrightarrow> coord_inv opened cfg (s\<lparr>lg_os := k\<rparr>)"
  by (simp add: coord_inv_def)

lemma logic_respond_inv:
  assumes "logic_respond K E fd a s = Some (Ret e s')" and inv: "coord_inv opened cfg s"
  shows "coord_inv opened cfg s'"
proof -
  obtain cliRes code err where a: "a = (cliRes, code, err)" by (cases a)
  from assms(1) obtain r where send: "send_to K E fd (Msg_init\<lparr>msg_msg_type := MSG_Type_Cli_Response,
      msg_content := Cli_response (cliRes\<lparr>cs_result := word_of_int code, cs_err_msg := err\<rparr>)\<rparr>) s = Some r"
    by (auto simp: logic_respond_def a bind_opt_eq_Ret)
  from send show ?thesis
  proof (cases rule: send_to_result)
    case (1 ret k)
    with assms(1) send have "s' = s\<lparr>lg_os := k\<rparr>"
      by (auto simp: logic_respond_def a split: if_splits)
    with coord_inv_os [OF inv] 1(2) show ?thesis by simp
  qed
qed

lemma logic_turn_inv:
  assumes run: "logic_turn K E cfg fd s = Some (Ret e s')" and inv: "coord_inv opened cfg s"
  shows "coord_inv opened cfg s'"
proof -
  obtain i ev k1 where poll: "os_poll K (map sc_fd (lg_cls s) @ [fd]) 1000 (lg_os s) = (i, ev, k1)"
    by (metis prod_cases3)
  have n: "length (config_host cfg) < 100"
    using run by (auto simp: logic_turn_def split: if_splits)
  note inv1 = coord_inv_os [OF inv, of k1]
  have k1: "opened k1 = opened (lg_os s)" using poll_unmoved [OF poll] by (simp add: unmoved_def)
  obtain kill cls k2 where check: "check_storage K (lg_cls s) ev k1 = (kill, cls, k2)" by (metis prod_cases3)
  define s2 where "s2 = s\<lparr>lg_os := k2, lg_storageCl := map_option (\<lambda>_. cls) (lg_storageCl s),
    lg_kill_trans := lg_kill_trans s \<or> kill\<rparr>"
  have inv2: "coord_inv opened cfg s2"
    using inv k1 tidy_array [OF check_storage_tidy [OF check]]
    by (auto simp: coord_inv_def s2_def lg_cls_def)
  have cases: "e = Again \<and> s' = s\<lparr>lg_os := k1\<rparr> \<or> e = Leave \<and> s' = s2
    \<or> bind_opt (in_os (ReadOneMsg K E fd Msg_init k2) s2) (\<lambda>(msgType, msg) s.
        if msgType < 0 then Some (Ret Leave s)
        else if msgType = MsgType_number MSG_Type_Cli_Request then
          bind_opt (logic_request K E cfg fd (mutable_cli_request msg) s) (logic_respond K E fd)
        else Some (Ret Leave s)) = Some (Ret e s')"
    using run poll check
    by (auto simp: logic_turn_def Let_def s2_def split: if_splits)
  show ?thesis
  proof (cases "s' = s\<lparr>lg_os := k1\<rparr> \<or> s' = s2")
    case True
    with inv1 k1 inv2 show ?thesis by auto
  next
    case False
    with cases obtain t m k3 where read: "ReadOneMsg K E fd Msg_init k2 = Ret (t, m) k3"
      and rest: "(if t < 0 then Some (Ret Leave (s2\<lparr>lg_os := k3\<rparr>))
        else if t = MsgType_number MSG_Type_Cli_Request then
          bind_opt (logic_request K E cfg fd (mutable_cli_request m) (s2\<lparr>lg_os := k3\<rparr>)) (logic_respond K E fd)
        else Some (Ret Leave (s2\<lparr>lg_os := k3\<rparr>))) = Some (Ret e s')"
      by (cases "ReadOneMsg K E fd Msg_init k2") (auto simp: in_os_def)
    have "opened k3 = opened (lg_os s2)"
      using ReadOneMsg_unmoved [of k2 fd Msg_init] by (simp add: read unmoved_def s2_def)
    then have inv3: "coord_inv opened cfg (s2\<lparr>lg_os := k3\<rparr>)" by (rule coord_inv_os [OF inv2])
    with rest n show ?thesis
      by (auto simp: bind_opt_eq_Ret split: if_splits intro: logic_respond_inv logic_request_inv)
  qed
qed

end

interpretation memory: coordinator mem_os net_arriving written mem_env net_opened ..

end
