(* ===== verification/Connection.thy ===== *)
theory Connection
  imports Coordinator
begin

text \<open>
  What the coroutines of a storage server do with their descriptors: a connection waits for bytes, reads
  a request, sends the reply and closes; a resolver connects to another server, asks it and closes. The
  steps of \<open>Cluster\<close> leave this out, and a run of the detailed system is one of the cluster.
\<close>

section \<open>The resolver asks a server\<close>

text \<open>\<open>co_poll\<close> on no descriptor: a pause.\<close>

definition pause :: "'k os \<Rightarrow> nat \<Rightarrow> 'k \<Rightarrow> 'k" where
  "pause K ms k = (let (_, _, k) = os_poll K [] ms k in k)"

definition state_request :: "string \<Rightarrow> Msg" where
  "state_request begin_ts = Msg_init\<lparr>msg_msg_type := MSG_Type_TransState_Request,
     msg_content := Trans_state_request (TransStateReq_init\<lparr>tq_begin_ts := begin_ts\<rparr>)\<rparr>"

text \<open>
  The question to the host \<open>h\<close> in \<open>prepare_routine\<close>: its answer, or \<open>None\<close> after a failure. The descriptor is
  closed in every case, before the answer is looked at or by the branch for its state.
\<close>

definition ask_failed :: "'k os \<Rightarrow> int \<Rightarrow> 'k \<Rightarrow> (TransStateRes option, 'k) outcome" where
  "ask_failed K fd k = Ret None (pause K 500 (os_close K fd k))"

definition ask_host :: "'k os \<Rightarrow> ('d, 'j) env \<Rightarrow> Host \<Rightarrow> string \<Rightarrow> 'k
    \<Rightarrow> (TransStateRes option, 'k) outcome option" where
  "ask_host K E h begin_ts k =
     (let (fd, k) = Connect K (host_name h) (sint (host_port h)) k
      in if fd < 0 then Some (Ret None (pause K 1000 k))
         else case SendMsg K E fd (state_request begin_ts) k of
                None \<Rightarrow> None
              | Some (ret, k) \<Rightarrow>
                  if ret \<noteq> 0 then Some (ask_failed K fd k)
                  else Some (bind_out (ReadOneMsg K E fd Msg_init k) (\<lambda>(ret, resMsg) k.
                    if ret < 0 then ask_failed K fd k
                    else if ret \<noteq> MsgType_number MSG_Type_TransState_Response then ask_failed K fd k
                    else Ret (Some (mutable_trans_state_response resMsg)) (os_close K fd k))))"

section \<open>A connection and its descriptor\<close>

text \<open>Until \<open>co_poll\<close> reports something, an event or an error; \<open>None\<close> if that never happens.\<close>

partial_function (option) await_event :: "'k os \<Rightarrow> int \<Rightarrow> 'k \<Rightarrow> 'k option" where
  "await_event K fd k =
     (case os_poll K [fd] 1000 k of
        (ret, _, k) \<Rightarrow> if ret = 0 then await_event K fd k else Some k)"

declare await_event.simps [code]

definition read_request :: "'k os \<Rightarrow> ('d, 'j) env \<Rightarrow> int \<Rightarrow> Msg \<Rightarrow> 'k
    \<Rightarrow> (int \<times> Msg, 'k) outcome option" where
  "read_request K E fd m k =
     (case await_event K fd k of
        None \<Rightarrow> None
      | Some k \<Rightarrow> Some (ReadOneMsg K E fd m k))"

text \<open>
  A segment of the connection is over. After the end of the loop the descriptor is closed in the same
  segment, unless the clean-up dies.
\<close>

definition close_if_left :: "'k os \<Rightarrow> int \<Rightarrow> (reply \<times> session option, 's) outcome \<Rightarrow> 'k \<Rightarrow> 'k" where
  "close_if_left K fd r k =
     (case r of
        Ret (rep, None) _ \<Rightarrow> os_close K fd k
      | _ \<Rightarrow> k)"

text \<open>From a message that has been read, or a read that has failed, to the reply or the next wait.\<close>

definition handle_request :: "('d, 'j) env \<Rightarrow> string \<Rightarrow> int \<times> Msg \<Rightarrow> session \<Rightarrow> 'd node
    \<Rightarrow> (reply \<times> session option, 'd node) outcome option" where
  "handle_request E now got s st =
     (let (msgType, reqMsg) = got
      in if msgType < 0 then Some (hang_up E now (Ret (Hang_up, s) st))
         else map_option (hang_up E now) (serve_msg E now reqMsg s st))"

text \<open>A wait of 500 ms inside a request: it has passed, or something has happened on the connection.\<close>

definition handle_wait :: "('d, 'j) env \<Rightarrow> string \<Rightarrow> int \<Rightarrow> session \<Rightarrow> 'd node
    \<Rightarrow> (reply \<times> session option, 'd node) outcome option" where
  "handle_wait E now ret s st =
     map_option (hang_up E now)
       (if ret = 0 then serve_timeout E now s st else Some (serve_event s st))"

text \<open>\<open>Response\<close>: the reply is sent; \<open>True\<close> if the loop is left.\<close>

definition send_reply :: "'k os \<Rightarrow> ('d, 'j) env \<Rightarrow> int \<Rightarrow> Msg \<Rightarrow> 'k \<Rightarrow> (bool \<times> 'k) option" where
  "send_reply K E fd resMsg k =
     (case SendMsg K E fd resMsg k of
        None \<Rightarrow> None
      | Some (ret, k) \<Rightarrow> Some (ret < 0, k))"

section \<open>The cluster with its descriptors\<close>

text \<open>
  \<open>sy_os\<close> is the system as a server sees it, \<open>sy_link\<close> the descriptor of a connection and the reply that is
  being sent on it.
\<close>

record ('d, 'k) sys =
  sy_cluster :: "'d cluster"
  sy_os :: "uint32 \<Rightarrow> 'k"
  sy_link :: "uint32 \<Rightarrow> nat \<Rightarrow> (int \<times> Msg option) option"

definition set_link :: "uint32 \<Rightarrow> nat \<Rightarrow> (int \<times> Msg option) option \<Rightarrow> ('d, 'k) sys \<Rightarrow> ('d, 'k) sys" where
  "set_link h n l y = y\<lparr>sy_link := (sy_link y)(h := (sy_link y h)(n := l))\<rparr>"

definition set_os :: "uint32 \<Rightarrow> 'k \<Rightarrow> ('d, 'k) sys \<Rightarrow> ('d, 'k) sys" where
  "set_os h k y = y\<lparr>sy_os := (sy_os y)(h := k)\<rparr>"

definition set_cluster :: "'d cluster \<Rightarrow> ('d, 'k) sys \<Rightarrow> ('d, 'k) sys" where
  "set_cluster c y = y\<lparr>sy_cluster := c\<rparr>"

text \<open>What a segment leaves of the connection: a reply to send, the descriptor, or nothing.\<close>

definition link_after :: "int \<Rightarrow> (reply \<times> session option, 's) outcome \<Rightarrow> (int \<times> Msg option) option" where
  "link_after fd r =
     (case r of
        Ret (rep, Some s) _ \<Rightarrow> Some (fd, case rep of Reply m \<Rightarrow> Some m | _ \<Rightarrow> None)
      | _ \<Rightarrow> None)"

text \<open>
  The connection \<open>n\<close> of server \<open>h\<close> has ended a segment with \<open>r\<close>, for the message \<open>m\<close>; \<open>k\<close> is the system then.
\<close>

definition after_segment :: "'k os \<Rightarrow> uint32 \<Rightarrow> nat \<Rightarrow> int \<Rightarrow> Msg
    \<Rightarrow> (reply \<times> session option, 'd node) outcome \<Rightarrow> 'k \<Rightarrow> ('d, 'k) sys \<Rightarrow> ('d, 'k) sys" where
  "after_segment K h n fd m r k y =
     set_link h n (link_after fd r) (set_os h (close_if_left K fd r k)
       (set_cluster (settle h r (finish h n m) (sy_cluster y)) y))"

definition dead :: "uint32 \<Rightarrow> ('d, 'k) sys \<Rightarrow> ('d, 'k) sys" where
  "dead h y = set_cluster (set_down h (sy_cluster y)) y"

text \<open>
  Between two segments of one coroutine the others run, and whatever is outside the process goes on: \<open>others\<close>.
  That an answer which arrives from a host was given by that host is what a resolver has from the
  network.
\<close>

inductive sys_step :: "'k os \<Rightarrow> ('d, 'j) env \<Rightarrow> (string \<Rightarrow> Host list) \<Rightarrow> ('d, 'k) sys \<Rightarrow> ('d, 'k) sys \<Rightarrow> bool"
  for K E plan where
  accepted: "up (sy_cluster y) h \<Longrightarrow> conns (sy_cluster y) h n = None
    \<Longrightarrow> sys_step K E plan y (set_link h n (Some (fd, None))
          (set_cluster (set_conn h n (Some session_init) (sy_cluster y)) y))"
| read: "up (sy_cluster y) h \<Longrightarrow> conns (sy_cluster y) h n = Some s \<Longrightarrow> ss_pc s = Reading
    \<Longrightarrow> sy_link y h n = Some (fd, None) \<Longrightarrow> read_request K E fd m0 (sy_os y h) = Some (Ret got k)
    \<Longrightarrow> (rq_request_type (mutable_rpc_request (snd got)) = Req_Type_Prepare
          \<Longrightarrow> planned plan h (mutable_rpc_request (snd got)))
    \<Longrightarrow> handle_request E (GetTS sec usec) got s (nodes (sy_cluster y) h) = Some r
    \<Longrightarrow> sys_step K E plan y (after_segment K h n fd (snd got) r k y)"
| read_dies: "up (sy_cluster y) h \<Longrightarrow> conns (sy_cluster y) h n = Some s \<Longrightarrow> ss_pc s = Reading
    \<Longrightarrow> sy_link y h n = Some (fd, None) \<Longrightarrow> read_request K E fd m0 (sy_os y h) = Some (Abort e k)
    \<Longrightarrow> sys_step K E plan y (dead h y)"
| waited: "up (sy_cluster y) h \<Longrightarrow> conns (sy_cluster y) h n = Some s \<Longrightarrow> ss_pc s \<noteq> Reading
    \<Longrightarrow> sy_link y h n = Some (fd, None) \<Longrightarrow> os_poll K [fd] 500 (sy_os y h) = (ret, ev, k)
    \<Longrightarrow> handle_wait E (GetTS sec usec) ret s (nodes (sy_cluster y) h) = Some r
    \<Longrightarrow> sys_step K E plan y (after_segment K h n fd Msg_init r k y)"
| replied: "up (sy_cluster y) h \<Longrightarrow> conns (sy_cluster y) h n = Some s
    \<Longrightarrow> sy_link y h n = Some (fd, Some m) \<Longrightarrow> send_reply K E fd m (sy_os y h) = Some (False, k)
    \<Longrightarrow> sys_step K E plan y (set_link h n (Some (fd, None)) (set_os h k y))"
| cut: "up (sy_cluster y) h \<Longrightarrow> conns (sy_cluster y) h n = Some s
    \<Longrightarrow> sy_link y h n = Some (fd, Some m) \<Longrightarrow> send_reply K E fd m (sy_os y h) = Some (True, k)
    \<Longrightarrow> sys_step K E plan y (after_segment K h n fd Msg_init
          (hang_up E (GetTS sec usec) (Ret (Hang_up, s) (nodes (sy_cluster y) h))) k y)"
| asked: "up (sy_cluster y) h \<Longrightarrow> pt_pc (node_tasks (nodes (sy_cluster y) h) t) = Querying rv
    \<Longrightarrow> ask_host K E (tl_host (rv_list rv ! rv_i rv)) (rv_begin_ts rv) (sy_os y h) = Some (Ret res k)
    \<Longrightarrow> (\<And>a. res = Some a
          \<Longrightarrow> (hash_id (tl_host (rv_list rv ! rv_i rv)), rv_begin_ts rv, a) \<in> sent (sy_cluster y))
    \<Longrightarrow> sys_step K E plan y (set_os h k (set_cluster (settle h
          (prepare_answer E (GetTS sec usec) t rv res (nodes (sy_cluster y) h)) (\<lambda>_ c. c) (sy_cluster y)) y))"
| ask_dies: "up (sy_cluster y) h \<Longrightarrow> pt_pc (node_tasks (nodes (sy_cluster y) h) t) = Querying rv
    \<Longrightarrow> ask_host K E (tl_host (rv_list rv ! rv_i rv)) (rv_begin_ts rv) (sy_os y h) = Some (Abort e k)
    \<Longrightarrow> sys_step K E plan y (dead h y)"
| others: "sys_step K E plan y (set_os h k y)"
| dies: "up (sy_cluster y) h \<Longrightarrow> sys_step K E plan y (dead h y)"
| restarts: "\<not> up (sy_cluster y) h
    \<Longrightarrow> sys_step K E plan y (set_cluster (settle h
          (startUpClean E (prepare_resume E (GetTS sec usec)) (boot (nodes (sy_cluster y) h)))
          (\<lambda>_ c. c\<lparr>up := (up c)(h := True)\<rparr>) (sy_cluster y)) y)"

inductive sys_reachable :: "'k os \<Rightarrow> ('d, 'j) env \<Rightarrow> (string \<Rightarrow> Host list) \<Rightarrow> ('d, 'k) sys \<Rightarrow> bool"
  for K E plan where
  start: "initial E (sy_cluster y) \<Longrightarrow> sys_reachable K E plan y"
| more: "sys_reachable K E plan y \<Longrightarrow> sys_step K E plan y y' \<Longrightarrow> sys_reachable K E plan y'"

section \<open>The detailed system runs as the cluster does\<close>

lemma sys_simps [simp]:
  "sy_cluster (set_link h n l y) = sy_cluster y" "sy_cluster (set_os h k y) = sy_cluster y"
  "sy_cluster (set_cluster c y) = c" "sy_link (set_os h k y) = sy_link y" "sy_link (set_cluster c y) = sy_link y"
  "sy_cluster (after_segment K h n fd m r k y) = settle h r (finish h n m) (sy_cluster y)"
  "sy_cluster (dead h y) = set_down h (sy_cluster y)" "sy_link (dead h y) = sy_link y"
  by (simp_all add: set_link_def set_os_def set_cluster_def after_segment_def dead_def)

lemma sy_link_set: "sy_link (set_link h n l y) g i = (if g = h \<and> i = n then l else sy_link y g i)"
  by (simp add: set_link_def)

lemma sy_link_after: "sy_link (after_segment K h n fd m r k y) g i
    = (if g = h \<and> i = n then link_after fd r else sy_link y g i)"
  by (simp add: after_segment_def sy_link_set)

text \<open>A connection with a reply to send is one that reads next.\<close>

definition sending_reads :: "('d, 'k) sys \<Rightarrow> bool" where
  "sending_reads y \<longleftrightarrow> (\<forall>h n s fd m. conns (sy_cluster y) h n = Some s
     \<longrightarrow> sy_link y h n = Some (fd, Some m) \<longrightarrow> ss_pc s = Reading)"

lemma conns_settle_finish:
  "conns (settle h r (finish h n m) c) g i =
     (case r of
        Ret a st \<Rightarrow> if g = h \<and> i = n then snd a else conns c g i
      | Abort e st \<Rightarrow> if g = h then None else conns c g i)"
  by (cases r) (simp_all add: finish_def set_conn_def set_down_def set_node_def)

lemma after_segment_sending:
  assumes "sending_reads y" and "stays_on r0 \<or> (\<exists>s st. r0 = Ret (Hang_up, s) st)" and "r = hang_up E now r0"
  shows "sending_reads (after_segment K h n fd m r k y)"
  unfolding sending_reads_def sys_simps
proof (intro allI impI)
  fix g i s fd' m'
  assume c: "conns (settle h r (finish h n m) (sy_cluster y)) g i = Some s"
    and l: "sy_link (after_segment K h n fd m r k y) g i = Some (fd', Some m')"
  show "ss_pc s = Reading"
  proof (cases "g = h \<and> i = n")
    case False
    with c l assms(1) show ?thesis
      by (auto simp: conns_settle_finish sy_link_after sending_reads_def split: outcome.splits if_splits)
  next
    case True
    with c l obtain rep st where r: "r = Ret (rep, Some s) st" "rep = Reply m'"
      by (auto simp: conns_settle_finish sy_link_after link_after_def split: outcome.splits option.splits
          reply.splits)
    then have "r0 = Ret (Reply m', s) st"
      using assms(3) by (cases r0) (auto simp: hang_up_def bind_out_eq_Ret split: if_splits)
    with assms(2) show ?thesis by auto
  qed
qed

text \<open>Leaving the loop is what \<open>Cluster\<close> calls closing.\<close>

lemma settle_left:
  "settle h (hang_up E now (Ret (Hang_up, s) st)) (finish h n m) c
    = settle h (serve_close E now s st) (\<lambda>_. set_conn h n None) c"
  by (cases "serve_close E now s st") (simp_all add: hang_up_def finish_def told_def set_conn_def)

lemma handle_request_step:
  assumes "up c h" "conns c h n = Some s" "ss_pc s = Reading"
    and "rq_request_type (mutable_rpc_request (snd got)) = Req_Type_Prepare
      \<Longrightarrow> planned plan h (mutable_rpc_request (snd got))"
    and "handle_request E (GetTS sec usec) got s (nodes c h) = Some r"
  shows "step E plan c (settle h r (finish h n (snd got)) c)
    \<and> (\<exists>r0. r = hang_up E (GetTS sec usec) r0 \<and> (stays_on r0 \<or> (\<exists>s st. r0 = Ret (Hang_up, s) st)))"
proof (cases "fst got < 0")
  case True
  with assms(5) have "r = hang_up E (GetTS sec usec) (Ret (Hang_up, s) (nodes c h))"
    by (auto simp: handle_request_def split: prod.splits)
  moreover have "step E plan c (settle h r (finish h n (snd got)) c)"
    unfolding calculation settle_left by (rule step.close [OF assms(1-3)])
  ultimately show ?thesis by blast
next
  case False
  with assms(5) obtain r0 where r0: "serve_msg E (GetTS sec usec) (snd got) s (nodes c h) = Some r0"
    "r = hang_up E (GetTS sec usec) r0"
    by (auto simp: handle_request_def split: prod.splits)
  have "stays_on r0 \<or> (\<exists>s st. r0 = Ret (Hang_up, s) st)"
  proof (cases "msg_msg_type (snd got) \<in> {MSG_Type_Rpc_Request, MSG_Type_TransState_Request}")
    case True
    with serve_msg_stays_on [OF r0(1) True assms(3)] show ?thesis by blast
  next
    case False
    with r0(1) show ?thesis by (cases "msg_msg_type (snd got)") (auto simp: serve_msg_def)
  qed
  with step.request [OF assms(1-4) r0(1)] r0(2) show ?thesis by blast
qed

lemma handle_wait_step:
  assumes "up c h" "conns c h n = Some s" "ss_pc s \<noteq> Reading"
    and "handle_wait E (GetTS sec usec) ret s (nodes c h) = Some r"
  shows "step E plan c (settle h r (finish h n Msg_init) c)
    \<and> (\<exists>r0. r = hang_up E (GetTS sec usec) r0 \<and> stays_on r0)"
proof (cases "ret = 0")
  case True
  with assms(4) obtain r0 where r0: "serve_timeout E (GetTS sec usec) s (nodes c h) = Some r0"
    "r = hang_up E (GetTS sec usec) r0"
    by (auto simp: handle_wait_def)
  with step.timeout [OF assms(1-3) r0(1)] serve_timeout_stays_on [OF r0(1) assms(3)] show ?thesis by blast
next
  case False
  with assms(4) step.event [OF assms(1-3)] show ?thesis by (auto simp: handle_wait_def)
qed

lemma sending_other:
  assumes "sending_reads y" and "sy_link y' = sy_link y"
    and "\<And>h n s. conns (sy_cluster y') h n = Some s \<Longrightarrow> conns (sy_cluster y) h n = Some s"
  shows "sending_reads y'"
  using assms unfolding sending_reads_def by metis

lemma conns_down: "conns (set_down h c) g n = (if g = h then None else conns c g n)"
  by (simp add: set_down_def)

lemma sys_step_refines:
  assumes "sys_step K E plan y y'" and inv: "sending_reads y"
  shows "(sy_cluster y' = sy_cluster y \<or> step E plan (sy_cluster y) (sy_cluster y')) \<and> sending_reads y'"
  using assms(1)
proof cases
  case (accepted h n fd)
  have "sending_reads y'"
    using inv unfolding accepted(1) sending_reads_def
    by (auto simp: sy_link_set set_conn_def split: if_splits)
  with step.connect [OF accepted(2,3)] show ?thesis unfolding accepted(1) sys_simps by blast
next
  case (read h n s fd m0 got k sec usec r)
  note step = handle_request_step [OF read(2,3,4,7,8)]
  then obtain r0 where r0: "stays_on r0 \<or> (\<exists>s st. r0 = Ret (Hang_up, s) st)"
    "r = hang_up E (GetTS sec usec) r0" by blast
  from step after_segment_sending [OF inv r0] show ?thesis unfolding read(1) sys_simps by blast
next
  case (read_dies h n s fd m0 e k)
  have "sending_reads y'"
    by (rule sending_other [OF inv]) (simp_all add: read_dies(1) conns_down split: if_splits)
  with step.die [OF read_dies(2)] show ?thesis unfolding read_dies(1) sys_simps by blast
next
  case (waited h n s fd ret ev k sec usec r)
  note step = handle_wait_step [OF waited(2,3,4,7)]
  then obtain r0 where r0: "stays_on r0" "r = hang_up E (GetTS sec usec) r0" by blast
  from step after_segment_sending [OF inv disjI1 [OF r0(1)] r0(2)] show ?thesis
    unfolding waited(1) sys_simps by blast
next
  case (replied h n s fd m k)
  then show ?thesis using inv by (auto simp: sending_reads_def sy_link_set split: if_splits)
next
  case (cut h n s fd m k sec usec)
  have "ss_pc s = Reading" using inv cut(3,4) by (simp add: sending_reads_def)
  from step.close [OF cut(2,3) this] after_segment_sending [OF inv] show ?thesis
    unfolding cut(1) sys_simps settle_left by blast
next
  case (asked h t rv res k sec usec)
  have "sending_reads y'"
    by (rule sending_other [OF inv]) (auto simp: asked(1) dest: conns_settle_other [rotated])
  moreover have "step E plan (sy_cluster y) (sy_cluster y')"
    unfolding asked(1) sys_simps using asked(2,3,5) by (intro step.answer) (cases res, auto)
  ultimately show ?thesis by blast
next
  case (ask_dies h t rv e k)
  have "sending_reads y'"
    by (rule sending_other [OF inv]) (simp_all add: ask_dies(1) conns_down split: if_splits)
  with step.die [OF ask_dies(2)] show ?thesis unfolding ask_dies(1) sys_simps by blast
next
  case (others h k)
  then show ?thesis using inv by (simp add: sending_reads_def)
next
  case (dies h)
  have "sending_reads y'"
    by (rule sending_other [OF inv]) (simp_all add: dies(1) conns_down split: if_splits)
  with step.die [OF dies(2)] show ?thesis unfolding dies(1) sys_simps by blast
next
  case (restarts h sec usec)
  have "sending_reads y'"
    by (rule sending_other [OF inv]) (auto simp: restarts(1) dest: conns_settle_other [rotated])
  with step.restart [OF restarts(2)] show ?thesis unfolding restarts(1) sys_simps by blast
qed

lemma sys_reachable_refines:
  "sys_reachable K E plan y \<Longrightarrow> reachable E plan (sy_cluster y) \<and> sending_reads y"
proof (induction rule: sys_reachable.induct)
  case (start y)
  then show ?case by (auto simp: initial_def sending_reads_def intro: reachable.start)
next
  case (more y y')
  from sys_step_refines [OF more(2)] more(3) show ?case by (metis reachable.more)
qed

section \<open>The descriptors of the two sides\<close>

text \<open>What a resolver makes of a message it has read.\<close>

definition ask_answer :: "'k os \<Rightarrow> int \<Rightarrow> int \<times> Msg \<Rightarrow> 'k \<Rightarrow> (TransStateRes option, 'k) outcome" where
  "ask_answer K fd got k =
     (if fst got = MsgType_number MSG_Type_TransState_Response
      then Ret (Some (mutable_trans_state_response (snd got))) (os_close K fd k)
      else ask_failed K fd k)"

context coordinator
begin

lemma pause_unmoved: "unmoved sent_on opened k (pause K ms k)"
  using poll_unmoved by (auto simp: pause_def split: prod.splits)

text \<open>The answer, or none: every path but a crash closes what it opened.\<close>

lemma ask_failed_opened: "ask_failed K fd k = Ret res k' \<Longrightarrow> opened k' = opened k - {fd}"
  using pause_unmoved [of "os_close K fd k" 500] close_opened [of fd k]
  by (auto simp: ask_failed_def unmoved_def)

lemma ask_failed_sent: "sent_on (state_of (ask_failed K fd k)) = sent_on k"
  using pause_unmoved [of "os_close K fd k" 500] close_sent [of fd k]
  by (auto simp: ask_failed_def unmoved_def)

lemma ask_host_sent:
  assumes "Connect K (host_name h) (sint (host_port h)) k = (fd, k1)" and "0 \<le> fd"
    and "SendMsg K E fd (state_request ts) k1 = Some (w, k2)"
  shows "ask_host K E h ts k = Some (if w \<noteq> 0 then ask_failed K fd k2
    else bind_out (ReadOneMsg K E fd Msg_init k2) (ask_answer K fd))"
proof -
  have "(\<lambda>(ret, resMsg) k. if ret < 0 then ask_failed K fd k
      else if ret \<noteq> MsgType_number MSG_Type_TransState_Response then ask_failed K fd k
      else Ret (Some (mutable_trans_state_response resMsg)) (os_close K fd k)) = ask_answer K fd"
    by (auto simp: fun_eq_iff ask_answer_def)
  with assms show ?thesis by (simp add: ask_host_def)
qed

lemma ask_answer_clean:
  "(ask_answer K fd got k = Ret res k' \<longrightarrow> opened k' = opened k - {fd})
    \<and> sent_on (state_of (ask_answer K fd got k)) = sent_on k"
  by (auto simp: ask_answer_def close_opened close_sent ask_failed_sent dest: ask_failed_opened)

lemma ask_host_clean:
  "\<exists>r. ask_host K E h ts k = Some r
    \<and> (\<forall>res k'. r = Ret res k' \<longrightarrow> opened k' = opened k)
    \<and> (\<forall>g\<in>opened k. sent_on (state_of r) g = sent_on k g)"
proof -
  obtain fd k1 where c: "Connect K (host_name h) (sint (host_port h)) k = (fd, k1)" by fastforce
  note open1 = Connect_opens [OF c] and sent1 = Connect_sent [OF c]
  show ?thesis
  proof (cases "fd < 0")
    case True
    with c open1 sent1 pause_unmoved [of k1 1000] show ?thesis by (simp add: ask_host_def unmoved_def)
  next
    case False
    obtain w k2 where s: "SendMsg K E fd (state_request ts) k1 = Some (w, k2)"
      using SendMsg_returns by blast
    have fd: "fd \<notin> opened k" and open2: "opened k2 = insert fd (opened k)"
      using SendMsg_opened [OF s] open1 False by simp_all
    have sent2: "sent_on k2 g = sent_on k g" if "g \<in> opened k" for g
      using SendMsg_sends [OF s] sent1 fd that by (metis (no_types))
    note run = ask_host_sent [OF c _ s]
    show ?thesis
    proof (cases "w = 0")
      case True
      note read = ReadOneMsg_unmoved [of k2 fd Msg_init]
      show ?thesis
      proof (cases "ReadOneMsg K E fd Msg_init k2")
        case (Ret got k3)
        with read ask_answer_clean [of fd got k3] fd open2 sent2 run True False show ?thesis
          by (auto simp: unmoved_def)
      next
        case (Abort e k3)
        with read sent2 run True False show ?thesis by (simp add: unmoved_def)
      qed
    qed (use run False fd open2 sent2 in \<open>auto simp: ask_failed_sent dest: ask_failed_opened\<close>)
  qed
qed

text \<open>Waiting for a request takes nothing away from it.\<close>

lemma await_event_unmoved:
  assumes "await_event K fd k = Some k'"
  shows "arriving k' = arriving k \<and> unmoved sent_on opened k k'"
proof -
  have "K = K \<longrightarrow> arriving k' = arriving k \<and> unmoved sent_on opened k k'"
  proof (rule await_event.raw_induct [where P = "\<lambda>K' fd k k'. K' = K
      \<longrightarrow> arriving k' = arriving k \<and> unmoved sent_on opened k k'", OF _ assms], intro impI)
    fix wait K' fd k k'
    assume IH: "\<And>K' fd k k'. wait K' fd k = Some k' \<Longrightarrow> K' = K
        \<longrightarrow> arriving k' = arriving k \<and> unmoved sent_on opened k k'"
      and [simp]: "K' = K"
      and run: "(case os_poll K' [fd] 1000 k of (ret, _, k) \<Rightarrow> if ret = 0 then wait K' fd k else Some k) = Some k'"
    obtain ret ev k1 where poll: "os_poll K [fd] 1000 k = (ret, ev, k1)" by (metis prod_cases3)
    note one = poll_frame [OF poll] poll_unmoved [OF poll]
    show "arriving k' = arriving k \<and> unmoved sent_on opened k k'"
    proof (cases "ret = 0")
      case True
      with run poll have "wait K fd k1 = Some k'" by simp
      with IH have "arriving k' = arriving k1 \<and> unmoved sent_on opened k1 k'" by blast
      with one show ?thesis by (simp add: unmoved_trans)
    qed (use run poll one in auto)
  qed
  then show ?thesis by simp
qed

end

end
