(* ===== verification/Exchange.thy ===== *)
theory Exchange
  imports Connection Runs Wire
begin

text \<open>
  The properties of the servers with their descriptors: they run as the cluster does, a resolver that asks
  leaves no descriptor behind, and a question and its answer go through the connection between two servers.
\<close>

section \<open>The answering side\<close>

text \<open>The reply to a question about a transaction.\<close>

lemma serve_state_request:
  assumes "serve_msg E now (state_request ts) s st = Some (Ret (Reply rep, s') st')"
  obtains a where "rep = trans_state_msg a" "told g (state_request ts) (Reply rep) = {(g, ts, a)}"
proof -
  from assms have "serve_trans_state E (TransStateReq_init\<lparr>tq_begin_ts := ts\<rparr>) s st
      = Ret (Reply rep, s') st'"
    by (simp add: serve_msg_def state_request_def)
  then obtain a where "rep = trans_state_msg a"
    by (auto simp: serve_trans_state_def parsed_eq Let_def split: prod.splits if_splits fetched.splits)
  with that show thesis by (simp add: told_def trans_state_msg_def state_request_def)
qed

section \<open>A request that arrives in pieces\<close>

definition demo_begin :: Msg where
  "demo_begin = rpc_request (RpcReq_init\<lparr>rq_begin_ts := ''ts9''\<rparr>)"

text \<open>Server 1 runs and has accepted a connection on which a request to begin arrives.\<close>

definition demo_sys :: "'d cluster \<Rightarrow> ('d, net) sys" where
  "demo_sys c = \<lparr>sy_cluster = c,
     sy_os = (\<lambda>_. demo_arriving (frame (Msg2JsonStr mem_env (pb_Msg mem_env) demo_begin))),
     sy_link = (\<lambda>_. Map.empty)\<rparr>"

lemma demo_reads: "length (Msg2JsonStr mem_env (pb_Msg mem_env) demo_begin) < 2 ^ 31 - 1"
proof -
  have "length (Msg2JsonStr mem_env (pb_Msg mem_env) demo_begin) < 1000"
    unfolding demo_begin_def by code_simp
  then show ?thesis by simp
qed

lemma demo_begin_runs:
  "map_option (\<lambda>c. state_at c 1) (schedule mem_env demo_plan (begin_at 1) demo_cluster)
    = Some (Some (TransStateBegin, 0))"
  by code_simp

lemma demo_await [simp]: "polls k = [] \<Longrightarrow> await_event mem_os fd k = Some k"
  by (subst await_event.simps) (simp add: mem_os_def net_poll_def)

text \<open>The detailed system takes the three steps of that run.\<close>

lemma demo_sys_runs:
  obtains y where "sys_reachable mem_os mem_env demo_plan y"
    "schedule mem_env demo_plan (begin_at 1) demo_cluster = Some (sy_cluster y)"
    "state_at (sy_cluster y) 1 = Some (TransStateBegin, 0)"
proof -
  obtain c1 c2 c3 where c1: "perform mem_env demo_plan (Restart 1 0 0) demo_cluster = Some c1"
    and c2: "perform mem_env demo_plan (Connect 1 0) c1 = Some c2"
    and c3: "perform mem_env demo_plan (Request 1 0 demo_begin 0 0) c2 = Some c3"
    and at: "state_at c3 1 = Some (TransStateBegin, 0)"
    using demo_begin_runs
    by (auto simp: begin_at_def demo_begin_def split: Option.bind_splits simp del: perform.simps)
  let ?y0 = "demo_sys demo_cluster" and ?y1 = "set_cluster c1 (demo_sys demo_cluster)"
  have 0: "sys_reachable mem_os mem_env demo_plan ?y0"
    by (rule sys_reachable.start) (simp add: demo_sys_def demo_cluster_initial)
  have "sys_step mem_os mem_env demo_plan ?y0 ?y1"
    using c1 sys_step.restarts [of ?y0 1 mem_os mem_env demo_plan 0 0]
    by (simp add: demo_sys_def split: if_splits)
  with 0 have 1: "sys_reachable mem_os mem_env demo_plan ?y1" by (rule sys_reachable.more)
  let ?y2 = "set_link 1 0 (Some (7, None)) (set_cluster c2 ?y1)"
  have "sys_step mem_os mem_env demo_plan ?y1 ?y2"
    using c2 sys_step.accepted [of ?y1 1 0 mem_os mem_env demo_plan 7] by (auto split: if_splits)
  with 1 have 2: "sys_reachable mem_os mem_env demo_plan ?y2" by (rule sys_reachable.more)
  from c3 obtain s r where s: "up c2 1" "conns c2 1 0 = Some s" "ss_pc s = Reading"
    and p: "rq_request_type (mutable_rpc_request demo_begin) = Req_Type_Prepare
      \<longrightarrow> planned demo_plan 1 (mutable_rpc_request demo_begin)"
    and r: "serve_msg mem_env (GetTS 0 0) demo_begin s (nodes c2 1) = Some r"
    "c3 = settle 1 (hang_up mem_env (GetTS 0 0) r) (finish 1 0 demo_begin) c2"
    by (auto split: option.splits if_splits)
  let ?text = "Msg2JsonStr mem_env (pb_Msg mem_env) demo_begin" and ?k = "sy_os ?y2 1"
  have k: "?k = demo_arriving (frame ?text)" by (simp add: set_link_def set_cluster_def demo_sys_def)
  have arr: "net_arriving ?k 7 = frame ?text @ []"
    unfolding k by (simp add: arriving_demo)
  obtain k' where "ReadOneMsg mem_os mem_env 7 Msg_init ?k = Ret (MsgType_number (msg_msg_type demo_begin), demo_begin) k'"
    using memory.ReadOneMsg_frame [OF arr demo_reads] by blast
  then have read: "read_request mem_os mem_env 7 Msg_init ?k
      = Some (Ret (MsgType_number (msg_msg_type demo_begin), demo_begin) k')"
    by (simp add: read_request_def k demo_arriving_def net_init_def)
  have h: "handle_request mem_env (GetTS 0 0) (MsgType_number (msg_msg_type demo_begin), demo_begin) s
      (nodes c2 1) = Some (hang_up mem_env (GetTS 0 0) r)"
    using r(1) by (cases "msg_msg_type demo_begin") (simp_all add: handle_request_def)
  let ?y3 = "after_segment mem_os 1 0 7 demo_begin (hang_up mem_env (GetTS 0 0) r) k' ?y2"
  have "sys_step mem_os mem_env demo_plan ?y2 ?y3"
    using sys_step.read [of ?y2 1 0 s 7 mem_os mem_env Msg_init _ k' demo_plan 0 0, OF _ _ _ _ read] s p h
    by (simp add: sy_link_set)
  with 2 have "sys_reachable mem_os mem_env demo_plan ?y3" by (rule sys_reachable.more)
  moreover have "schedule mem_env demo_plan (begin_at 1) demo_cluster = Some (sy_cluster ?y3)"
    using c1 c2 c3 r(2) by (simp add: begin_at_def demo_begin_def del: perform.simps)
  moreover have "state_at (sy_cluster ?y3) 1 = Some (TransStateBegin, 0)" using at r(2) by simp
  ultimately show thesis by (rule that)
qed

section \<open>A question to a small store\<close>

text \<open>The reply of a server that holds the open transaction \<open>ts4\<close>, and a network that delivers it.\<close>

definition demo_reply :: Msg where
  "demo_reply = trans_state_msg (TransStateRes_init\<lparr>ts_result := 0, ts_trans_stat := TransStateBegin\<rparr>)"

definition demo_asking :: net where
  "demo_asking = net_init\<lparr>listeners := [(SetAddr mem_os (Some ''b'') 2,
     [frame (Msg2JsonStr mem_env (pb_Msg mem_env) demo_reply)])]\<rparr>"

definition demo_asked :: net where
  "demo_asked = demo_asking\<lparr>next_fd := 1,
     chunks := (chunks demo_asking)(3 := [frame (Msg2JsonStr mem_env (pb_Msg mem_env) demo_reply)])\<rparr>"

lemma demo_connect:
  "Network.Connect mem_os (host_name (demo_hosts ! 1)) (sint (host_port (demo_hosts ! 1))) demo_asking
    = (3, demo_asked)"
  by (simp add: Connect_def demo_hosts_def mem_os_def net_socket_def net_connect_def demo_asking_def
      demo_asked_def net_init_def SetAddr_def Let_def)

lemma demo_serves:
  "serve_msg mem_env ''ts7'' (state_request ''ts4'') session_init demo_node
    = Some (Ret (Reply demo_reply, session_init) demo_node)"
proof -
  have "fetch mem_env (pb_Trans mem_env) Trans_init demo_node (makeTrans ''ts4'') = Found Trans_init"
    using demo_fetch(5) by (simp add: fetch_Trans_def demo_node_def fetch_extend)
  then obtain v where "Get_db mem_env demo_node (makeTrans ''ts4'') = (kOk, v)"
    "decode mem_env (pb_Trans mem_env) Trans_init v = Found Trans_init"
    by (cases rule: fetch_cases [where E = mem_env and st = demo_node and key = "makeTrans ''ts4''"
          and c = "pb_Trans mem_env" and ?m0.0 = Trans_init]) auto
  then show ?thesis
    by (simp add: serve_msg_def state_request_def serve_trans_state_def parsed_eq demo_reply_def Trans_init_def)
qed

lemma demo_lengths:
  "length (Msg2JsonStr mem_env (pb_Msg mem_env) (state_request ''ts4'')) < 2 ^ 31 - 1"
  "length (Msg2JsonStr mem_env (pb_Msg mem_env) demo_reply) < 2 ^ 31 - 1"
proof -
  have "length (Msg2JsonStr mem_env (pb_Msg mem_env) (state_request ''ts4'')) < 1000"
    "length (Msg2JsonStr mem_env (pb_Msg mem_env) demo_reply) < 1000"
    by code_simp+
  then show "length (Msg2JsonStr mem_env (pb_Msg mem_env) (state_request ''ts4'')) < 2 ^ 31 - 1"
    "length (Msg2JsonStr mem_env (pb_Msg mem_env) demo_reply) < 2 ^ 31 - 1" by simp_all
qed

section \<open>Properties\<close>



text \<open>
  C26: a resolver's question comes back. Whatever the system does, asking a host returns or kills the process;
  when it returns, the descriptors that are open are those that were open before, and nothing has been
  written to any of them.
\<close>

theorem asking_leaks_nothing:
  assumes "coordinator K arriving sent_on E opened"
  shows "\<exists>r. ask_host K E h ts k = Some r
    \<and> (\<forall>res k'. r = Ret res k' \<longrightarrow> opened k' = opened k)
    \<and> (\<forall>g\<in>opened k. sent_on (state_of r) g = sent_on k g)"
  by (rule coordinator.ask_host_clean [OF assms])

theorem asking_leaks_nothing_witness:
  "\<exists>r. ask_host mem_os mem_env (demo_hosts ! 1) ''ts9'' net_init = Some r"
  using asking_leaks_nothing [OF memory.coordinator_axioms] by blast

text \<open>
  C22: question and answer. When a peer reads what a resolver has written and the resolver what the peer has
  written, the peer gets the question about the transaction, and the resolver gets exactly the answer the
  peer gave about it, the one the cluster records as told.
\<close>

theorem state_exchange:
  assumes "coordinator K arriving sent_on E opened"
    and "Network.Connect K (host_name h) (sint (host_port h)) k = (fd, k1)" and "0 \<le> fd"
    and "SendMsg K E fd (state_request ts) k1 = Some (0, k2)"
    and "sent_on k2 fd = sent_on k1 fd @ question"
    and "arriving kp fdp = question @ rest" and "await_event K fdp kp = Some kq"
    and "serve_msg E now (state_request ts) s st = Some (Ret (Reply rep, s') st')"
    and "SendMsg K E fdp rep kr = Some (0, ks)" and "sent_on ks fdp = sent_on kr fdp @ reply"
    and "arriving k2 fd = reply @ rest'"
    and "length (Msg2JsonStr E (pb_Msg E) (state_request ts)) < 2 ^ 31 - 1"
    and "length (Msg2JsonStr E (pb_Msg E) rep) < 2 ^ 31 - 1"
  shows "\<exists>a kp' k'. read_request K E fdp m0 kp
      = Some (Ret (MsgType_number MSG_Type_TransState_Request, state_request ts) kp')
    \<and> arriving kp' fdp = rest
    \<and> ask_host K E h ts k = Some (Ret (Some a) k') \<and> opened k' = opened k
    \<and> told g (state_request ts) (Reply rep) = {(g, ts, a)}"
proof -
  note wire = coordinator.axioms(1) [OF assms(1)]
  have q: "question = frame (Msg2JsonStr E (pb_Msg E) (state_request ts))"
    using wire.SendMsg_sends [OF wire assms(4)] assms(5) by simp
  have r: "reply = frame (Msg2JsonStr E (pb_Msg E) rep)"
    using wire.SendMsg_sends [OF wire assms(9)] assms(10) by simp
  have "arriving kq fdp = frame (Msg2JsonStr E (pb_Msg E) (state_request ts)) @ rest"
    using coordinator.await_event_unmoved [OF assms(1,7)] assms(6) q by simp
  from wire.ReadOneMsg_frame [OF wire this assms(12)] assms(7) obtain kp' where
    peer: "read_request K E fdp m0 kp
        = Some (Ret (MsgType_number MSG_Type_TransState_Request, state_request ts) kp')" "arriving kp' fdp = rest"
    by (auto simp: read_request_def state_request_def)
  obtain a where a: "rep = trans_state_msg a" "told g (state_request ts) (Reply rep) = {(g, ts, a)}"
    using serve_state_request [OF assms(8)] by metis
  obtain k3 where k3: "ReadOneMsg K E fd Msg_init k2 = Ret (MsgType_number (msg_msg_type rep), rep) k3"
    using wire.ReadOneMsg_frame [OF wire _ assms(13)] assms(11) r by blast
  have "ask_host K E h ts k = Some (Ret (Some a) (os_close K fd k3))"
    using coordinator.ask_host_sent [OF assms(1-4)] k3 a(1)
    by (simp add: ask_answer_def trans_state_msg_def)
  with coordinator.ask_host_clean [OF assms(1), of h ts k] peer a(2) show ?thesis by auto
qed

theorem state_exchange_witness:
  "\<exists>a k'. ask_host mem_os mem_env (demo_hosts ! 1) ''ts4'' demo_asking = Some (Ret (Some a) k')
    \<and> net_opened k' = net_opened demo_asking
    \<and> told 2 (state_request ''ts4'') (Reply demo_reply) = {(2, ''ts4'', a)}"
proof -
  define q where "q = frame (Msg2JsonStr mem_env (pb_Msg mem_env) (state_request ''ts4''))"
  define r where "r = frame (Msg2JsonStr mem_env (pb_Msg mem_env) demo_reply)"
  obtain k2 where k2: "SendMsg mem_os mem_env 3 (state_request ''ts4'') demo_asked = Some (0, k2)"
    "written k2 3 = written demo_asked 3 @ q" "net_arriving k2 3 = r @ []"
    by (simp add: SendMsg_def SendBuff.simps mem_os_def net_write_def demo_asked_def demo_asking_def net_init_def
        q_def r_def net_arriving_def)
  have peer: "net_arriving (demo_arriving q) 7 = q @ []"
    by (simp add: arriving_demo q_def)
  have wait: "await_event mem_os 7 (demo_arriving q) = Some (demo_arriving q)"
    by (simp add: demo_arriving_def net_init_def)
  obtain ks where ks: "SendMsg mem_os mem_env 7 demo_reply net_init = Some (0, ks)" "written ks 7 = written net_init 7 @ r"
    by (simp add: demo_send r_def) (simp add: net_init_def)
  from state_exchange [OF memory.coordinator_axioms demo_connect _ k2(1,2) peer wait demo_serves ks k2(3)
    demo_lengths, of Msg_init 2] show ?thesis by auto
qed

end
