(* ===== verification/Coordination.thy ===== *)
theory Coordination
  imports Coordinator Runs
begin

text \<open>
  The properties of the coordinator: its answer to a commit and the requests to prepare it sends, that a
  commit is answered, where a request for a key goes, the invariant of a connection, and what a rollback
  leaves.
\<close>

section \<open>A commit is answered\<close>

lemma bind_opt_returns:
  assumes "m = Some r" and "\<And>a s. r = Ret a s \<Longrightarrow> \<exists>r'. k a s = Some r'"
  shows "\<exists>r'. bind_opt m k = Some r'"
  using assms by (cases r) simp_all

text \<open>A system whose \<open>co_poll\<close> reports some connected storage server whenever it is asked about one.\<close>

definition answering :: "'k os \<Rightarrow> bool" where
  "answering K \<longleftrightarrow> (\<forall>fds fd k i ev k'. os_poll K (fds @ [fd]) 1000 k = (i, ev, k')
     \<longrightarrow> (\<exists>j<length fds. 0 < fds ! j)
     \<longrightarrow> i \<noteq> 0 \<and> (\<exists>j<length fds. 0 < fds ! j \<and> j < length ev \<and> ev ! j))"

text \<open>What is left to happen in an array: a round with an event makes it less.\<close>

definition weight :: "StorageCl list \<Rightarrow> nat" where
  "weight cls = (\<Sum>cl\<leftarrow>cls. of_bool (sc_stat cl \<noteq> 0) + of_bool (0 < sc_fd cl))"

lemma weight_Cons [simp]:
  "weight (cl # cls) = of_bool (sc_stat cl \<noteq> 0) + of_bool (0 < sc_fd cl) + weight cls"
  by (simp add: weight_def)

lemma collect_prepared_weight:
  assumes "collect_prepared K E cls ev k = Ret (True, cls') k'"
  shows "weight cls' \<le> weight cls
    \<and> ((\<exists>j<length cls. 0 < sc_fd (cls ! j) \<and> j < length ev \<and> ev ! j) \<longrightarrow> weight cls' < weight cls)
    \<and> ((\<forall>cl\<in>set cls. sc_stat cl = 1 \<longrightarrow> 0 < sc_fd cl) \<longrightarrow> (\<forall>cl\<in>set cls'. sc_stat cl = 1 \<longrightarrow> 0 < sc_fd cl))"
  using assms
proof (induction cls arbitrary: ev k cls' k')
  case Nil
  then show ?case by simp
next
  case (Cons cl cls)
  have at: "(\<exists>j<length (cl # cls). 0 < sc_fd ((cl # cls) ! j) \<and> j < length ev \<and> ev ! j)
      \<longleftrightarrow> has_event cl ev \<or> (\<exists>j<length cls. 0 < sc_fd (cls ! j) \<and> j < length (tl ev) \<and> tl ev ! j)"
    by (cases ev) (auto simp: has_event_def less_Suc_eq_0_disj)
  from Cons.prems obtain cl1 cls1 k1 where rest: "collect_prepared K E cls (tl ev) k1 = Ret (True, cls1) k'"
    and cls': "cls' = cl1 # cls1"
    and cl1: "if has_event cl ev then 0 < sc_fd cl \<and>
        (sc_stat cl = 0 \<and> cl1 = unused_closed cl \<or> sc_stat cl \<noteq> 0 \<and> cl1 = cl\<lparr>sc_stat := 0\<rparr>) else cl1 = cl"
    by (auto simp: bind_out_eq_Ret has_event_def split: if_splits)
  from Cons.IH [OF rest] cl1 show ?case
    unfolding at cls' by (auto simp: unused_closed_def split: if_splits)
qed

lemma wait_prepared_returns:
  assumes "answering K" and "\<forall>cl\<in>set cls. sc_stat cl = 1 \<longrightarrow> 0 < sc_fd cl"
  shows "\<exists>r. wait_prepared K E fd cls k = Some r"
  using assms(2)
proof (induction "weight cls" arbitrary: cls k rule: less_induct)
  case less
  show ?case
  proof (cases "\<forall>cl\<in>set cls. sc_stat cl \<noteq> 1")
    case True
    then show ?thesis by (simp add: wait_prepared.simps)
  next
    case False
    then obtain j where j: "j < length cls" "0 < sc_fd (cls ! j)"
      using less.prems by (metis in_set_conv_nth)
    obtain i ev k1 where poll: "os_poll K (map sc_fd cls @ [fd]) 1000 k = (i, ev, k1)" by (metis prod_cases3)
    have "i \<noteq> 0 \<and> (\<exists>j<length cls. 0 < sc_fd (cls ! j) \<and> j < length ev \<and> ev ! j)"
      using assms(1) [unfolded answering_def, rule_format, OF poll] j by force
    then have event: "i \<noteq> 0" "\<exists>j<length cls. 0 < sc_fd (cls ! j) \<and> j < length ev \<and> ev ! j" by auto
    show ?thesis
    proof (cases "collect_prepared K E cls ev k1")
      case (Abort c k2)
      with False event(1) poll show ?thesis by (simp add: wait_prepared.simps [of K E fd cls])
    next
      case (Ret a k2)
      obtain good cls1 where a: "a = (good, cls1)" by fastforce
      show ?thesis
      proof (cases good)
        case True
        with Ret a have "collect_prepared K E cls ev k1 = Ret (True, cls1) k2" by simp
        note w = collect_prepared_weight [OF this]
        then obtain r where "wait_prepared K E fd cls1 k2 = Some r"
          using less.hyps [of cls1 k2] less.prems event(2) by blast
        with False event(1) poll Ret a True show ?thesis by (simp add: wait_prepared.simps [of K E fd cls])
      next
        case bad: False
        with False event(1) poll Ret a show ?thesis by (simp add: wait_prepared.simps [of K E fd cls])
      qed
    qed
  qed
qed

context coordinator
begin

lemma send_prepares_vars: "send_prepares K E m cls s = Some (Ret good s') \<Longrightarrow> same_vars s s'"
proof (induction cls arbitrary: s)
  case (Cons cl cls)
  show ?case
  proof (cases "takes_part cl")
    case True
    with Cons.prems obtain ret k where "send_to K E (sc_fd cl) m s = Some (Ret ret (s\<lparr>lg_os := k\<rparr>))"
      by (cases "SendMsg K E (sc_fd cl) m (lg_os s)") (auto simp: send_to_def)
    with Cons True show ?thesis
      using same_vars_trans [OF same_vars_os [of s k]] by (auto split: if_splits)
  qed (use Cons in simp)
qed (simp add: same_vars_def)

lemma send_prepares_returns: "\<exists>r. send_prepares K E m cls s = Some r"
proof (induction cls arbitrary: s)
  case (Cons cl cls)
  obtain r k where "SendMsg K E (sc_fd cl) m (lg_os s) = Some (r, k)" using SendMsg_returns by blast
  with Cons show ?case by (simp add: send_to_def)
qed simp

end

text \<open>The states in which the loop of the connection \<open>fd\<close> begins a turn.\<close>

inductive turns :: "'k os \<Rightarrow> ('d, 'j) env \<Rightarrow> Config \<Rightarrow> int \<Rightarrow> 'k \<Rightarrow> 'k logic \<Rightarrow> bool"
  for K E cfg fd k where
  start: "turns K E cfg fd k (logic_open cfg k)"
| turn: "turns K E cfg fd k s \<Longrightarrow> logic_turn K E cfg fd s = Some (Ret Again s')
    \<Longrightarrow> turns K E cfg fd k s'"

lemma participants_of_inv:
  assumes "coord_inv opened cfg s"
  shows "distinct (map sc_fd (filter takes_part (lg_cls s)))"
proof (cases "lg_storageCl s")
  case (Some cls)
  with assms show ?thesis by (auto simp: coord_inv_def lg_cls_def intro: participants_distinct)
qed (simp add: lg_cls_def)

section \<open>A connection over the concrete system\<close>

lemma memory_answers: "polls k = [] \<Longrightarrow> os_poll mem_os fs ms k = (int (length fs), replicate (length fs) True, k)"
  by (simp add: mem_os_def net_poll_def)

text \<open>The same system where \<open>co_poll\<close> always finds every descriptor ready.\<close>

definition ready_os :: "net os" where
  "ready_os = mem_os\<lparr>os_poll := (\<lambda>fs _ k. (int (length fs), replicate (length fs) True, k))\<rparr>"

lemma ready_os_simps [simp]:
  "os_socket ready_os = os_socket mem_os" "os_reuse ready_os = os_reuse mem_os"
  "os_bind ready_os = os_bind mem_os" "os_connect ready_os = os_connect mem_os"
  "os_close ready_os = os_close mem_os" "os_read ready_os = os_read mem_os"
  "os_write ready_os = os_write mem_os" "os_time ready_os = os_time mem_os"
  "os_poll ready_os fs ms k = (int (length fs), replicate (length fs) True, k)"
  by (simp_all add: ready_os_def)

interpretation ready: coordinator ready_os net_arriving written mem_env net_opened
  by (unfold_locales; (unfold ready_os_simps)?)
    (auto intro: memory.read_bound memory.read_some memory.read_end memory.read_frame
      memory.write_some memory.write_frame memory.opened_pos memory.close_opened memory.connect_bad
      dest: memory.write_bound memory.write_progress memory.socket_new memory.socket_failed
        memory.read_sent memory.write_arriving memory.reuse_opened memory.bind_opened
        memory.connect_opened memory.connect_result memory.socket_sent memory.connect_sent
        memory.time_sent memory.read_opened memory.write_opened memory.time_opened
      simp: memory.close_sent memory.close_opened)

lemma ready_answers: "answering ready_os"
  by (force simp: answering_def nth_Cons split: nat.splits simp del: replicate.simps)

text \<open>
  A transaction has begun on both servers of \<open>demo_hosts\<close>; each connection has an answer on its way.
\<close>

definition demo_reply :: string where
  "demo_reply = frame (Msg2JsonStr mem_env (pb_Msg mem_env)
     (Msg_init\<lparr>msg_msg_type := MSG_Type_Rpc_Response, msg_content := Rpc_response RpcRes_init\<rparr>))"

definition demo_logic :: "net logic" where
  "demo_logic = \<lparr>lg_os = net_init\<lparr>chunks := (\<lambda>_. [demo_reply]), next_fd := 2\<rparr>,
     lg_begin_ts = ''ts9'', lg_start_ts = [],
     lg_storageCl = Some [\<lparr>sc_fd = 3, sc_stat = 1, sc_host = demo_hosts ! 0\<rparr>,
       \<lparr>sc_fd = 4, sc_stat = 1, sc_host = demo_hosts ! 1\<rparr>],
     lg_kill_trans = False\<rparr>"

definition demo_config :: Config where
  "demo_config = Config_init\<lparr>config_host := demo_hosts\<rparr>"

lemma demo_logic_inv: "coord_inv net_opened demo_config demo_logic"
  by (auto simp: coord_inv_def demo_logic_def array_ok_def holds_def fds_def net_opened_def
      demo_config_def demo_hosts_def net_init_def)

lemma demo_logic_commit_runs:
  "\<exists>rs err s'. logic_commit mem_os mem_env 9 CliRes_init demo_logic = Some (Ret (rs, 0, err) s')"
proof -
  have "(case logic_commit mem_os mem_env 9 CliRes_init demo_logic of
      Some (Ret (_, c, _) _) \<Rightarrow> c = 0 | _ \<Rightarrow> False)"
    by code_simp
  then show ?thesis by (auto split: option.splits outcome.splits)
qed

lemma demo_key_runs:
  "(case logic_key mem_os mem_env demo_config 9 (CliReq_init\<lparr>cq_request_type := Req_Type_Get, cq_key := ''k''\<rparr>)
      CliRes_init demo_logic of
    Some (Ret _ s') \<Rightarrow> \<not> lg_kill_trans s' \<and> sc_stat (lg_cls s' ! 1) = 1 \<and> sc_fd (lg_cls s' ! 1) = 4
    | _ \<Rightarrow> False)"
  by code_simp

section \<open>Properties\<close>

text \<open>The servers the transaction of a connection has begun on: connected, and \<open>stat\<close> set.\<close>

definition begun_on :: "'k logic \<Rightarrow> StorageCl list" where
  "begun_on s = filter (\<lambda>cl. 0 < sc_fd cl \<and> sc_stat cl = 1) (lg_cls s)"

lemma begun_on_eq: "begun_on s = filter takes_part (lg_cls s)"
proof -
  have "takes_part = (\<lambda>cl. 0 < sc_fd cl \<and> sc_stat cl = 1)" by (rule ext) (simp add: takes_part_def)
  then show ?thesis by (simp add: begun_on_def)
qed

text \<open>
  C7: the requests to prepare. When a commit is answered with success, the same request to prepare
  has been written, once, to every server the transaction has begun on and to nobody else; it names
  exactly those servers as participants, so each of them is asked what its peers are asked.
\<close>

theorem commit_asks_planned:
  assumes "coordinator K arriving sent_on E opened" and "coord_inv opened cfg s"
    and "lg_begin_ts s \<noteq> []" and "logic_commit K E fd cliRes s = Some (Ret (rs, 0, err) s')"
  shows "\<exists>rq. rq_request_type rq = Req_Type_Prepare \<and> rq_begin_ts rq = lg_begin_ts s
    \<and> (\<forall>g. sent_on (lg_os s') g = sent_on (lg_os s) g
         @ (if g \<in> sc_fd ` set (begun_on s) then framed E (rpc_request_msg rq) else []))
    \<and> (\<forall>cl\<in>set (begun_on s).
         planned (\<lambda>_. map sc_host (begun_on s)) (hash_id (sc_host cl)) rq)"
proof (cases rule: coordinator.logic_commit_result
    [OF assms(1,4,3) participants_of_inv [OF assms(2)], case_names killed finished])
  case (finished rq k)
  then have "planned (\<lambda>_. map sc_host (begun_on s)) (hash_id (sc_host cl)) rq"
    if "cl \<in> set (begun_on s)" for cl
    using that by (auto simp: planned_def begun_on_eq)
  with finished(5,6,8) show ?thesis unfolding begun_on_eq by blast
qed simp_all

theorem commit_asks_planned_witness:
  "\<exists>rs err s' rq. logic_commit mem_os mem_env 9 CliRes_init demo_logic = Some (Ret (rs, 0, err) s')
    \<and> rq_request_type rq = Req_Type_Prepare
    \<and> written (lg_os s') 3 = framed mem_env (rpc_request_msg rq)
    \<and> written (lg_os s') 4 = framed mem_env (rpc_request_msg rq) \<and> written (lg_os s') 5 = []"
proof -
  obtain rs err s' where run: "logic_commit mem_os mem_env 9 CliRes_init demo_logic = Some (Ret (rs, 0, err) s')"
    using demo_logic_commit_runs by blast
  have op: "lg_begin_ts demo_logic \<noteq> []" by (simp add: demo_logic_def)
  have d: "sc_fd ` set (begun_on demo_logic) = {3, 4}"
    "written (lg_os demo_logic) = (\<lambda>_. [])"
    by (simp_all add: demo_logic_def lg_cls_def begun_on_def net_init_def)
  from commit_asks_planned [OF memory.coordinator_axioms demo_logic_inv op run]
  obtain rq where rq: "rq_request_type rq = Req_Type_Prepare"
    and sent: "\<forall>g. written (lg_os s') g = written (lg_os demo_logic) g
      @ (if g \<in> sc_fd ` set (begun_on demo_logic)
         then framed mem_env (rpc_request_msg rq) else [])"
    by blast
  have "written (lg_os s') 3 = framed mem_env (rpc_request_msg rq)"
    "written (lg_os s') 4 = framed mem_env (rpc_request_msg rq)" "written (lg_os s') 5 = []"
    using sent [rule_format, of 3, unfolded d] sent [rule_format, of 4, unfolded d]
      sent [rule_format, of 5, unfolded d] by simp_all
  with run rq show ?thesis by blast
qed

text \<open>
  C31: how a commit ends. Its code is 0 or 1. With 0 the transaction is closed and no server is left in
  it; with 1 none was open and nothing happened, or the connection to the client is given up.
\<close>

theorem commit_ends:
  assumes "coordinator K arriving sent_on E opened" and "coord_inv opened cfg s"
    and "logic_commit K E fd cliRes s = Some (Ret (rs, code, err) s')"
  shows "(code = 0 \<and> lg_begin_ts s \<noteq> [] \<and> lg_begin_ts s' = [] \<and> (\<forall>cl\<in>set (lg_cls s'). sc_stat cl = 0))
    \<or> (code = 1 \<and> (lg_begin_ts s = [] \<and> s' = s \<or> lg_kill_trans s'))"
proof (cases "lg_begin_ts s = []")
  case True
  with assms(3) show ?thesis by (simp add: logic_commit_def give_def)
next
  case False
  have inv: "coord_inv opened cfg s'" by (rule coordinator.logic_commit_inv [OF assms(1,3,2)])
  show ?thesis
  proof (cases rule: coordinator.logic_commit_result
      [OF assms(1,3) False participants_of_inv [OF assms(2)], case_names killed finished])
    case (finished rq k)
    have "sc_stat cl = 0" if "cl \<in> set (lg_cls s')" for cl
    proof (cases "lg_storageCl s'")
      case None
      with that show ?thesis by (simp add: lg_cls_def)
    next
      case (Some cls)
      with that inv finished(4) show ?thesis by (auto simp: coord_inv_def array_ok_def lg_cls_def)
    qed
    with finished False show ?thesis by blast
  qed simp
qed

theorem commit_ends_witness:
  "\<exists>rs err s'. logic_commit mem_os mem_env 9 CliRes_init demo_logic = Some (Ret (rs, 0, err) s')
    \<and> lg_begin_ts s' = []"
proof -
  obtain rs err s' where run: "logic_commit mem_os mem_env 9 CliRes_init demo_logic = Some (Ret (rs, 0, err) s')"
    using demo_logic_commit_runs by blast
  from commit_ends [OF memory.coordinator_axioms demo_logic_inv run] run show ?thesis by auto
qed







text \<open>
  C32: a rollback of the coordinator. It deletes the array of connections and leaves the variable
  pointing to it: the next turn of the loop reads the deleted array, and the end of the connection
  deletes it a second time.
\<close>

theorem rollback_undefined:
  assumes "lg_begin_ts s \<noteq> []" and "logic_rollback K cliRes s = Some (Ret a s')"
    and "config_host cfg \<noteq> []" and "length (config_host cfg) < 100"
  shows "logic_turn K E cfg fd s' = Some (Abort Use_after_delete s')
    \<and> (\<exists>s''. logic_close K fd s' = Abort Use_after_delete s'')"
  using assms by (auto simp: logic_rollback_def logic_turn_def logic_close_def give_def Let_def
      split: option.splits)

theorem rollback_undefined_witness:
  "\<exists>a s'. logic_rollback mem_os CliRes_init demo_logic = Some (Ret a s')
    \<and> logic_turn mem_os mem_env demo_config 9 s' = Some (Abort Use_after_delete s')"
proof -
  obtain a s' where run: "logic_rollback mem_os CliRes_init demo_logic = Some (Ret a s')"
    by (simp add: logic_rollback_def demo_logic_def give_def)
  have "lg_begin_ts demo_logic \<noteq> []" by (simp add: demo_logic_def)
  from rollback_undefined [OF this run, where cfg = demo_config and E = mem_env and fd = 9] run show ?thesis
    by (cases a) (auto simp: demo_config_def demo_hosts_def)
qed

end
