(* ===== verification/Client.thy ===== *)
theory Client
  imports Coordinator Clib
begin

text \<open>
  \<open>client.cpp\<close>: the interactive client. It waits for the server and for a line of the user, turns a line
  into a request, and sends one request at a time. What it prints is kept as a list of lines, without
  the lines of the log.
\<close>

section \<open>Reading a line\<close>

text \<open>\<open>sscanf\<close> with up to \<open>n\<close> conversions \<open>%s\<close>.\<close>

fun scan_words :: "nat \<Rightarrow> string \<Rightarrow> string list" where
  "scan_words 0 s = []"
| "scan_words (Suc n) s =
     (let s = dropWhile is_space s
      in if s = [] then []
         else takeWhile (\<lambda>c. \<not> is_space c) s # scan_words n (dropWhile (\<lambda>c. \<not> is_space c) s))"

text \<open>
  What \<open>read\<close> has put into the cleared buffer of 1000 bytes is scanned as a C string, which has no end
  if all of it was filled; a word and its final zero byte go into an array of 100.
\<close>

definition read_args :: "string \<Rightarrow> crash + string list" where
  "read_args input =
     (if length input \<ge> 1000 \<and> CHR 0x00 \<notin> set input then Inl Buffer_overread
      else let args = scan_words 4 (takeWhile (\<lambda>c. c \<noteq> CHR 0x00) input)
           in if \<exists>w\<in>set args. length w \<ge> 100 then Inl Buffer_overrun else Inr args)"

section \<open>Commands\<close>

datatype command = Request_cmd CliReq | Hash_cmd string int | Usage_cmd

definition parse_command :: "string list \<Rightarrow> command" where
  "parse_command args =
     (let n = length args; a = args ! 0; rq = CliReq_init
      in if (a = ''begin'' \<or> a = ''b'') \<and> n = 1 then
           Request_cmd (rq\<lparr>cq_request_type := Req_Type_Begin\<rparr>)
         else if (a = ''commit'' \<or> a = ''c'') \<and> n = 1 then
           Request_cmd (rq\<lparr>cq_request_type := Req_Type_Commit\<rparr>)
         else if (a = ''rollback'' \<or> a = ''r'') \<and> n = 1 then
           Request_cmd (rq\<lparr>cq_request_type := Req_Type_Rollback\<rparr>)
         else if (a = ''get'' \<or> a = ''g'') \<and> n = 2 then
           Request_cmd (rq\<lparr>cq_request_type := Req_Type_Get, cq_key := args ! 1\<rparr>)
         else if (a = ''get_for_update'' \<or> a = ''gf'') \<and> n = 2 then
           Request_cmd (rq\<lparr>cq_request_type := Req_Type_Get, cq_key := args ! 1, cq_get_for_update := 1\<rparr>)
         else if (a = ''update'' \<or> a = ''u'') \<and> n = 3 then
           Request_cmd (rq\<lparr>cq_request_type := Req_Type_Update, cq_key := args ! 1, cq_value := args ! 2\<rparr>)
         else if (a = ''insert'' \<or> a = ''i'') \<and> n = 3 then
           Request_cmd (rq\<lparr>cq_request_type := Req_Type_Insert, cq_key := args ! 1, cq_value := args ! 2\<rparr>)
         else if (a = ''delete'' \<or> a = ''d'') \<and> n = 2 then
           Request_cmd (rq\<lparr>cq_request_type := Req_Type_Delete, cq_key := args ! 1\<rparr>)
         else if a = ''hash'' \<and> n = 3 then Hash_cmd (args ! 1) (to_int (atol (args ! 2)))
         else Usage_cmd)"

definition usage_lines :: "string list" where
  "usage_lines = [''usage:'', ''begin'', ''get key'', ''get_for_update key'', ''delete key'',
     ''update key data'', ''insert key data'', ''commit'', ''rollback'', ''hash key size'', []]"

section \<open>The loop\<close>

record 'k client =
  ct_os :: 'k
  ct_fd :: int
  ct_waitRecvFlg :: bool
  ct_out :: "string list"

datatype client_end = Goes_on | Exits int

definition print_lines :: "string list \<Rightarrow> 'k client \<Rightarrow> 'k client" where
  "print_lines ls s = s\<lparr>ct_out := ct_out s @ ls\<rparr>"

definition printUsage :: "'k client \<Rightarrow> 'k client" where
  "printUsage s = print_lines usage_lines s"

text \<open>A message of the server, or the end of the connection, which is then opened again.\<close>

definition client_server :: "'k os \<Rightarrow> ('d, 'j) env \<Rightarrow> string \<Rightarrow> int \<Rightarrow> 'k client
    \<Rightarrow> (client_end, 'k client) outcome" where
  "client_server K E host port s =
     (let s = s\<lparr>ct_waitRecvFlg := False\<rparr>
      in bind_out (map_state (\<lambda>k. s\<lparr>ct_os := k\<rparr>) (ReadOneMsg K E (ct_fd s) Msg_init (ct_os s)))
        (\<lambda>(ret, resMsg) s.
           if ret < 0 then
             (let s = s\<lparr>ct_os := os_close K (ct_fd s) (ct_os s)\<rparr>;
                  (fd, k) = Connect K host port (ct_os s);
                  s = s\<lparr>ct_os := k, ct_fd := fd\<rparr>
              in if fd < 0 then Ret (Exits (- 1)) s else Ret Goes_on s)
           else Ret Goes_on (print_lines [Msg2JsonStr E (pb_Msg E) resMsg] s)))"

text \<open>A command of the user. \<open>None\<close> is a send that never ends.\<close>

definition client_command :: "'k os \<Rightarrow> ('d, 'j) env \<Rightarrow> command \<Rightarrow> 'k client
    \<Rightarrow> (client_end, 'k client) outcome option" where
  "client_command K E cmd s =
     (case cmd of
        Usage_cmd \<Rightarrow> Some (Ret Goes_on (printUsage s))
      | Hash_cmd key sz \<Rightarrow>
          (case GetHash key sz of
             Inl e \<Rightarrow> Some (Abort e s)
           | Inr h \<Rightarrow> Some (Ret Goes_on (print_lines [show_int h] s)))
      | Request_cmd rq \<Rightarrow>
          (case SendMsg K E (ct_fd s) (Msg_init\<lparr>msg_msg_type := MSG_Type_Cli_Request,
                 msg_content := Cli_request rq\<rparr>) (ct_os s) of
             None \<Rightarrow> None
           | Some (ret, k) \<Rightarrow>
               (let s = s\<lparr>ct_os := k\<rparr>
                in if ret \<noteq> 0 then Some (Ret Goes_on s)
                   else Some (Ret Goes_on (s\<lparr>ct_waitRecvFlg := True\<rparr>)))))"

definition client_input :: "'k os \<Rightarrow> ('d, 'j) env \<Rightarrow> 'k client
    \<Rightarrow> (client_end, 'k client) outcome option" where
  "client_input K E s =
     (let (r, k) = os_read K 0 1000 (ct_os s); s = s\<lparr>ct_os := k\<rparr>
      in case r of
           None \<Rightarrow> Some (Ret Goes_on s)
         | Some input \<Rightarrow>
             if ct_waitRecvFlg s then Some (Ret Goes_on s)
             else case read_args input of
                    Inl e \<Rightarrow> Some (Abort e s)
                  | Inr args \<Rightarrow>
                      if length args \<le> 0 then Some (Ret Goes_on (printUsage s))
                      else client_command K E (parse_command args) s)"

definition client_turn :: "'k os \<Rightarrow> ('d, 'j) env \<Rightarrow> string \<Rightarrow> int \<Rightarrow> 'k client
    \<Rightarrow> (client_end, 'k client) outcome option" where
  "client_turn K E host port s =
     (let (ret, ev, k) = os_poll K [0, ct_fd s] 1000 (ct_os s); s = s\<lparr>ct_os := k\<rparr>
      in if ret = 0 then Some (Ret Goes_on s)
         else if length ev > 1 \<and> ev ! 1 then Some (client_server K E host port s)
         else client_input K E s)"

text \<open>\<open>mainCoroutine\<close> up to its loop, and the loop, which only ends with the process.\<close>

definition client_connect :: "'k os \<Rightarrow> string list \<Rightarrow> 'k \<Rightarrow> client_end \<times> 'k client" where
  "client_connect K argv k =
     (let (fd, k) = Connect K (argv ! 1) (to_int (atol (argv ! 2))) k;
          s = \<lparr>ct_os = k, ct_fd = fd, ct_waitRecvFlg = False, ct_out = []\<rparr>
      in if fd < 0 then (Exits (- 1), s) else (Goes_on, s))"

text \<open>Turns of the loop, at most \<open>n\<close>: the state after them, or how the process ended before.\<close>

fun client_turns :: "nat \<Rightarrow> 'k os \<Rightarrow> ('d, 'j) env \<Rightarrow> string \<Rightarrow> int \<Rightarrow> 'k client
    \<Rightarrow> (client_end, 'k client) outcome option" where
  "client_turns 0 K E host port s = Some (Ret Goes_on s)"
| "client_turns (Suc n) K E host port s =
     bind_opt (client_turn K E host port s) (\<lambda>e s.
       if e = Goes_on then client_turns n K E host port s else Some (Ret e s))"

text \<open>\<open>main\<close> and the first \<open>n\<close> turns of its coroutine.\<close>

definition client_main :: "nat \<Rightarrow> 'k os \<Rightarrow> ('d, 'j) env \<Rightarrow> string list \<Rightarrow> 'k
    \<Rightarrow> (client_end, 'k client) outcome option" where
  "client_main n K E argv k =
     (if length argv \<noteq> 3
      then Some (Ret (Exits (- 1)) \<lparr>ct_os = k, ct_fd = - 1, ct_waitRecvFlg = False, ct_out = []\<rparr>)
      else
        (let (e, s) = client_connect K argv k
         in if e = Goes_on then client_turns n K E (argv ! 1) (to_int (atol (argv ! 2))) s
            else Some (Ret e s)))"

section \<open>Lemmas\<close>

text \<open>A word a line can carry, and the line of some words.\<close>

definition plain_word :: "string \<Rightarrow> bool" where
  "plain_word w \<longleftrightarrow> w \<noteq> [] \<and> length w < 100 \<and> (\<forall>c\<in>set w. \<not> is_space c \<and> c \<noteq> CHR 0x00)"

fun typed_line :: "string list \<Rightarrow> string" where
  "typed_line [] = [CHR 0x0A]"
| "typed_line (w # ws) = w @ CHR '' '' # typed_line ws"

lemma scan_word:
  assumes "plain_word w"
  shows "scan_words (Suc n) (w @ CHR '' '' # s) = w # scan_words n s"
proof -
  have w: "\<forall>c\<in>set w. \<not> is_space c" "w \<noteq> []" using assms by (auto simp: plain_word_def)
  then have "dropWhile is_space (w @ CHR '' '' # s) = w @ CHR '' '' # s" by (cases w) auto
  moreover have "takeWhile (\<lambda>c. \<not> is_space c) (w @ CHR '' '' # s) = w"
    "dropWhile (\<lambda>c. \<not> is_space c) (w @ CHR '' '' # s) = CHR '' '' # s"
    using w(1) by (induction w) (auto simp: is_space_def)
  moreover have "scan_words n (CHR '' '' # s) = scan_words n s"
    by (cases n) (simp_all add: is_space_def)
  ultimately show ?thesis using w(2) by (simp add: Let_def)
qed

lemma scan_typed_line:
  assumes "\<forall>w\<in>set ws. plain_word w" and "length ws \<le> n"
  shows "scan_words n (typed_line ws) = ws"
  using assms
proof (induction ws arbitrary: n)
  case Nil
  then show ?case by (cases n) (simp_all add: is_space_def)
next
  case (Cons w ws)
  then obtain m where n: "n = Suc m" by (cases n) auto
  have "scan_words n (typed_line (w # ws)) = w # scan_words m (typed_line ws)"
    unfolding n typed_line.simps by (rule scan_word) (use Cons.prems in simp)
  with Cons n show ?case by simp
qed

lemma typed_line_chars: "\<forall>w\<in>set ws. plain_word w \<Longrightarrow> CHR 0x00 \<notin> set (typed_line ws)"
  by (induction ws) (auto simp: plain_word_def)

lemma length_typed_line: "\<forall>w\<in>set ws. plain_word w \<Longrightarrow> length (typed_line ws) \<le> 100 * length ws + 1"
  by (induction ws) (auto simp: plain_word_def)

lemma read_typed_line:
  assumes ws: "\<forall>w\<in>set ws. plain_word w" and "length ws \<le> 4"
  shows "read_args (typed_line ws) = Inr ws"
proof -
  have cut: "takeWhile (\<lambda>c. c \<noteq> CHR 0x00) (typed_line ws) = typed_line ws"
    using typed_line_chars [OF ws] by (auto simp: takeWhile_eq_all_conv)
  have short: "length (typed_line ws) < 1000" using length_typed_line [OF ws] assms(2) by linarith
  have "\<forall>w\<in>set ws. length w < 100" using ws by (simp add: plain_word_def)
  with short show ?thesis
    by (auto simp: read_args_def cut scan_typed_line [OF assms] Let_def not_le)
qed

lemma parse_simps:
  "parse_command [''begin''] = Request_cmd (CliReq_init\<lparr>cq_request_type := Req_Type_Begin\<rparr>)"
  "parse_command [''commit''] = Request_cmd (CliReq_init\<lparr>cq_request_type := Req_Type_Commit\<rparr>)"
  "parse_command [''rollback''] = Request_cmd (CliReq_init\<lparr>cq_request_type := Req_Type_Rollback\<rparr>)"
  "parse_command [''get'', k] = Request_cmd (CliReq_init\<lparr>cq_request_type := Req_Type_Get, cq_key := k\<rparr>)"
  "parse_command [''get_for_update'', k] = Request_cmd
     (CliReq_init\<lparr>cq_request_type := Req_Type_Get, cq_key := k, cq_get_for_update := 1\<rparr>)"
  "parse_command [''update'', k, v] = Request_cmd
     (CliReq_init\<lparr>cq_request_type := Req_Type_Update, cq_key := k, cq_value := v\<rparr>)"
  "parse_command [''insert'', k, v] = Request_cmd
     (CliReq_init\<lparr>cq_request_type := Req_Type_Insert, cq_key := k, cq_value := v\<rparr>)"
  "parse_command [''delete'', k] = Request_cmd (CliReq_init\<lparr>cq_request_type := Req_Type_Delete, cq_key := k\<rparr>)"
  by (simp_all add: parse_command_def)

text \<open>What the turns of the loop write.\<close>

context coordinator
begin

lemma client_server_result:
  assumes "client_server K E host port s = Ret e s'"
  shows "sent_on (ct_os s') = sent_on (ct_os s) \<and> \<not> ct_waitRecvFlg s'"
proof -
  obtain ret m k1 where read: "ReadOneMsg K E (ct_fd s) Msg_init (ct_os s) = Ret (ret, m) k1"
    using assms by (cases "ReadOneMsg K E (ct_fd s) Msg_init (ct_os s)") (auto simp: client_server_def)
  have k1: "sent_on k1 = sent_on (ct_os s)"
    using ReadOneMsg_unmoved [of "ct_os s" "ct_fd s" Msg_init] by (simp add: read unmoved_def)
  obtain fd k2 where conn: "Connect K host port (os_close K (ct_fd s) k1) = (fd, k2)" by fastforce
  have "sent_on k2 = sent_on k1" using Connect_sent [OF conn] by (simp add: close_sent)
  with assms read k1 conn show ?thesis
    by (auto simp: client_server_def Let_def print_lines_def split: if_splits)
qed

lemma client_command_result:
  assumes "client_command K E cmd s = Some (Ret e s')" and "\<not> ct_waitRecvFlg s"
  shows "ct_waitRecvFlg s' \<longrightarrow> (\<exists>rq. sent_on (ct_os s') (ct_fd s)
    = sent_on (ct_os s) (ct_fd s) @ framed E (Msg_init\<lparr>msg_msg_type := MSG_Type_Cli_Request,
        msg_content := Cli_request rq\<rparr>))"
proof (cases cmd)
  case (Request_cmd rq)
  let ?m = "Msg_init\<lparr>msg_msg_type := MSG_Type_Cli_Request, msg_content := Cli_request rq\<rparr>"
  from assms(1) Request_cmd obtain ret k where send: "SendMsg K E (ct_fd s) ?m (ct_os s) = Some (ret, k)"
    by (auto simp: client_command_def split: option.splits)
  with SendMsg_sends [OF send] assms Request_cmd show ?thesis
    by (auto simp: client_command_def Let_def framed_def split: if_splits)
qed (use assms in \<open>auto simp: client_command_def printUsage_def print_lines_def split: sum.splits\<close>)

lemma client_input_result:
  assumes "client_input K E s = Some (Ret e s')"
  shows "(ct_waitRecvFlg s \<longrightarrow> sent_on (ct_os s') = sent_on (ct_os s))
    \<and> (\<not> ct_waitRecvFlg s \<and> ct_waitRecvFlg s' \<longrightarrow> (\<exists>rq. sent_on (ct_os s') (ct_fd s)
         = sent_on (ct_os s) (ct_fd s) @ framed E (Msg_init\<lparr>msg_msg_type := MSG_Type_Cli_Request,
             msg_content := Cli_request rq\<rparr>)))"
proof -
  obtain r k1 where read: "os_read K 0 1000 (ct_os s) = (r, k1)" by fastforce
  have k1: "sent_on k1 = sent_on (ct_os s)" by (rule read_sent [OF read])
  show ?thesis
  proof (cases "r = None \<or> ct_waitRecvFlg s")
    case True
    with assms read k1 show ?thesis by (auto simp: client_input_def Let_def split: option.splits)
  next
    case False
    with assms read consider "s' = printUsage (s\<lparr>ct_os := k1\<rparr>)"
      | args where "client_command K E (parse_command args) (s\<lparr>ct_os := k1\<rparr>) = Some (Ret e s')"
      by (auto simp: client_input_def Let_def split: sum.splits if_splits)
    then show ?thesis
    proof cases
      case 1
      with False k1 show ?thesis by (simp add: printUsage_def print_lines_def)
    next
      case 2
      from client_command_result [OF 2] False k1 show ?thesis by simp
    qed
  qed
qed

end

section \<open>A client over the concrete system\<close>


definition demo_client :: "net client" where
  "demo_client = \<lparr>ct_os = net_init\<lparr>chunks := (\<lambda>_. [''get k'']), polls := [(1, [True, False])]\<rparr>,
     ct_fd = 3, ct_waitRecvFlg = False, ct_out = []\<rparr>"

section \<open>Properties\<close>

text \<open>The words of the line that asks for a request.\<close>

fun command_words :: "CliReq \<Rightarrow> string list" where
  "command_words rq =
     (case cq_request_type rq of
        Req_Type_Begin \<Rightarrow> [''begin'']
      | Req_Type_Commit \<Rightarrow> [''commit'']
      | Req_Type_Rollback \<Rightarrow> [''rollback'']
      | Req_Type_Get \<Rightarrow> [if cq_get_for_update rq = 0 then ''get'' else ''get_for_update'', cq_key rq]
      | Req_Type_Update \<Rightarrow> [''update'', cq_key rq, cq_value rq]
      | Req_Type_Insert \<Rightarrow> [''insert'', cq_key rq, cq_value rq]
      | Req_Type_Delete \<Rightarrow> [''delete'', cq_key rq]
      | Req_Type_Prepare \<Rightarrow> [])"

text \<open>A request a line can ask for: it has only the fields of its kind.\<close>

definition typeable :: "CliReq \<Rightarrow> bool" where
  "typeable rq \<longleftrightarrow> cq_begin_ts rq = [] \<and> cq_request_type rq \<noteq> Req_Type_Prepare
     \<and> (if cq_request_type rq \<in> {Req_Type_Begin, Req_Type_Commit, Req_Type_Rollback}
        then cq_key rq = [] else plain_word (cq_key rq))
     \<and> (if cq_request_type rq \<in> {Req_Type_Update, Req_Type_Insert} then plain_word (cq_value rq)
        else cq_value rq = [])
     \<and> (cq_get_for_update rq = 0 \<or> cq_request_type rq = Req_Type_Get \<and> cq_get_for_update rq = 1)"

lemma plain_literals:
  "plain_word ''begin''" "plain_word ''commit''" "plain_word ''rollback''" "plain_word ''get''"
  "plain_word ''get_for_update''" "plain_word ''update''" "plain_word ''insert''" "plain_word ''delete''"
  by (simp_all add: plain_word_def is_space_def)

lemma plain_command_words:
  assumes "typeable rq"
  shows "\<forall>w\<in>set (command_words rq). plain_word w"
proof -
  have k: "cq_request_type rq \<notin> {Req_Type_Begin, Req_Type_Commit, Req_Type_Rollback} \<Longrightarrow> plain_word (cq_key rq)"
    and v: "cq_request_type rq \<in> {Req_Type_Update, Req_Type_Insert} \<Longrightarrow> plain_word (cq_value rq)"
    using assms unfolding typeable_def by meson+
  show ?thesis
    by (cases "cq_request_type rq") (use k v in \<open>simp_all add: plain_literals\<close>)
qed

lemma parse_command_words:
  assumes "typeable rq"
  shows "parse_command (command_words rq) = Request_cmd rq"
proof -
  have rq: "rq = CliReq_init\<lparr>cq_request_type := cq_request_type rq, cq_key := cq_key rq,
      cq_value := cq_value rq, cq_get_for_update := cq_get_for_update rq\<rparr>"
    using assms by (cases rq) (simp add: typeable_def CliReq_init_def)
  have k: "cq_request_type rq \<in> {Req_Type_Begin, Req_Type_Commit, Req_Type_Rollback} \<Longrightarrow> cq_key rq = []"
    and v: "cq_request_type rq \<notin> {Req_Type_Update, Req_Type_Insert} \<Longrightarrow> cq_value rq = []"
    and g: "cq_request_type rq \<noteq> Req_Type_Get \<Longrightarrow> cq_get_for_update rq = 0"
      "cq_get_for_update rq = 0 \<or> cq_get_for_update rq = 1"
    and t: "cq_request_type rq \<noteq> Req_Type_Prepare"
    using assms unfolding typeable_def by meson+
  show ?thesis
  proof (cases "cq_request_type rq")
    case Req_Type_Get
    with g(2) v show ?thesis by (subst (2) rq) (auto simp: parse_simps CliReq_init_def)
  qed (use k v g t in \<open>subst (2) rq, simp add: parse_simps CliReq_init_def\<close>)+
qed

text \<open>
  C35: commands. The line that asks for a request is read and parsed to that request, for every request
  a line can ask for: words of up to 99 characters, without blanks and zero bytes.
\<close>

theorem command_roundtrip:
  assumes "typeable rq"
  shows "\<exists>args. read_args (typed_line (command_words rq)) = Inr args \<and> parse_command args = Request_cmd rq"
proof -
  have "\<forall>w\<in>set (command_words rq). plain_word w"
    by (rule plain_command_words [OF assms])
  moreover have "length (command_words rq) \<le> 4" by (cases "cq_request_type rq") simp_all
  ultimately have "read_args (typed_line (command_words rq)) = Inr (command_words rq)"
    by (rule read_typed_line)
  moreover have "parse_command (command_words rq) = Request_cmd rq"
    by (rule parse_command_words [OF assms])
  ultimately show ?thesis by blast
qed

theorem command_roundtrip_witness:
  "\<exists>args. read_args (typed_line [''get'', ''k'']) = Inr args
    \<and> parse_command args = Request_cmd (CliReq_init\<lparr>cq_request_type := Req_Type_Get, cq_key := ''k''\<rparr>)"
  using command_roundtrip [of "CliReq_init\<lparr>cq_request_type := Req_Type_Get, cq_key := ''k''\<rparr>"]
  by (simp add: typeable_def CliReq_init_def plain_word_def is_space_def)

text \<open>
  Long words. A word of 100 characters or more, with nothing but the line's end around it, is
  written past the end of its array.
\<close>

theorem long_word_overruns:
  assumes "100 \<le> length w" and "length w < 999" and "\<forall>c\<in>set w. \<not> is_space c \<and> c \<noteq> CHR 0x00"
  shows "read_args (w @ [CHR 0x0A]) = Inl Buffer_overrun"
proof -
  have "takeWhile (\<lambda>c. c \<noteq> CHR 0x00) (w @ [CHR 0x0A]) = w @ [CHR 0x0A]"
    using assms(3) by (auto simp: takeWhile_eq_all_conv)
  moreover have "takeWhile (\<lambda>c. \<not> is_space c) (w @ [CHR 0x0A]) = w"
    using assms(3) by (simp add: takeWhile_append is_space_def)
  moreover have "w \<noteq> []" using assms(1) by auto
  then have "dropWhile is_space (w @ [CHR 0x0A]) = w @ [CHR 0x0A]"
    using assms(3) by (cases w) auto
  ultimately show ?thesis using assms(1,2)
    by (simp add: read_args_def numeral_eq_Suc Let_def)
qed

theorem long_word_overruns_witness:
  "read_args (replicate 100 (CHR ''a'') @ [CHR 0x0A]) = Inl Buffer_overrun"
  by (rule long_word_overruns) (simp_all add: is_space_def)

text \<open>
  C36: one request at a time. While the client waits for the server's answer a turn of its loop
  writes nothing to the server, whatever the user types; and the flag is only set by a request that was
  sent whole.
\<close>

theorem waiting_sends_nothing:
  assumes "coordinator K arriving sent_on E opened"
    and "client_turn K E host port s = Some (Ret e s')"
  shows "(ct_waitRecvFlg s \<longrightarrow> sent_on (ct_os s') = sent_on (ct_os s))
    \<and> (\<not> ct_waitRecvFlg s \<and> ct_waitRecvFlg s' \<longrightarrow> (\<exists>rq. sent_on (ct_os s') (ct_fd s)
         = sent_on (ct_os s) (ct_fd s) @ framed E (Msg_init\<lparr>msg_msg_type := MSG_Type_Cli_Request,
             msg_content := Cli_request rq\<rparr>)))"
proof -
  obtain i ev k1 where poll: "os_poll K [0, ct_fd s] 1000 (ct_os s) = (i, ev, k1)" by (metis prod_cases3)
  define s1 where "s1 = s\<lparr>ct_os := k1\<rparr>"
  have k1: "sent_on k1 = sent_on (ct_os s)"
    using coordinator.poll_unmoved [OF assms(1) poll] by (simp add: unmoved_def)
  consider (nothing) "s' = s1" | (server) "client_server K E host port s1 = Ret e s'"
    | (input) "client_input K E s1 = Some (Ret e s')"
    using assms(2) poll by (auto simp: client_turn_def Let_def s1_def split: if_splits)
  then show ?thesis
  proof cases
    case nothing
    with k1 show ?thesis by (simp add: s1_def)
  next
    case server
    with coordinator.client_server_result [OF assms(1) server] k1 show ?thesis by (simp add: s1_def)
  next
    case input
    with coordinator.client_input_result [OF assms(1) input] k1 show ?thesis by (simp add: s1_def)
  qed
qed

theorem waiting_sends_nothing_witness:
  "\<exists>s'. client_turn mem_os mem_env ''h'' 1 (demo_client\<lparr>ct_waitRecvFlg := True\<rparr>) = Some (Ret Goes_on s')
    \<and> written (ct_os s') = (\<lambda>_. [])"
proof -
  obtain s' where run:
    "client_turn mem_os mem_env ''h'' 1 (demo_client\<lparr>ct_waitRecvFlg := True\<rparr>) = Some (Ret Goes_on s')"
    by (simp add: client_turn_def client_input_def demo_client_def mem_os_def net_poll_def net_read_def)
  from waiting_sends_nothing [OF memory.coordinator_axioms this] run show ?thesis
    by (simp add: demo_client_def net_init_def)
qed

end
