(* ===== verification/Pool.thy ===== *)
theory Pool
  imports Mem_Os
begin

text \<open>
  The connection coroutines of a server: \<open>accept_routine\<close> of \<open>storageServ.cpp\<close>, which \<open>logicServ.cpp\<close> has
  too, gives each accepted connection to an idle coroutine, and makes one if there is none. A coroutine is
  a number here, in the order of creation.
\<close>

section \<open>State\<close>

text \<open>
  \<open>pl_idle\<close> is the stack \<open>g_readwrite\<close>, its head the top; \<open>pl_count\<close> is \<open>g_readwrite_routine_count\<close>, the
  coroutines that have been started; \<open>pl_serving\<close> is the connection a coroutine has been given.
\<close>

record pool =
  pl_idle :: "nat list"
  pl_count :: nat
  pl_serving :: "nat \<Rightarrow> int option"

text \<open>A new coroutine runs up to its first yield: it counts itself and goes on the stack.\<close>

definition create_task :: "pool \<Rightarrow> pool" where
  "create_task p = p\<lparr>pl_idle := pl_count p # pl_idle p, pl_count := Suc (pl_count p)\<rparr>"

text \<open>A coroutine whose connection has ended is back at the top of its loop.\<close>

definition task_done :: "nat \<Rightarrow> pool \<Rightarrow> pool" where
  "task_done t p = p\<lparr>pl_idle := t # pl_idle p, pl_serving := (pl_serving p)(t := None)\<rparr>"

text \<open>\<open>main\<close> makes the first 100.\<close>

definition first_tasks :: pool where
  "first_tasks = (create_task ^^ 100) \<lparr>pl_idle = [], pl_count = 0, pl_serving = Map.empty\<rparr>"

text \<open>One turn of \<open>accept_routine\<close>: the coroutine to resume with its connection, if any.\<close>

definition accept_turn :: "'k os \<Rightarrow> int \<Rightarrow> pool \<Rightarrow> 'k \<Rightarrow> (nat \<times> int) option \<times> pool \<times> 'k" where
  "accept_turn K listen_fd p k =
     (let (fd, k) = os_accept K listen_fd k
      in if fd < 0 then
           (let (_, _, k) = os_poll K [listen_fd] 1000 k in (None, p, k))
         else
           (let p = (if pl_idle p = [] then create_task p else p);
                (_, k) = SetNonBlock K fd k;
                t = hd (pl_idle p)
            in (Some (t, fd),
                p\<lparr>pl_serving := (pl_serving p)(t := Some fd), pl_idle := tl (pl_idle p)\<rparr>, k)))"

text \<open>The \<open>accept_routine\<close> of \<open>logicServ.cpp\<close> is the same text over that program's own stack and descriptor.\<close>

definition logic_accept_turn :: "'k os \<Rightarrow> int \<Rightarrow> pool \<Rightarrow> 'k \<Rightarrow> (nat \<times> int) option \<times> pool \<times> 'k" where
  "logic_accept_turn K listen_fd p k =
     (case os_accept K listen_fd k of
        (fd, k) \<Rightarrow>
          if fd < 0 then (None, p, snd (snd (os_poll K [listen_fd] 1000 k)))
          else
            (let p = (if pl_idle p = [] then create_task p else p);
                 k = snd (SetNonBlock K fd k);
                 t = hd (pl_idle p)
             in (Some (t, fd), p\<lparr>pl_serving := (pl_serving p)(t := Some fd), pl_idle := tl (pl_idle p)\<rparr>, k)))"

lemma logic_accept_turn_eq: "logic_accept_turn K listen_fd p k = accept_turn K listen_fd p k"
  by (simp add: logic_accept_turn_def accept_turn_def Let_def split: prod.split)

section \<open>Every coroutine is idle or serves one connection\<close>

definition pool_ok :: "pool \<Rightarrow> bool" where
  "pool_ok p \<longleftrightarrow> distinct (pl_idle p) \<and> set (pl_idle p) \<inter> dom (pl_serving p) = {}
     \<and> set (pl_idle p) \<union> dom (pl_serving p) = {..<pl_count p}"

lemma create_task_ok: "pool_ok p \<Longrightarrow> pool_ok (create_task p)"
  by (fastforce simp: pool_ok_def create_task_def lessThan_Suc)

lemma first_tasks_eq: "first_tasks = \<lparr>pl_idle = rev [0..<100], pl_count = 100, pl_serving = Map.empty\<rparr>"
proof -
  have "(create_task ^^ n) \<lparr>pl_idle = [], pl_count = 0, pl_serving = Map.empty\<rparr>
    = \<lparr>pl_idle = rev [0..<n], pl_count = n, pl_serving = Map.empty\<rparr>" for n
    by (induction n) (simp_all add: create_task_def)
  then show ?thesis unfolding first_tasks_def by blast
qed

lemma first_tasks_ok: "pool_ok first_tasks"
  by (auto simp: first_tasks_eq pool_ok_def simp del: upt_rec_numeral)

lemma task_done_ok: "pool_ok p \<Longrightarrow> t \<in> dom (pl_serving p) \<Longrightarrow> pool_ok (task_done t p)"
  by (auto simp: pool_ok_def task_done_def)

lemma task_taken_ok:
  assumes "pool_ok q" and "pl_idle q = t # rest"
  shows "pool_ok (q\<lparr>pl_serving := (pl_serving q)(t := Some fd), pl_idle := rest\<rparr>)"
proof -
  from assms have t: "t \<notin> set rest" "distinct rest" "insert t (set rest) \<inter> dom (pl_serving q) = {}"
    "insert t (set rest) \<union> dom (pl_serving q) = {..<pl_count q}"
    by (simp_all add: pool_ok_def)
  have "set rest \<inter> insert t (dom (pl_serving q)) = {}" using t(1,3) by blast
  moreover have "set rest \<union> insert t (dom (pl_serving q)) = {..<pl_count q}" using t(4) by blast
  ultimately show ?thesis using t(2) by (simp add: pool_ok_def)
qed

text \<open>The runs of the pool: connections are accepted and end in any order.\<close>

inductive pool_runs :: "'k os \<Rightarrow> int \<Rightarrow> pool \<Rightarrow> bool" for K listen_fd where
  first: "pool_runs K listen_fd first_tasks"
| accepted: "pool_runs K listen_fd p \<Longrightarrow> accept_turn K listen_fd p k = (r, p', k') \<Longrightarrow> pool_runs K listen_fd p'"
| ended: "pool_runs K listen_fd p \<Longrightarrow> t \<in> dom (pl_serving p) \<Longrightarrow> pool_runs K listen_fd (task_done t p)"

lemma accept_turn_ok:
  assumes "accept_turn K listen_fd p k = (r, p', k')" and "pool_ok p"
  shows "pool_ok p' \<and> (case r of None \<Rightarrow> p' = p
    | Some (t, fd) \<Rightarrow> 0 \<le> fd \<and> pl_serving p t = None \<and> pl_serving p' = (pl_serving p)(t \<mapsto> fd))"
proof (cases "fst (os_accept K listen_fd k) < 0")
  case True
  with assms show ?thesis by (auto simp: accept_turn_def split: prod.splits)
next
  case False
  define q where "q = (if pl_idle p = [] then create_task p else p)"
  have q: "pool_ok q" "pl_idle q \<noteq> []" "pl_serving q = pl_serving p"
    by (simp_all add: q_def create_task_ok [OF assms(2)] assms(2)) (simp_all add: create_task_def)
  then obtain t rest where idle: "pl_idle q = t # rest" by (cases "pl_idle q") auto
  from assms(1) False have r: "r = Some (t, fst (os_accept K listen_fd k))"
    and p': "p' = q\<lparr>pl_serving := (pl_serving q)(t := Some (fst (os_accept K listen_fd k))), pl_idle := rest\<rparr>"
    by (auto simp: accept_turn_def q_def [symmetric] idle Let_def split: prod.splits)
  from q idle have "pl_serving p t = None" by (auto simp: pool_ok_def)
  moreover have "pool_ok p'" unfolding p' using task_taken_ok [OF q(1) idle] by simp
  moreover have "pl_serving p' = (pl_serving p)(t \<mapsto> fst (os_accept K listen_fd k))"
    unfolding p' using q(3) by simp
  ultimately show ?thesis using False r by simp
qed

section \<open>Properties\<close>

text \<open>
  C37: the coroutines of a server. However connections come and go, each coroutine is either once on
  the stack of idle ones or serves one connection, and a connection that is accepted goes to one that
  serves none: the stack is never empty when its top is taken.
\<close>

theorem accept_gives_idle_task:
  assumes "pool_runs K listen_fd p" and "accept_turn K listen_fd p k = (r, p', k')"
  shows "pool_ok p \<and> (case r of None \<Rightarrow> p' = p
    | Some (t, fd) \<Rightarrow> 0 \<le> fd \<and> pl_serving p t = None \<and> pl_serving p' = (pl_serving p)(t \<mapsto> fd))"
proof -
  from assms(1) have "pool_ok p"
    by induction (auto simp: first_tasks_ok task_done_ok dest: accept_turn_ok)
  with accept_turn_ok [OF assms(2)] show ?thesis by simp
qed

theorem accept_gives_idle_task_witness:
  "\<exists>p' k'. accept_turn mem_os 3 first_tasks (net_init\<lparr>accepts := [7]\<rparr>) = (Some (99, 7), p', k')
    \<and> pl_serving first_tasks 99 = None"
proof -
  have idle: "hd (pl_idle first_tasks) = 99" "pl_idle first_tasks \<noteq> []"
    by (simp_all add: first_tasks_eq hd_rev del: upt_rec_numeral)
  obtain p' k' where run: "accept_turn mem_os 3 first_tasks (net_init\<lparr>accepts := [7]\<rparr>) = (Some (99, 7), p', k')"
    using idle by (simp add: accept_turn_def mem_os_def net_accept_def SetNonBlock_def net_init_def)
  from accept_gives_idle_task [OF pool_runs.first run] run show ?thesis by auto
qed

end
