(* ===== verification/Mains.thy ===== *)
theory Mains
  imports Pool Clib Startup
begin

text \<open>
  The \<open>main\<close> functions of the two servers: the arguments, the configuration, the listening socket and, for
  a storage server, its own entry of the configuration and the clean-up of its database.
\<close>

section \<open>The storage server\<close>

text \<open>How a \<open>main\<close> ends: with an exit code, or in the event loop.\<close>

datatype 'a main_end = Returns int | Serves 'a

text \<open>
  The loop that looks for the server's own entry: \<open>None\<close> is the return with -1 after the last entry. The
  comparison of an \<open>int\<close> with an \<open>unsigned int\<close> is unsigned. With no entry at all the loop does nothing
  and the entry stays as it was created.
\<close>

fun select_loop :: "int \<Rightarrow> Host list \<Rightarrow> Host option" where
  "select_loop nHashId [] = Some Host_init"
| "select_loop nHashId (h # hs) =
     (if word_of_int nHashId = hash_id h then Some h
      else if hs = [] then None else select_loop nHashId hs)"

text \<open>\<open>listen\<close> and \<open>SetNonBlock\<close>, whose results are ignored.\<close>

definition start_listening :: "'k os \<Rightarrow> int \<Rightarrow> 'k \<Rightarrow> 'k" where
  "start_listening K fd k = snd (SetNonBlock K fd (snd (os_listen K fd k)))"

text \<open>
  \<open>Storage::init\<close>: \<open>open_db\<close> gives the database at a path, \<open>None\<close> if it cannot be opened or created; then the
  handle is null.
\<close>

definition Storage_init :: "(string \<Rightarrow> 'd option) \<Rightarrow> string \<Rightarrow> 'd option \<times> int" where
  "Storage_init open_db dbPath =
     (case open_db dbPath of
        None \<Rightarrow> (None, - 1)
      | Some d \<Rightarrow> (Some d, 0))"

text \<open>The global \<open>g_storage\<close> on an open database, before the resolvers are there.\<close>

definition fresh_node :: "'d \<Rightarrow> int \<Rightarrow> 'd node" where
  "fresh_node d nHashId = \<lparr>db = d,
     prepareTaskStack = [], self_hash_id = word_of_int nHashId,
     node_tasks = (\<lambda>_. \<lparr>pt_begin_ts = [], pt_pc = Ended\<rparr>)\<rparr>"

text \<open>
  The storage server up to its event loop: \<open>files\<close> gives the contents of the files, \<open>open_db\<close> the database
  at a path. The result of \<open>init\<close> is ignored, so that the clean-up may follow a null handle. The coroutine that accepts connections and those that serve them are started
  before the clean-up, but none of them gets beyond its first wait.
\<close>

definition storage_main :: "'k os \<Rightarrow> ('d, 'j) env \<Rightarrow> (string \<Rightarrow> string option) \<Rightarrow> (string \<Rightarrow> 'd option)
    \<Rightarrow> string \<Rightarrow> string list \<Rightarrow> 'k \<Rightarrow> ((int \<times> Config \<times> 'd node) main_end, 'k) outcome" where
  "storage_main K E files open_db now argv k =
     (if length argv \<noteq> 3 then Ret (Returns (- 1)) k
      else let nHashId = to_int (atol (argv ! 1)) in
        case getConfig E (files (argv ! 2)) of
          Inl e \<Rightarrow> Abort e k
        | Inr cfg \<Rightarrow>
            (case select_loop nHashId (config_host cfg) of
               None \<Rightarrow> Ret (Returns (- 1)) k
             | Some self_host \<Rightarrow>
                 (let (fd, k) = CreateTcpSocket K (ucast (host_port self_host)) (Some []) True k
                  in if fd < 0 then Ret (Returns fd) k
                     else
                       (let k = start_listening K fd k;
                            (handle, _) = Storage_init open_db (''data.'' @ show_int nHashId)
                        in case handle of
                             None \<Rightarrow> Abort Null_pointer k
                           | Some d \<Rightarrow>
                               (case startUpClean E (prepare_resume E now) (boot (fresh_node d nHashId)) of
                                  Abort e _ \<Rightarrow> Abort e k
                                | Ret _ st \<Rightarrow> Ret (Serves (fd, cfg, st)) k)))))"

section \<open>The coordinator\<close>

text \<open>The port, an \<open>int\<close>, is taken as an \<open>unsigned short\<close>.\<close>

definition logic_main :: "'k os \<Rightarrow> ('d, 'j) env \<Rightarrow> (string \<Rightarrow> string option) \<Rightarrow> string list \<Rightarrow> 'k
    \<Rightarrow> ((int \<times> Config \<times> pool) main_end, 'k) outcome" where
  "logic_main K E files argv k =
     (if length argv \<noteq> 3 then Ret (Returns (- 1)) k
      else let nListenPort = to_int (atol (argv ! 1));
               (fd, k) = CreateTcpSocket K (word_of_int nListenPort) (Some []) True k
        in if fd < 0 then Ret (Returns fd) k
           else
             (let k = start_listening K fd k
              in case getConfig E (files (argv ! 2)) of
                   Inl e \<Rightarrow> Abort e k
                 | Inr cfg \<Rightarrow> Ret (Serves (fd, cfg, first_tasks)) k))"

section \<open>Lemmas\<close>

lemma select_loop_find:
  "hs \<noteq> [] \<Longrightarrow> select_loop n hs = find (\<lambda>h. hash_id h = word_of_int n) hs"
  by (induction n hs rule: select_loop.induct) auto

text \<open>The clean-up keeps the server's number.\<close>

lemma Put_db_self: "Put_db E st key v = (c, st') \<Longrightarrow> self_hash_id st' = self_hash_id st"
  by (auto simp: Put_db_def Let_def split: prod.splits)

lemma save_and_end_self: "self_hash_id (state_of (save_and_end E t ts tr st)) = self_hash_id st"
  by (auto simp: save_and_end_def prepare_idle_def dest: Put_db_self split: prod.splits)

lemma prepare_next_self: "self_hash_id (state_of (prepare_next E now t rv st)) = self_hash_id st"
  by (auto simp: prepare_next_def prepare_commit_def save_and_end_self Let_def split: prod.splits)

lemma prepare_resume_self: "self_hash_id (state_of (prepare_resume E now t ts st)) = self_hash_id st"
  by (auto simp: prepare_resume_def prepare_enter_def prepare_idle_def prepare_next_self parsed_def Let_def
      split: prod.splits option.splits)

lemma startCleanTrans_self:
  "self_hash_id (state_of (startCleanTrans E (prepare_resume E now) ts st)) = self_hash_id st"
  by (auto simp: startCleanTrans_def parsed_def prepare_resume_self Let_def dest: Put_db_self
      split: prod.splits option.splits list.splits)

lemma startUpClean_loop_self:
  "self_hash_id (state_of (startUpClean_loop E (prepare_resume E now) iter st)) = self_hash_id st"
proof (induction iter arbitrary: st)
  case (Cons kv iter)
  obtain key v where kv: "kv = (key, v)" by fastforce
  have turn: "self_hash_id (state_of (startUpClean_turn E (prepare_resume E now) key v st)) = self_hash_id st"
    by (auto simp: startUpClean_turn_def parsed_def startCleanTrans_self Let_def dest: Put_db_self
        split: prod.splits option.splits sum.splits)
  show ?case
  proof (cases "startUpClean_turn E (prepare_resume E now) key v st")
    case (Ret a st1)
    with Cons.IH [of st1] turn show ?thesis by (simp add: kv)
  next
    case (Abort c st1)
    with turn show ?thesis by (simp add: kv)
  qed
qed simp

lemma startUpClean_self:
  "startUpClean E (prepare_resume E now) st = Ret a st' \<Longrightarrow> self_hash_id st' = self_hash_id st"
  using startUpClean_loop_self [of E now "dropWhile (\<lambda>kv. fst kv < makeTrans []) (db_Iterator E (db st))" st]
  by (simp add: startUpClean_def)

section \<open>A start over the concrete system\<close>

definition config_file :: "Config \<Rightarrow> string" where
  "config_file cfg = Msg2JsonStr mem_env (pb_Config mem_env) cfg"

definition host_config :: Config where
  "host_config = Config_init\<lparr>config_host := demo_hosts\<rparr>"

lemma config_files:
  "getConfig mem_env (Some (config_file host_config)) = Inr host_config"
  "getConfig mem_env (Some (config_file Config_init)) = Inr Config_init"
proof -
  have "length (config_file host_config) < 1000 \<and> CHR 0x00 \<notin> set (config_file host_config)"
    "length (config_file Config_init) < 1000 \<and> CHR 0x00 \<notin> set (config_file Config_init)"
    by code_simp+
  then show "getConfig mem_env (Some (config_file host_config)) = Inr host_config"
    "getConfig mem_env (Some (config_file Config_init)) = Inr Config_init"
    by (auto simp: config_file_def intro: pb2json.getConfig_text [OF mem.pb2json_axioms])
qed

text \<open>An empty database has nothing to clean up.\<close>

lemma empty_start: "startUpClean mem_env (prepare_resume mem_env now) (boot (fresh_node RBT.empty n))
    = Ret () (boot (fresh_node RBT.empty n))"
proof -
  have "db_Iterator mem_env RBT.empty = []" by code_simp
  then show ?thesis by (simp add: startUpClean_def boot_def fresh_node_def)
qed

lemma demo_socket: "\<exists>k1. CreateTcpSocket mem_os p (Some []) True net_init = (3, k1)"
  by (cases "p = 0")
    (simp_all add: CreateTcpSocket_def mem_os_def net_socket_def net_bind_def net_init_def Let_def)

lemma demo_main_runs:
  "\<exists>k'. storage_main mem_os mem_env (\<lambda>_. Some (config_file host_config)) (\<lambda>_. Some RBT.empty) ''ts7''
      [''storageServ'', ''2'', ''c''] net_init
    = Ret (Serves (3, host_config, boot (fresh_node RBT.empty 2))) k'"
proof -
  have n: "to_int (atol ''2'') = 2" by code_simp
  have select: "select_loop 2 (config_host host_config) = Some (demo_hosts ! 1)"
    by (simp add: host_config_def demo_hosts_def)
  obtain k1 where "CreateTcpSocket mem_os (ucast (host_port (demo_hosts ! 1))) (Some []) True net_init = (3, k1)"
    using demo_socket by blast
  then show ?thesis
    by (simp add: storage_main_def Storage_init_def config_files(1) empty_start n select)
qed

section \<open>Properties\<close>



text \<open>
  An empty configuration. With no entry to look for its own in, a storage server does not stop: it
  goes on with an entry that has no address, and listens on a socket that is bound to no port.
\<close>

theorem empty_config_starts:
  assumes "length argv = 3" and "getConfig E (files (argv ! 2)) = Inr cfg" and "config_host cfg = []"
    and "os_socket K k = (fd, k1)" and "0 \<le> fd"
    and "open_db (''data.'' @ show_int (to_int (atol (argv ! 1)))) = Some d"
    and "startUpClean E (prepare_resume E now) (boot (fresh_node d (to_int (atol (argv ! 1))))) = Ret () st"
  shows "storage_main K E files open_db now argv k = Ret (Serves (fd, cfg, st)) (start_listening K fd k1)"
  using assms by (simp add: storage_main_def Storage_init_def CreateTcpSocket_def Host_init_def)

theorem empty_config_starts_witness:
  "\<exists>k'. storage_main mem_os mem_env (\<lambda>_. Some (config_file Config_init)) (\<lambda>_. Some RBT.empty) ''ts7''
      [''storageServ'', ''2'', ''c''] net_init
    = Ret (Serves (3, Config_init, boot (fresh_node RBT.empty 2))) k'"
proof -
  have n: "to_int (atol ''2'') = 2" by code_simp
  have socket: "os_socket mem_os net_init = (3, net_init\<lparr>next_fd := 1\<rparr>)"
    by (simp add: mem_os_def net_socket_def net_init_def)
  have "storage_main mem_os mem_env (\<lambda>_. Some (config_file Config_init)) (\<lambda>_. Some RBT.empty) ''ts7''
      [''storageServ'', ''2'', ''c''] net_init
    = Ret (Serves (3, Config_init, boot (fresh_node RBT.empty 2)))
        (start_listening mem_os 3 (net_init\<lparr>next_fd := 1\<rparr>))"
    by (rule empty_config_starts [OF _ _ _ socket _ refl])
      (simp_all add: config_files(2) empty_start n, simp add: Config_init_def)
  then show ?thesis by blast
qed

end
